(* ===== verification/CPrelude.thy ===== *)
theory CPrelude
  imports "HOL-Library.Word" "HOL-Library.Monad_Syntax"
begin

text \<open>
  What the components share: C strings and byte buffers, little-endian 32-bit integers in
  a buffer, decimal printing as \<open>sprintf\<close> does it, and small facts on options and lists.

  Conventions of the whole development:
  \<^item> a C string is a \<open>string\<close> with no NUL byte (\<open>cstr\<close>); a byte buffer is a \<open>string\<close>
    in which NUL may occur, and \<open>c_string\<close> reads the C string at its start;
  \<^item> a result of type \<open>option\<close> is \<open>None\<close> where the C code has no result: it dereferences
    NULL, reads past the end of a buffer or reads uninitialised memory, leaves through
    \<open>fatal\<close>, or does not return.
\<close>

named_theorems cstr_simps \<open>facts on C strings\<close>
named_theorems path_simps \<open>facts on the file names the components build\<close>

subsection \<open>C strings\<close>

definition NUL :: char where
  "NUL = CHR 0x00"

definition cstr :: "string \<Rightarrow> bool" where
  "cstr s \<longleftrightarrow> NUL \<notin> set s"

text \<open>The C string at the start of a buffer; \<open>None\<close> when the buffer holds no NUL.\<close>

fun c_string :: "string \<Rightarrow> string option" where
  "c_string [] = None"
| "c_string (c # cs) = (if c = NUL then Some [] else map_option ((#) c) (c_string cs))"

lemma cstr_Nil [simp, cstr_simps]: "cstr []"
  by (simp add: cstr_def)

lemma cstr_Cons [simp, cstr_simps]: "cstr (c # s) \<longleftrightarrow> c \<noteq> NUL \<and> cstr s"
  by (auto simp: cstr_def)

lemma cstr_append [simp, cstr_simps]: "cstr (s @ t) \<longleftrightarrow> cstr s \<and> cstr t"
  by (auto simp: cstr_def)

lemma c_string_terminated [simp, cstr_simps]:
  "cstr s \<Longrightarrow> c_string (s @ NUL # t) = Some s"
  by (induction s) auto

lemma c_string_cstr: "c_string b = Some s \<Longrightarrow> cstr s"
  by (induction b arbitrary: s) (auto split: if_splits)

lemma c_string_SomeD: "c_string b = Some s \<Longrightarrow> \<exists>t. b = s @ NUL # t"
  by (induction b arbitrary: s) (auto split: if_splits)

subsection \<open>Little-endian 32-bit integers in a buffer\<close>

text \<open>\<open>int\<close> is 32 bits wide; a struct written with \<open>fwrite\<close> or \<open>write\<close> starts with its fields.\<close>

definition byte_of :: "int \<Rightarrow> char" where
  "byte_of n = char_of (n mod 256)"

definition le32 :: "32 word \<Rightarrow> string" where
  "le32 w = (let n = uint w in
     [byte_of n, byte_of (n div 256), byte_of (n div 65536), byte_of (n div 16777216)])"

fun rd32 :: "string \<Rightarrow> 32 word option" where
  "rd32 (a # b # c # d # _) =
     Some (of_char a + 256 * of_char b + 65536 * of_char c + 16777216 * of_char d)"
| "rd32 _ = None"

lemma length_le32 [simp]: "length (le32 w) = 4"
  by (simp add: le32_def Let_def)

lemma of_char_byte_of_int: "of_char (byte_of n) = n mod 256"
  by (simp add: byte_of_def)

lemma of_char_byte_of: "of_char (byte_of n) = (of_int (n mod 256) :: 'a :: {comm_ring_1})"
  by (metis of_char_byte_of_int of_int_of_char)

lemma bytes4_sum:
  fixes n :: int
  assumes "0 \<le> n" "n < 4294967296"
  shows "n mod 256 + 256 * (n div 256 mod 256) + 65536 * (n div 65536 mod 256)
           + 16777216 * (n div 16777216 mod 256) = n"
proof -
  have split: "m = m mod 256 + 256 * (m div 256)" for m :: int
    by simp
  have top: "n div 16777216 mod 256 = n div 16777216"
    using assms by (intro mod_pos_pos_trivial) (simp_all add: pos_imp_zdiv_nonneg_iff)
  have "n div 256 = n div 256 mod 256 + 256 * (n div 65536)"
    using split [of "n div 256"] by (simp add: zdiv_zmult2_eq [symmetric])
  moreover have "n div 65536 = n div 65536 mod 256 + 256 * (n div 16777216)"
    using split [of "n div 65536"] by (simp add: zdiv_zmult2_eq [symmetric])
  ultimately show ?thesis
    using split [of n] top by linarith
qed

lemma rd32_le32 [simp]: "rd32 (le32 w @ t) = Some w"
proof -
  have "0 \<le> uint w" "uint w < 4294967296"
    using unsigned_less [of w, where 'a = int] by simp_all
  from arg_cong [OF bytes4_sum [OF this], of "word_of_int :: int \<Rightarrow> 32 word"]
  show ?thesis
    by (simp add: le32_def Let_def of_char_byte_of)
qed

lemma rd32_None_iff: "rd32 b = None \<longleftrightarrow> length b < 4"
  by (cases b rule: rd32.cases) auto

lemma sint_of_small_nat: "n < 2 ^ 31 \<Longrightarrow> sint (word_of_nat n :: 32 word) = int n"
  by (simp add: signed_of_nat signed_take_bit_int_eq_self)

subsection \<open>Decimal printing\<close>

definition digit :: "nat \<Rightarrow> char" where
  "digit n = char_of (48 + n)"

text \<open>What \<open>%u\<close>, \<open>%lu\<close> and \<open>%d\<close> of a non-negative number print.\<close>

fun dec :: "nat \<Rightarrow> string" where
  "dec n = (if n < 10 then [digit n] else dec (n div 10) @ [digit (n mod 10)])"

declare dec.simps [simp del]

text \<open>\<open>%d\<close>.\<close>

definition sdec :: "int \<Rightarrow> string" where
  "sdec n = (if n < 0 then CHR ''-'' # dec (nat (- n)) else dec (nat n))"

definition undec :: "string \<Rightarrow> nat" where
  "undec s = foldl (\<lambda>a c. 10 * a + (of_char c - 48)) 0 s"

definition is_digit :: "char \<Rightarrow> bool" where
  "is_digit c \<longleftrightarrow> 48 \<le> (of_char c :: nat) \<and> (of_char c :: nat) \<le> 57"

lemma of_char_digit: "n < 10 \<Longrightarrow> of_char (digit n) = 48 + n"
  by (simp add: digit_def)

lemma is_digit_digit [simp]: "n < 10 \<Longrightarrow> is_digit (digit n)"
  by (simp add: is_digit_def of_char_digit)

lemma dec_digits: "list_all is_digit (dec n)"
proof (induction n rule: dec.induct)
  case (1 n)
  then show ?case by (subst dec.simps) simp
qed

lemma dec_not_Nil [simp]: "dec n \<noteq> []"
  by (subst dec.simps) simp

lemma undec_dec [simp]: "undec (dec n) = n"
proof (induction n rule: dec.induct)
  case (1 n)
  show ?case
  proof (cases "n < 10")
    case True
    then show ?thesis by (subst dec.simps) (simp add: undec_def of_char_digit)
  next
    case False
    then have "undec (dec n) = 10 * undec (dec (n div 10)) + n mod 10"
      by (subst dec.simps) (simp add: undec_def of_char_digit)
    with 1 False show ?thesis by simp
  qed
qed

lemma dec_inject [simp, path_simps]: "dec m = dec n \<longleftrightarrow> m = n"
  by (metis undec_dec)

lemma digit_not_NUL: "is_digit c \<Longrightarrow> c \<noteq> NUL"
  by (auto simp: is_digit_def NUL_def)

lemma cstr_dec [simp, cstr_simps]: "cstr (dec n)"
  using dec_digits [of n] by (auto simp: cstr_def list_all_iff dest: digit_not_NUL)

lemma length_dec_le: "n < 10 ^ k \<Longrightarrow> 0 < k \<Longrightarrow> length (dec n) \<le> k"
proof (induction k arbitrary: n)
  case 0
  then show ?case by simp
next
  case (Suc k)
  show ?case
  proof (cases "n < 10")
    case True
    then show ?thesis by (subst dec.simps) simp
  next
    case False
    then have k: "0 < k" using Suc.prems(1) by (cases k) auto
    from Suc.prems(1) have "n div 10 < 10 ^ k" by (simp add: less_mult_imp_div_less)
    from Suc.IH [OF this k] False show ?thesis by (subst dec.simps) simp
  qed
qed

lemma not_digit [simp]: "\<not> is_digit CHR ''-''" "\<not> is_digit CHR ''.''" "\<not> is_digit CHR ''/''"
  by (simp_all add: is_digit_def)

lemma slash_notin_dec [simp]: "CHR ''/'' \<notin> set (dec n)"
  using dec_digits [of n] not_digit(3) by (auto simp: list_all_iff)

text \<open>A run of digits ends where the first other character stands.\<close>

lemma digits_prefix_unique:
  assumes "list_all is_digit xs" "list_all is_digit ys" "\<not> is_digit a" "\<not> is_digit b"
    and "xs @ a # s = ys @ b # t"
  shows "xs = ys \<and> a = b \<and> s = t"
  using assms
proof (induction xs arbitrary: ys)
  case Nil
  then show ?case by (cases ys) auto
next
  case (Cons x xs)
  then show ?case by (cases ys) auto
qed

subsection \<open>Reading decimal numbers\<close>

text \<open>\<open>atoi\<close> as the C library has it: \<open>strtol\<close> to 64 bits, cut to an \<open>int\<close>.\<close>

definition is_space :: "char \<Rightarrow> bool" where
  "is_space c \<longleftrightarrow> c = CHR '' '' \<or> (9 \<le> (of_char c :: nat) \<and> (of_char c :: nat) \<le> 13)"

definition strtol :: "string \<Rightarrow> int" where
  "strtol s =
     (let t = dropWhile is_space s;
          neg = (case t of c # _ \<Rightarrow> c = CHR ''-'' | [] \<Rightarrow> False);
          u = (case t of c # r \<Rightarrow> if c = CHR ''-'' \<or> c = CHR ''+'' then r else t | [] \<Rightarrow> []);
          n = int (undec (takeWhile is_digit u))
      in if neg then max (- (2 ^ 63)) (- n) else min (2 ^ 63 - 1) n)"

definition atoi :: "string \<Rightarrow> 32 word" where
  "atoi s = word_of_int (strtol s)"

lemma digit_not_space: "is_digit c \<Longrightarrow> \<not> is_space c"
  by (auto simp: is_digit_def is_space_def)

lemma not_digit_sign [simp]: "\<not> is_digit CHR ''+''" "\<not> is_digit CHR '' ''"
  by (simp_all add: is_digit_def)

text \<open>Reading back a printed number, whatever stands behind its digits.\<close>

lemma strtol_dec:
  assumes "n < 2 ^ 63" "t = [] \<or> \<not> is_digit (hd t)"
  shows "strtol (dec n @ t) = int n"
proof -
  have d: "list_all is_digit (dec n)" by (rule dec_digits)
  obtain c r where cr: "dec n = c # r" by (cases "dec n") auto
  then have c: "is_digit c" using d by simp
  have "takeWhile is_digit (dec n @ t) = dec n"
    using d assms(2) by (cases t) (simp_all add: list_all_iff takeWhile_append)
  moreover have "dropWhile is_space (dec n @ t) = dec n @ t"
    using digit_not_space [OF c] cr by simp
  moreover have "c \<noteq> CHR ''-''" "c \<noteq> CHR ''+''" using c by auto
  moreover have "(case dec n @ t of c # r \<Rightarrow> if c = CHR ''-'' \<or> c = CHR ''+'' then r else dec n @ t
      | [] \<Rightarrow> []) = dec n @ t" "(case dec n @ t of c # _ \<Rightarrow> c = CHR ''-'' | [] \<Rightarrow> False) = False"
    using cr \<open>c \<noteq> CHR ''-''\<close> \<open>c \<noteq> CHR ''+''\<close> by simp_all
  ultimately have "strtol (dec n @ t) = min (2 ^ 63 - 1) (int n)"
    by (simp only: strtol_def Let_def undec_dec if_False)
  then show ?thesis using assms(1) by simp
qed

lemma atoi_dec: "n < 2 ^ 32 \<Longrightarrow> t = [] \<or> \<not> is_digit (hd t) \<Longrightarrow> atoi (dec n @ t) = word_of_nat n"
  by (simp add: atoi_def strtol_dec)

lemma list_all_True: "list_all (\<lambda>_. True) xs"
  by (simp add: list_all_iff)

subsection \<open>Two threads\<close>

text \<open>A schedule of two threads is a list of turns: which of them makes the next step.\<close>

datatype turn = First | Second

end
