(* ===== verification/KVConstants.thy ===== *)
theory KVConstants
  imports CPrelude
begin

text \<open>
  The constants of hw4/src/kvconstants.h: limits, error codes, the texts of the error
  messages, the message types and the states of a two-phase-commit participant.
\<close>

definition MAX_KEYLEN :: nat where "MAX_KEYLEN = 1024"
definition MAX_VALLEN :: nat where "MAX_VALLEN = 1024"
definition MAX_FILENAME :: nat where "MAX_FILENAME = 1024"

definition MSG_COMMIT :: string where "MSG_COMMIT = ''commit''"
definition ERRMSG_NO_KEY :: string where "ERRMSG_NO_KEY = ''error: no key''"
definition ERRMSG_KEY_LEN :: string where "ERRMSG_KEY_LEN = ''error: improper key length''"
definition ERRMSG_VAL_LEN :: string where "ERRMSG_VAL_LEN = ''error: value too long''"
definition ERRMSG_INVALID_REQUEST :: string where
  "ERRMSG_INVALID_REQUEST = ''error: invalid request''"
definition ERRMSG_NOT_AT_CAPACITY :: string where
  "ERRMSG_NOT_AT_CAPACITY = ''error: follower_capacity not yet full''"
definition ERRMSG_FOLLOWER_CAPACITY :: string where
  "ERRMSG_FOLLOWER_CAPACITY = ''error: follower capacity already full''"
definition ERRMSG_GENERIC_ERROR :: string where
  "ERRMSG_GENERIC_ERROR = ''error: unable to process request''"

definition COMMIT_PATH :: string where "COMMIT_PATH = MSG_COMMIT"
definition ABORT_PATH :: string where "ABORT_PATH = ''abort''"
definition REGISTER_PATH :: string where "REGISTER_PATH = ''register''"

definition ERRKEYLEN :: int where "ERRKEYLEN = -11"
definition ERRVALLEN :: int where "ERRVALLEN = -12"
definition ERRNOKEY :: int where "ERRNOKEY = -13"
definition ERRINVLDMSG :: int where "ERRINVLDMSG = -14"
definition ERRFILACCESS :: int where "ERRFILACCESS = -17"

lemmas error_codes =
  ERRKEYLEN_def ERRVALLEN_def ERRNOKEY_def ERRINVLDMSG_def ERRFILACCESS_def

definition GETMSG :: "int \<Rightarrow> string" where
  "GETMSG error =
     (if error = ERRKEYLEN then ERRMSG_KEY_LEN
      else if error = ERRVALLEN then ERRMSG_VAL_LEN
      else if error = ERRNOKEY then ERRMSG_NO_KEY
      else ERRMSG_GENERIC_ERROR)"

text \<open>No error text is the vote the leader looks for.\<close>

lemma GETMSG_not_commit [simp]: "GETMSG e \<noteq> MSG_COMMIT"
  by (simp add: GETMSG_def MSG_COMMIT_def ERRMSG_KEY_LEN_def ERRMSG_VAL_LEN_def
      ERRMSG_NO_KEY_def ERRMSG_GENERIC_ERROR_def)

lemma ERRMSG_INVALID_REQUEST_not_commit [simp]: "ERRMSG_INVALID_REQUEST \<noteq> MSG_COMMIT"
  by (simp add: ERRMSG_INVALID_REQUEST_def MSG_COMMIT_def)

datatype msgtype_t =
    INDEX | GETREQ | PUTREQ | DELREQ | REGISTER | COMMIT | ABORT
  | GETRESP | SUCCESS | ERROR | VOTE | ACK | EMPTY

text \<open>The value the C compiler gives an enumerator: its position.\<close>

fun msgtype_code :: "msgtype_t \<Rightarrow> nat" where
  "msgtype_code INDEX = 0"
| "msgtype_code GETREQ = 1"
| "msgtype_code PUTREQ = 2"
| "msgtype_code DELREQ = 3"
| "msgtype_code REGISTER = 4"
| "msgtype_code COMMIT = 5"
| "msgtype_code ABORT = 6"
| "msgtype_code GETRESP = 7"
| "msgtype_code SUCCESS = 8"
| "msgtype_code ERROR = 9"
| "msgtype_code VOTE = 10"
| "msgtype_code ACK = 11"
| "msgtype_code EMPTY = 12"

lemma msgtype_code_inject [simp]: "msgtype_code a = msgtype_code b \<longleftrightarrow> a = b"
  by (cases a; cases b) simp_all

lemma msgtype_code_less: "msgtype_code a < 13"
  by (cases a) simp_all

datatype tpc_state_t = TPC_INIT | TPC_WAIT | TPC_READY | TPC_ABORT | TPC_COMMIT

end
