(* ===== verification/MD5.thy ===== *)
theory MD5
  imports KVConstants
begin

text \<open>
  The MD5 digest of hw4/src/md5.c and the 64-bit string hash \<open>strhash64\<close> of
  hw4/src/kvconstants.h built on it. The context keeps the four chaining words, the byte
  count (\<open>lo\<close> modulo \<open>2^29\<close>, \<open>hi\<close> above it) and a 64-byte buffer; \<open>block\<close> is written only
  by the variant of \<open>SET\<close> for machines that do not read unaligned words, and is left out.

  MD5Reference shows that the buffered, streaming \<open>MD5_Update\<close> and \<open>MD5_Final\<close> compute the
  digest of the whole message as RFC 1321 defines it.
\<close>

unbundle bit_operations_syntax

type_synonym u32 = "32 word"
type_synonym u64 = "64 word"

record MD5_CTX =
  ctx_lo :: u32
  ctx_hi :: u32
  ctx_a :: u32
  ctx_b :: u32
  ctx_c :: u32
  ctx_d :: u32
  ctx_buffer :: string

subsection \<open>The step functions\<close>

definition md5_F :: "u32 \<Rightarrow> u32 \<Rightarrow> u32 \<Rightarrow> u32" where
  "md5_F x y z = z XOR (x AND (y XOR z))"
definition md5_G :: "u32 \<Rightarrow> u32 \<Rightarrow> u32 \<Rightarrow> u32" where
  "md5_G x y z = y XOR (z AND (x XOR y))"
definition md5_H :: "u32 \<Rightarrow> u32 \<Rightarrow> u32 \<Rightarrow> u32" where
  "md5_H x y z = (x XOR y) XOR z"
definition md5_H2 :: "u32 \<Rightarrow> u32 \<Rightarrow> u32 \<Rightarrow> u32" where
  "md5_H2 x y z = x XOR (y XOR z)"
definition md5_I :: "u32 \<Rightarrow> u32 \<Rightarrow> u32 \<Rightarrow> u32" where
  "md5_I x y z = y XOR (x OR NOT z)"

text \<open>\<open>STEP(f, a, b, c, d, x, t, s)\<close>: the new value of \<open>a\<close>.\<close>

definition md5_STEP ::
  "(u32 \<Rightarrow> u32 \<Rightarrow> u32 \<Rightarrow> u32) \<Rightarrow> u32 \<Rightarrow> u32 \<Rightarrow> u32 \<Rightarrow> u32 \<Rightarrow> u32 \<Rightarrow> u32 \<Rightarrow> nat \<Rightarrow> u32" where
  "md5_STEP f a b c d x t s =
     (let a1 = a + (f b c d + x + t);
          a2 = push_bit s a1 OR drop_bit (32 - s) (a1 AND 0xffffffff)
      in a2 + b)"

text \<open>\<open>SET(n)\<close> and \<open>GET(n)\<close>: the \<open>n\<close>-th little-endian word of the block.\<close>

definition md5_SET :: "string \<Rightarrow> nat \<Rightarrow> u32" where
  "md5_SET ptr n =
     of_char (ptr ! (4 * n)) + 256 * of_char (ptr ! (4 * n + 1))
       + 65536 * of_char (ptr ! (4 * n + 2)) + 16777216 * of_char (ptr ! (4 * n + 3))"

type_synonym md5_line = "(u32 \<Rightarrow> u32 \<Rightarrow> u32 \<Rightarrow> u32) \<times> nat \<times> u32 \<times> nat"
type_synonym md5_regs = "u32 \<times> u32 \<times> u32 \<times> u32"

text \<open>
  The 64 lines of the four rounds: function, word of the block, constant, rotation. The
  lines name the registers in the order \<open>a b c d\<close>, \<open>d a b c\<close>, \<open>c d a b\<close>, \<open>b c d a\<close> and
  again, so a line acts on the first register and the registers then move one place.
\<close>

definition md5_round1 :: "md5_line list" where
  "md5_round1 =
    [(md5_F, 0, 0xd76aa478, 7),
     (md5_F, 1, 0xe8c7b756, 12),
     (md5_F, 2, 0x242070db, 17),
     (md5_F, 3, 0xc1bdceee, 22),
     (md5_F, 4, 0xf57c0faf, 7),
     (md5_F, 5, 0x4787c62a, 12),
     (md5_F, 6, 0xa8304613, 17),
     (md5_F, 7, 0xfd469501, 22),
     (md5_F, 8, 0x698098d8, 7),
     (md5_F, 9, 0x8b44f7af, 12),
     (md5_F, 10, 0xffff5bb1, 17),
     (md5_F, 11, 0x895cd7be, 22),
     (md5_F, 12, 0x6b901122, 7),
     (md5_F, 13, 0xfd987193, 12),
     (md5_F, 14, 0xa679438e, 17),
     (md5_F, 15, 0x49b40821, 22)]"
definition md5_round2 :: "md5_line list" where
  "md5_round2 =
    [(md5_G, 1, 0xf61e2562, 5),
     (md5_G, 6, 0xc040b340, 9),
     (md5_G, 11, 0x265e5a51, 14),
     (md5_G, 0, 0xe9b6c7aa, 20),
     (md5_G, 5, 0xd62f105d, 5),
     (md5_G, 10, 0x02441453, 9),
     (md5_G, 15, 0xd8a1e681, 14),
     (md5_G, 4, 0xe7d3fbc8, 20),
     (md5_G, 9, 0x21e1cde6, 5),
     (md5_G, 14, 0xc33707d6, 9),
     (md5_G, 3, 0xf4d50d87, 14),
     (md5_G, 8, 0x455a14ed, 20),
     (md5_G, 13, 0xa9e3e905, 5),
     (md5_G, 2, 0xfcefa3f8, 9),
     (md5_G, 7, 0x676f02d9, 14),
     (md5_G, 12, 0x8d2a4c8a, 20)]"
definition md5_round3 :: "md5_line list" where
  "md5_round3 =
    [(md5_H, 5, 0xfffa3942, 4),
     (md5_H2, 8, 0x8771f681, 11),
     (md5_H, 11, 0x6d9d6122, 16),
     (md5_H2, 14, 0xfde5380c, 23),
     (md5_H, 1, 0xa4beea44, 4),
     (md5_H2, 4, 0x4bdecfa9, 11),
     (md5_H, 7, 0xf6bb4b60, 16),
     (md5_H2, 10, 0xbebfbc70, 23),
     (md5_H, 13, 0x289b7ec6, 4),
     (md5_H2, 0, 0xeaa127fa, 11),
     (md5_H, 3, 0xd4ef3085, 16),
     (md5_H2, 6, 0x04881d05, 23),
     (md5_H, 9, 0xd9d4d039, 4),
     (md5_H2, 12, 0xe6db99e5, 11),
     (md5_H, 15, 0x1fa27cf8, 16),
     (md5_H2, 2, 0xc4ac5665, 23)]"
definition md5_round4 :: "md5_line list" where
  "md5_round4 =
    [(md5_I, 0, 0xf4292244, 6),
     (md5_I, 7, 0x432aff97, 10),
     (md5_I, 14, 0xab9423a7, 15),
     (md5_I, 5, 0xfc93a039, 21),
     (md5_I, 12, 0x655b59c3, 6),
     (md5_I, 3, 0x8f0ccc92, 10),
     (md5_I, 10, 0xffeff47d, 15),
     (md5_I, 1, 0x85845dd1, 21),
     (md5_I, 8, 0x6fa87e4f, 6),
     (md5_I, 15, 0xfe2ce6e0, 10),
     (md5_I, 6, 0xa3014314, 15),
     (md5_I, 13, 0x4e0811a1, 21),
     (md5_I, 4, 0xf7537e82, 6),
     (md5_I, 11, 0xbd3af235, 10),
     (md5_I, 2, 0x2ad7d2bb, 15),
     (md5_I, 9, 0xeb86d391, 21)]"

fun md5_line :: "string \<Rightarrow> md5_regs \<Rightarrow> md5_line \<Rightarrow> md5_regs" where
  "md5_line ptr (a, b, c, d) (f, k, t, s) = (d, md5_STEP f a b c d (md5_SET ptr k) t s, b, c)"

definition md5_rounds :: "string \<Rightarrow> md5_regs \<Rightarrow> md5_regs" where
  "md5_rounds ptr r =
     foldl (md5_line ptr) r (md5_round1 @ md5_round2 @ md5_round3 @ md5_round4)"

text \<open>One pass of the loop of \<open>body\<close>: the rounds, then the saved values added.\<close>

definition md5_compress :: "md5_regs \<Rightarrow> string \<Rightarrow> md5_regs" where
  "md5_compress r ptr =
     (case (r, md5_rounds ptr r) of
        ((saved_a, saved_b, saved_c, saved_d), (a, b, c, d)) \<Rightarrow>
          (a + saved_a, b + saved_b, c + saved_c, d + saved_d))"

text \<open>
  The loop \<open>do ... while (size -= 64)\<close>; the callers pass a positive multiple of 64. The
  result is the chaining words and the pointer past the consumed data.
\<close>

fun md5_body_loop :: "md5_regs \<Rightarrow> string \<Rightarrow> nat \<Rightarrow> md5_regs \<times> string" where
  "md5_body_loop r data sz =
     (let r' = md5_compress r (take 64 data); data' = drop 64 data; sz' = sz - 64
      in if sz' \<noteq> 0 then md5_body_loop r' data' sz' else (r', data'))"

declare md5_body_loop.simps [simp del]

definition md5_body :: "MD5_CTX \<Rightarrow> string \<Rightarrow> nat \<Rightarrow> MD5_CTX \<times> string" where
  "md5_body ctx data sz =
     (case md5_body_loop (ctx_a ctx, ctx_b ctx, ctx_c ctx, ctx_d ctx) data sz of
        ((a, b, c, d), ptr) \<Rightarrow>
          (ctx\<lparr>ctx_a := a, ctx_b := b, ctx_c := c, ctx_d := d\<rparr>, ptr))"

subsection \<open>The interface\<close>

definition MD5_Init :: "MD5_CTX \<Rightarrow> MD5_CTX" where
  "MD5_Init ctx = ctx\<lparr>ctx_a := 0x67452301, ctx_b := 0xefcdab89, ctx_c := 0x98badcfe,
     ctx_d := 0x10325476, ctx_lo := 0, ctx_hi := 0\<rparr>"

text \<open>\<open>memcpy(&buffer[pos], src, |src|)\<close>.\<close>

definition buf_write :: "string \<Rightarrow> nat \<Rightarrow> string \<Rightarrow> string" where
  "buf_write buf pos src = take pos buf @ src @ drop (pos + length src) buf"

text \<open>The byte counters: \<open>size\<close> is an \<open>unsigned long\<close>, 64 bits wide.\<close>

definition md5_count :: "MD5_CTX \<Rightarrow> u64 \<Rightarrow> MD5_CTX" where
  "md5_count ctx sz =
     (let saved_lo = ctx_lo ctx;
          lo = ucast ((ucast saved_lo + sz) AND 0x1fffffff);
          hi = (if lo < saved_lo then ctx_hi ctx + 1 else ctx_hi ctx)
      in ctx\<lparr>ctx_lo := lo, ctx_hi := hi + ucast (drop_bit 29 sz)\<rparr>)"

text \<open>What \<open>MD5_Update\<close> does once the buffer is empty: whole blocks, then the rest.\<close>

definition md5_update_blocks :: "MD5_CTX \<Rightarrow> string \<Rightarrow> MD5_CTX" where
  "md5_update_blocks ctx data =
     (let sz = length data;
          (ctx, data) =
            (if 64 \<le> sz then md5_body ctx data (sz - sz mod 64) else (ctx, data));
          sz = (if 64 \<le> sz then sz mod 64 else sz)
      in ctx\<lparr>ctx_buffer := buf_write (ctx_buffer ctx) 0 (take sz data)\<rparr>)"

definition MD5_Update :: "MD5_CTX \<Rightarrow> string \<Rightarrow> MD5_CTX" where
  "MD5_Update ctx data =
     (let saved_lo = ctx_lo ctx;
          sz = length data;
          ctx = md5_count ctx (word_of_nat sz);
          used = unat (saved_lo AND 0x3f)
      in if used \<noteq> 0 then
           (let available = 64 - used
            in if sz < available then
                 ctx\<lparr>ctx_buffer := buf_write (ctx_buffer ctx) used data\<rparr>
               else
                 (let ctx = ctx\<lparr>ctx_buffer :=
                              buf_write (ctx_buffer ctx) used (take available data)\<rparr>;
                      ctx = fst (md5_body ctx (ctx_buffer ctx) 64)
                  in md5_update_blocks ctx (drop available data)))
         else md5_update_blocks ctx data)"

definition MD5_Final :: "MD5_CTX \<Rightarrow> string" where
  "MD5_Final ctx =
     (let used = unat (ctx_lo ctx AND 0x3f);
          ctx = ctx\<lparr>ctx_buffer := buf_write (ctx_buffer ctx) used [char_of (0x80::nat)]\<rparr>;
          used = used + 1;
          available = 64 - used;
          (ctx, used, available) =
            (if available < 8 then
               (let ctx = ctx\<lparr>ctx_buffer :=
                            buf_write (ctx_buffer ctx) used (replicate available NUL)\<rparr>
                in (fst (md5_body ctx (ctx_buffer ctx) 64), 0, 64))
             else (ctx, used, available));
          buf = buf_write (ctx_buffer ctx) used (replicate (available - 8) NUL);
          lo = push_bit 3 (ctx_lo ctx);
          buf = buf_write buf 56 (le32 lo @ le32 (ctx_hi ctx));
          ctx = fst (md5_body (ctx\<lparr>ctx_lo := lo, ctx_buffer := buf\<rparr>) buf 64)
      in le32 (ctx_a ctx) @ le32 (ctx_b ctx) @ le32 (ctx_c ctx) @ le32 (ctx_d ctx))"

text \<open>
  \<open>strhash64\<close>: the first eight bytes of the digest as a little-endian integer. The
  context is a local variable, so its first contents are arbitrary.
\<close>

definition strhash64_from :: "MD5_CTX \<Rightarrow> string \<Rightarrow> u64" where
  "strhash64_from ctx str =
     (let result = MD5_Final (MD5_Update (MD5_Init ctx) str)
      in horner_sum (\<lambda>c. of_char c) 256 (take 8 result))"

definition md5_ctx0 :: MD5_CTX where
  "md5_ctx0 = \<lparr>ctx_lo = 0, ctx_hi = 0, ctx_a = 0, ctx_b = 0, ctx_c = 0, ctx_d = 0,
     ctx_buffer = replicate 64 NUL\<rparr>"

definition strhash64 :: "string \<Rightarrow> u64" where
  "strhash64 str = strhash64_from md5_ctx0 str"

end
