(* ===== verification/FileSystem.thy ===== *)
theory FileSystem
  imports KVConstants
begin

text \<open>
  The file system calls the key-value server makes (\<open>stat\<close>, \<open>mkdir\<close>, \<open>fopen\<close>, \<open>open\<close>,
  \<open>fread\<close>, \<open>fwrite\<close>, \<open>write\<close>, \<open>remove\<close>, \<open>rename\<close>), as POSIX describes them: a map from
  path names to files with their bytes and the owner's permission bits, and a map from
  path names to directories with the permission to change their entries. A call fails for
  a reason the state shows (no such file, no permission); disk faults and full disks are
  not modelled. \<open>errno\<close> values are the numbers of Linux.
\<close>

record fs_file =
  fcontents :: string
  freadable :: bool
  fwritable :: bool

record fs =
  fs_files :: "string \<rightharpoonup> fs_file"
  fs_dirs :: "string \<rightharpoonup> bool"
  fs_root :: bool  \<comment> \<open>the process runs as the superuser: permission bits do not bind it\<close>

definition ENOENT :: int where "ENOENT = 2"
definition EACCES :: int where "EACCES = 13"
definition EEXIST :: int where "EEXIST = 17"

text \<open>The directory part of a path: what stands before its last slash.\<close>

definition parent_dir :: "string \<Rightarrow> string" where
  "parent_dir p =
     (let rest = dropWhile (\<lambda>c. c \<noteq> CHR ''/'') (rev p)
      in if rest = [] then ''.'' else rev (tl rest))"

definition fs_stat :: "fs \<Rightarrow> string \<Rightarrow> bool" where
  "fs_stat fs p \<longleftrightarrow> fs_files fs p \<noteq> None \<or> fs_dirs fs p \<noteq> None"

text \<open>May entries of the directory of \<open>p\<close> be made, removed and renamed?\<close>

definition dir_writable :: "fs \<Rightarrow> string \<Rightarrow> bool" where
  "dir_writable fs p =
     (case fs_dirs fs (parent_dir p) of None \<Rightarrow> False | Some w \<Rightarrow> fs_root fs \<or> w)"

definition fs_mkdir :: "fs \<Rightarrow> string \<Rightarrow> int + fs" where
  "fs_mkdir fs p =
     (if fs_stat fs p then Inl EEXIST
      else if fs_dirs fs (parent_dir p) = None then Inl ENOENT
      else if \<not> dir_writable fs p then Inl EACCES
      else Inr (fs\<lparr>fs_dirs := (fs_dirs fs)(p \<mapsto> True)\<rparr>))"

definition file_readable :: "fs \<Rightarrow> fs_file \<Rightarrow> bool" where
  "file_readable fs f \<longleftrightarrow> fs_root fs \<or> freadable f"

definition file_writable :: "fs \<Rightarrow> fs_file \<Rightarrow> bool" where
  "file_writable fs f \<longleftrightarrow> fs_root fs \<or> fwritable f"

text \<open>Opening for reading gives the bytes; \<open>None\<close> is the failed call.\<close>

definition fs_open_read :: "fs \<Rightarrow> string \<Rightarrow> string option" where
  "fs_open_read fs p =
     (case fs_files fs p of None \<Rightarrow> None
      | Some f \<Rightarrow> if file_readable fs f then Some (fcontents f) else None)"

text \<open>\<open>fopen(p, "w")\<close>: an existing file is truncated, a new one made with mode 0666.\<close>

definition fs_fopen_w :: "fs \<Rightarrow> string \<Rightarrow> fs option" where
  "fs_fopen_w fs p =
     (case fs_files fs p of
        Some f \<Rightarrow>
          if file_writable fs f
          then Some (fs\<lparr>fs_files := (fs_files fs)(p \<mapsto> f\<lparr>fcontents := []\<rparr>)\<rparr>) else None
      | None \<Rightarrow>
          if dir_writable fs p \<and> fs_dirs fs p = None
          then Some (fs\<lparr>fs_files := (fs_files fs)(p \<mapsto>
                 \<lparr>fcontents = [], freadable = True, fwritable = True\<rparr>)\<rparr>) else None)"

text \<open>\<open>open(p, O_WRONLY | O_CREAT, S_IRUSR)\<close>: nothing is truncated; a new file is read-only.\<close>

definition fs_open_creat_rusr :: "fs \<Rightarrow> string \<Rightarrow> fs option" where
  "fs_open_creat_rusr fs p =
     (case fs_files fs p of
        Some f \<Rightarrow> if file_writable fs f then Some fs else None
      | None \<Rightarrow>
          if dir_writable fs p \<and> fs_dirs fs p = None
          then Some (fs\<lparr>fs_files := (fs_files fs)(p \<mapsto>
                 \<lparr>fcontents = [], freadable = True, fwritable = False\<rparr>)\<rparr>) else None)"

text \<open>Writing at offset 0 of an open file.\<close>

definition fs_write :: "fs \<Rightarrow> string \<Rightarrow> string \<Rightarrow> fs" where
  "fs_write fs p bytes =
     (case fs_files fs p of None \<Rightarrow> fs
      | Some f \<Rightarrow> fs\<lparr>fs_files := (fs_files fs)(p \<mapsto>
          f\<lparr>fcontents := bytes @ drop (length bytes) (fcontents f)\<rparr>)\<rparr>)"

definition fs_remove :: "fs \<Rightarrow> string \<Rightarrow> int + fs" where
  "fs_remove fs p =
     (if fs_files fs p = None then Inl ENOENT
      else if \<not> dir_writable fs p then Inl EACCES
      else Inr (fs\<lparr>fs_files := (fs_files fs)(p := None)\<rparr>))"

text \<open>\<open>rename(old, new)\<close> replaces an existing \<open>new\<close>.\<close>

definition fs_rename :: "fs \<Rightarrow> string \<Rightarrow> string \<Rightarrow> int + fs" where
  "fs_rename fs old new =
     (case fs_files fs old of None \<Rightarrow> Inl ENOENT
      | Some f \<Rightarrow>
          if \<not> dir_writable fs old \<or> \<not> dir_writable fs new then Inl EACCES
          else Inr (fs\<lparr>fs_files := ((fs_files fs)(old := None))(new \<mapsto> f)\<rparr>))"

subsection \<open>Names of entries of a directory\<close>

text \<open>\<open>sprintf(filename, "%s/%s", dirname, base)\<close>.\<close>

definition in_dir :: "string \<Rightarrow> string \<Rightarrow> string" where
  "in_dir d base = d @ CHR ''/'' # base"

lemma parent_in_dir [simp, path_simps]:
  assumes "CHR ''/'' \<notin> set base"
  shows "parent_dir (in_dir d base) = d"
proof -
  have "dropWhile (\<lambda>c. c \<noteq> CHR ''/'') (rev base @ CHR ''/'' # rev d) = CHR ''/'' # rev d"
    using assms by (subst dropWhile_append2) auto
  then show ?thesis by (simp add: parent_dir_def in_dir_def)
qed

lemma in_dir_inject [simp, path_simps]: "in_dir d a = in_dir d b \<longleftrightarrow> a = b"
  by (simp add: in_dir_def)

lemma in_dir_neq [simp, path_simps]: "in_dir d a \<noteq> d"
  by (simp add: in_dir_def)

subsection \<open>What the calls do\<close>

lemma fs_dirs_write [simp]: "fs_dirs (fs_write fs p b) = fs_dirs fs"
  by (simp add: fs_write_def split: option.split)

lemma fs_root_write [simp]: "fs_root (fs_write fs p b) = fs_root fs"
  by (simp add: fs_write_def split: option.split)

lemma fs_files_write_other [simp]: "q \<noteq> p \<Longrightarrow> fs_files (fs_write fs p b) q = fs_files fs q"
  by (simp add: fs_write_def split: option.split)

text \<open>Opening for writing and writing the whole content, as the store does.\<close>

definition written_file :: "fs \<Rightarrow> string \<Rightarrow> string \<Rightarrow> fs_file" where
  "written_file fs p b =
     (case fs_files fs p of Some f \<Rightarrow> f\<lparr>fcontents := b\<rparr>
      | None \<Rightarrow> \<lparr>fcontents = b, freadable = True, fwritable = True\<rparr>)"

lemma fopen_w_write:
  "fs_fopen_w fs p = Some fs1 \<Longrightarrow>
   fs_write fs1 p b = fs\<lparr>fs_files := (fs_files fs)(p \<mapsto> written_file fs p b)\<rparr>"
  by (auto simp: fs_fopen_w_def fs_write_def written_file_def split: option.splits if_splits)

lemma fcontents_written_file [simp]: "fcontents (written_file fs p b) = b"
  by (simp add: written_file_def split: option.split)

lemma fopen_w_existing:
  "fs_files fs p = Some f \<Longrightarrow> file_writable fs f \<Longrightarrow> fs_fopen_w fs p \<noteq> None"
  by (simp add: fs_fopen_w_def)

lemma fopen_w_new:
  "\<lbrakk>fs_files fs p = None; fs_dirs fs p = None; dir_writable fs p\<rbrakk> \<Longrightarrow> fs_fopen_w fs p \<noteq> None"
  by (simp add: fs_fopen_w_def)

lemma dir_writable_cong:
  "\<lbrakk>fs_dirs fs' = fs_dirs fs; fs_root fs' = fs_root fs\<rbrakk> \<Longrightarrow> dir_writable fs' p = dir_writable fs p"
  by (simp add: dir_writable_def split: option.split)

lemma file_perm_files_upd [simp]:
  "file_readable (fs\<lparr>fs_files := m\<rparr>) f = file_readable fs f"
  "file_writable (fs\<lparr>fs_files := m\<rparr>) f = file_writable fs f"
  by (simp_all add: file_readable_def file_writable_def)

lemma dir_writable_files_upd [simp]: "dir_writable (fs\<lparr>fs_files := m\<rparr>) p = dir_writable fs p"
  by (simp add: dir_writable_def split: option.split)

end
