(* ===== verification/KVStore.thy ===== *)
theory KVStore
  imports MD5 FileSystem "HOL-Library.Multiset"
begin

text \<open>
  The persistent key-value store of hw4/src/kvstore.c. An entry is a file
  \<open>DIR/HASH-POS.entry\<close> that holds a \<open>kventry_t\<close>: the length of the data, then key and value
  as two terminated strings. Entries whose keys have the same hash form a chain of
  consecutive positions. \<open>fs\<close> is the state the operations change; the lock of the store
  makes each of them one step.

  The invariant \<open>kv_rel fs dir m\<close> says that every chain of the directory is complete, is
  made of readable, well-formed files, holds no key twice, and together they store the
  map \<open>m\<close>. The operations are shown to act on \<open>m\<close> as lookup, update and deletion.
\<close>

record kvstore_t =
  store_dirname :: string

subsection \<open>Files of the store\<close>

definition KVSTORE_FILETYPE :: string where "KVSTORE_FILETYPE = ''.entry''"

text \<open>
  \<open>sprintf(filename, "%s/%lu-%u.entry", dirname, hashval, counter)\<close>. The buffer of
  \<open>MAX_FILENAME\<close> bytes is not tested by the code nor here: names of directories are taken to have
  at most 985 bytes, with which all paths fit (\<open>entry_path_fits\<close> in the root theory). The
  counters of the code, \<open>unsigned\<close> here and \<open>int\<close> there, are numbers: a chain is taken to have
  fewer than 2^31 files.
\<close>

definition entry_path :: "string \<Rightarrow> u64 \<Rightarrow> nat \<Rightarrow> string" where
  "entry_path d hashval counter =
     in_dir d (dec (unat hashval) @ CHR ''-'' # dec counter @ KVSTORE_FILETYPE)"

text \<open>
  A \<open>kventry_t\<close> as \<open>fwrite\<close> dumps it, and what \<open>find_entry\<close> makes of a file: \<open>None\<close> when
  the header or the data it uses would be uninitialised memory, or the length it finds
  makes \<open>malloc\<close> fail.
\<close>

definition kventry_bytes :: "string \<Rightarrow> string \<Rightarrow> string" where
  "kventry_bytes key value =
     le32 (word_of_nat (length key + length value + 2)) @ key @ NUL # value @ [NUL]"

definition kventry_data :: "string \<Rightarrow> string option" where
  "kventry_data bytes =
     do { len \<leftarrow> rd32 bytes;
          if sint len < 0 then None else Some (take (nat (sint len)) (drop 4 bytes)) }"

subsection \<open>Operations\<close>

definition kvstore_init :: "fs \<Rightarrow> kvstore_t \<Rightarrow> string \<Rightarrow> int \<times> fs \<times> kvstore_t" where
  "kvstore_init fs store dirname =
     (if fs_stat fs dirname then (0, fs, store\<lparr>store_dirname := dirname\<rparr>)
      else case fs_mkdir fs dirname of
             Inl errno \<Rightarrow> (errno, fs, store)
           | Inr fs' \<Rightarrow> (0, fs', store\<lparr>store_dirname := dirname\<rparr>))"

text \<open>The loop of \<open>find_entry\<close>; \<open>want\<close> is \<open>value != NULL\<close>.\<close>

partial_function (option) find_entry_loop ::
  "fs \<Rightarrow> string \<Rightarrow> u64 \<Rightarrow> string \<Rightarrow> bool \<Rightarrow> nat \<Rightarrow> (int \<times> string option) option" where
  "find_entry_loop fs d hashval key want counter =
     (if \<not> fs_stat fs (entry_path d hashval counter) then Some (ERRNOKEY, None)
      else case fs_open_read fs (entry_path d hashval counter) of
             None \<Rightarrow> Some (ERRFILACCESS, None)
           | Some bytes \<Rightarrow>
               do { data \<leftarrow> kventry_data bytes;
                    ekey \<leftarrow> c_string data;
                    if key = ekey then
                      (if want then
                         do { value \<leftarrow> c_string (drop (length ekey + 1) data);
                              Some (int counter, Some value) }
                       else Some (int counter, None))
                    else find_entry_loop fs d hashval key want (counter + 1) })"

definition find_entry ::
  "fs \<Rightarrow> kvstore_t \<Rightarrow> string \<Rightarrow> bool \<Rightarrow> (int \<times> string option) option" where
  "find_entry fs store key want =
     (if MAX_KEYLEN < length key then Some (ERRKEYLEN, None)
      else if \<not> fs_stat fs (store_dirname store) then Some (ERRFILACCESS, None)
      else find_entry_loop fs (store_dirname store) (strhash64 key) key want 0)"

definition kvstore_haskey :: "fs \<Rightarrow> kvstore_t \<Rightarrow> string \<Rightarrow> bool option" where
  "kvstore_haskey fs store key =
     do { (ret, _) \<leftarrow> find_entry fs store key False; Some (0 \<le> ret) }"

definition kvstore_get :: "fs \<Rightarrow> kvstore_t \<Rightarrow> string \<Rightarrow> (int \<times> string option) option" where
  "kvstore_get fs store key =
     do { (ret, value) \<leftarrow> find_entry fs store key True;
          Some (if ret < 0 then (ret, value) else (0, value)) }"

definition kvstore_put_check :: "fs \<Rightarrow> kvstore_t \<Rightarrow> string \<Rightarrow> string \<Rightarrow> int" where
  "kvstore_put_check fs store key value =
     (if MAX_KEYLEN < length key then ERRKEYLEN
      else if MAX_VALLEN < length value then ERRVALLEN
      else if \<not> fs_stat fs (store_dirname store) then ERRFILACCESS
      else 0)"

text \<open>The search for the end of a chain, in \<open>kvstore_put\<close> and \<open>kvstore_del\<close>.\<close>

partial_function (option) chain_end :: "fs \<Rightarrow> string \<Rightarrow> u64 \<Rightarrow> nat \<Rightarrow> nat option" where
  "chain_end fs d hashval counter =
     (if fs_stat fs (entry_path d hashval counter) then chain_end fs d hashval (counter + 1)
      else Some counter)"

text \<open>The part of \<open>kvstore_put\<close> that holds the write lock; \<open>counter\<close> is what \<open>find_entry\<close> said.\<close>

definition kvstore_put_locked ::
  "fs \<Rightarrow> kvstore_t \<Rightarrow> string \<Rightarrow> string \<Rightarrow> int \<Rightarrow> (int \<times> fs) option" where
  "kvstore_put_locked fs store key value counter =
     do { pos \<leftarrow> (if 0 \<le> counter then Some (nat counter)
                 else chain_end fs (store_dirname store) (strhash64 key) 0);
          let filename = entry_path (store_dirname store) (strhash64 key) pos;
          case fs_fopen_w fs filename of
            None \<Rightarrow> Some (ERRFILACCESS, fs)
          | Some fs' \<Rightarrow> Some (0, fs_write fs' filename (kventry_bytes key value)) }"

definition kvstore_put :: "fs \<Rightarrow> kvstore_t \<Rightarrow> string \<Rightarrow> string \<Rightarrow> (int \<times> fs) option" where
  "kvstore_put fs store key value =
     (let check = kvstore_put_check fs store key value
      in if check < 0 then Some (check, fs)
         else do { (counter, _) \<leftarrow> find_entry fs store key False;
                   kvstore_put_locked fs store key value counter })"

definition kvstore_del_check :: "fs \<Rightarrow> kvstore_t \<Rightarrow> string \<Rightarrow> int option" where
  "kvstore_del_check fs store key =
     (if MAX_KEYLEN < length key then Some ERRKEYLEN
      else if \<not> fs_stat fs (store_dirname store) then Some ERRFILACCESS
      else do { has \<leftarrow> kvstore_haskey fs store key;
                Some (if has then 0 else ERRNOKEY) })"

definition kvstore_del :: "fs \<Rightarrow> kvstore_t \<Rightarrow> string \<Rightarrow> (int \<times> fs) option" where
  "kvstore_del fs store key =
     do { (chainpos, _) \<leftarrow> find_entry fs store key False;
          if chainpos < 0 then Some (chainpos, fs)
          else do {
            let d = store_dirname store;
            let hashval = strhash64 key;
            let delfile = entry_path d hashval (nat chainpos);
            counter \<leftarrow> chain_end fs d hashval (nat chainpos + 1);
            case (if counter = nat chainpos + 1 then fs_remove fs delfile
                  else fs_rename fs (entry_path d hashval (counter - 1)) delfile) of
              Inl errno \<Rightarrow> Some (errno, fs)
            | Inr fs' \<Rightarrow> Some (0, fs') } }"

text \<open>
  \<open>kvstore_clean\<close>: \<open>dents\<close> are the names \<open>readdir\<close> returns for the directory. Failures of
  \<open>remove\<close> are ignored; the last one removes the directory when it has become empty.
\<close>

definition remove_ignored :: "fs \<Rightarrow> string \<Rightarrow> fs" where
  "remove_ignored fs p = (case fs_remove fs p of Inl _ \<Rightarrow> fs | Inr fs' \<Rightarrow> fs')"

definition kvstore_clean :: "fs \<Rightarrow> kvstore_t \<Rightarrow> string list \<Rightarrow> int \<times> fs" where
  "kvstore_clean fs store dents =
     (let d = store_dirname store in
      if fs_dirs fs d = None then (0, fs)
      else let fs = foldl remove_ignored fs (map (in_dir d) dents)
           in if list_ex (\<lambda>n. n \<noteq> ''.'' \<and> n \<noteq> ''..'' \<and> fs_stat fs (in_dir d n)) dents
                 \<or> \<not> dir_writable fs d
              then (0, fs)
              else (0, fs\<lparr>fs_dirs := (fs_dirs fs)(d := None)\<rparr>))"


subsection \<open>Names\<close>

lemma unat_inject [simp]: "unat (a :: 'a :: len word) = unat b \<longleftrightarrow> a = b"
  by (rule word_unat_eq_iff [symmetric])

lemma entry_path_inject [simp, path_simps]:
  "entry_path d h i = entry_path d h' j \<longleftrightarrow> h = h' \<and> i = j"
proof
  assume "entry_path d h i = entry_path d h' j"
  then have eq: "dec (unat h) @ CHR ''-'' # (dec i @ KVSTORE_FILETYPE)
       = dec (unat h') @ CHR ''-'' # (dec j @ KVSTORE_FILETYPE)"
    by (simp add: entry_path_def)
  have "dec (unat h) = dec (unat h') \<and> CHR ''-'' = CHR ''-''
      \<and> dec i @ KVSTORE_FILETYPE = dec j @ KVSTORE_FILETYPE"
    by (rule digits_prefix_unique [OF dec_digits dec_digits _ _ eq]) simp_all
  then show "h = h' \<and> i = j" by simp
qed simp

lemma parent_entry_path [simp, path_simps]: "parent_dir (entry_path d h i) = d"
  by (simp add: entry_path_def KVSTORE_FILETYPE_def)

lemma entry_path_neq_dir [simp, path_simps]: "entry_path d h i \<noteq> d"
  by (simp add: entry_path_def)

text \<open>A 64-bit hash and an \<open>unsigned int\<close> position leave room in a buffer of \<open>MAX_FILENAME\<close> bytes.\<close>

lemma length_entry_path:
  assumes "i < 2 ^ 32"
  shows "length (entry_path d h i) \<le> length d + 38"
proof -
  have "unat h < 10 ^ 20" using unsigned_less [of h, where 'a = nat] by simp
  then have "length (dec (unat h)) \<le> 20" by (rule length_dec_le) simp
  moreover have "length (dec i) \<le> 10" using assms by (intro length_dec_le) simp_all
  ultimately show ?thesis
    by (simp add: entry_path_def in_dir_def KVSTORE_FILETYPE_def)
qed

subsection \<open>Entries\<close>

definition entry_ok :: "string \<Rightarrow> string \<Rightarrow> bool" where
  "entry_ok key value \<longleftrightarrow>
     cstr key \<and> cstr value \<and> length key \<le> MAX_KEYLEN \<and> length value \<le> MAX_VALLEN"

lemma kventry_data_bytes [simp]:
  assumes "entry_ok k v"
  shows "kventry_data (kventry_bytes k v) = Some (k @ NUL # v @ [NUL])"
proof -
  have "length k + length v + 2 < 2 ^ 31"
    using assms by (simp add: entry_ok_def MAX_KEYLEN_def MAX_VALLEN_def)
  then have "sint (word_of_nat (length k + length v + 2) :: 32 word)
      = int (length k + length v + 2)" (is "sint ?w = _")
    by (rule sint_of_small_nat)
  then have len: "sint ?w = int (length k + length v + 2)" and pos: "\<not> sint ?w < 0"
    by simp_all
  have "nat (sint ?w) = length (k @ NUL # v @ [NUL])"
    using len by simp
  then show ?thesis
    using pos by (simp only: kventry_data_def kventry_bytes_def rd32_le32 bind.bind_lunit if_False)
       (simp add: Let_def)
qed

lemma kventry_bytes_inject:
  assumes "entry_ok k v" "entry_ok k' v'" "kventry_bytes k v = kventry_bytes k' v'"
  shows "k = k' \<and> v = v'"
proof -
  have "Some (k @ NUL # v @ [NUL]) = Some (k' @ NUL # v' @ [NUL])"
    using assms kventry_data_bytes by metis
  then have eq: "k @ NUL # v @ [NUL] = k' @ NUL # v' @ [NUL]" by simp
  have "c_string (k @ NUL # v @ [NUL]) = c_string (k' @ NUL # v' @ [NUL])"
    using eq by (rule arg_cong)
  then have "k = k'" using assms(1,2) by (simp add: entry_ok_def)
  with eq show ?thesis by simp
qed

subsection \<open>Chains\<close>

definition file_holds :: "fs \<Rightarrow> fs_file option \<Rightarrow> string \<times> string \<Rightarrow> bool" where
  "file_holds fs fo e =
     (case fo of None \<Rightarrow> False
      | Some f \<Rightarrow> fcontents f = kventry_bytes (fst e) (snd e)
                  \<and> file_readable fs f \<and> file_writable fs f)"

lemma file_holds_None [simp]: "\<not> file_holds fs None e"
  by (simp add: file_holds_def)

lemma file_holds_cong: "fs_root fs' = fs_root fs \<Longrightarrow> file_holds fs' fo e = file_holds fs fo e"
  by (simp add: file_holds_def file_readable_def file_writable_def split: option.split)

lemma file_holds_upd [simp]: "file_holds (fs\<lparr>fs_files := m\<rparr>) fo e = file_holds fs fo e"
  by (rule file_holds_cong) simp

definition chain :: "fs \<Rightarrow> string \<Rightarrow> u64 \<Rightarrow> (string \<times> string) list \<Rightarrow> bool" where
  "chain fs d h es \<longleftrightarrow>
     (\<forall>i < length es. file_holds fs (fs_files fs (entry_path d h i)) (es ! i))
     \<and> (\<forall>i \<ge> length es. fs_files fs (entry_path d h i) = None)
     \<and> (\<forall>i. fs_dirs fs (entry_path d h i) = None)
     \<and> distinct (map fst es)
     \<and> (\<forall>e \<in> set es. strhash64 (fst e) = h \<and> entry_ok (fst e) (snd e))"

definition kv_rel :: "fs \<Rightarrow> string \<Rightarrow> (string \<rightharpoonup> string) \<Rightarrow> bool" where
  "kv_rel fs d m \<longleftrightarrow>
     (\<exists>w. fs_dirs fs d = Some w \<and> (fs_root fs \<or> w))
     \<and> (\<forall>h. \<exists>es. chain fs d h es \<and> (\<forall>k. strhash64 k = h \<longrightarrow> m k = map_of es k))"

lemma chain_stat:
  "chain fs d h es \<Longrightarrow> fs_stat fs (entry_path d h i) \<longleftrightarrow> i < length es"
  by (cases "i < length es") (auto simp: chain_def fs_stat_def file_holds_def split: option.splits)

lemma chain_read:
  "\<lbrakk>chain fs d h es; i < length es\<rbrakk> \<Longrightarrow>
   fs_open_read fs (entry_path d h i) = Some (kventry_bytes (fst (es ! i)) (snd (es ! i)))"
  by (auto simp: chain_def fs_open_read_def file_holds_def split: option.splits)

lemma chain_entry_ok:
  "\<lbrakk>chain fs d h es; i < length es\<rbrakk> \<Longrightarrow> entry_ok (fst (es ! i)) (snd (es ! i))"
  by (simp add: chain_def)

lemma chain_unique:
  assumes "chain fs d h es" "chain fs d h es'"
  shows "es = es'"
proof (rule nth_equalityI)
  have iff: "i < length es \<longleftrightarrow> i < length es'" for i
    using chain_stat assms by blast
  show len: "length es = length es'"
    using iff [of "length es"] iff [of "length es'"] by simp
  fix i assume "i < length es"
  then have "kventry_bytes (fst (es ! i)) (snd (es ! i))
      = kventry_bytes (fst (es' ! i)) (snd (es' ! i))"
    using chain_read assms len by (metis option.inject)
  then show "es ! i = es' ! i"
    using kventry_bytes_inject chain_entry_ok assms \<open>i < length es\<close> len
    by (metis prod.collapse)
qed

lemma chain_end_chain:
  assumes "chain fs d h es" "c \<le> length es"
  shows "chain_end fs d h c = Some (length es)"
  using assms(2)
proof (induction "length es - c" arbitrary: c)
  case 0
  then show ?case
    using chain_stat [OF assms(1)] by (subst chain_end.simps) simp
next
  case (Suc n)
  then have "chain_end fs d h (c + 1) = Some (length es)"
    by (intro Suc.hyps) simp_all
  then show ?case
    using Suc chain_stat [OF assms(1)] by (subst chain_end.simps) simp
qed

text \<open>Where a key stands in a chain.\<close>

definition key_pos :: "string \<Rightarrow> (string \<times> string) list \<Rightarrow> nat \<Rightarrow> bool" where
  "key_pos k es i \<longleftrightarrow> i < length es \<and> fst (es ! i) = k"

lemma key_pos_map_of:
  "distinct (map fst es) \<Longrightarrow> key_pos k es i \<Longrightarrow> map_of es k = Some (snd (es ! i))"
  by (metis key_pos_def map_of_eq_Some_iff nth_mem prod.collapse)

lemma map_of_None_key_pos: "map_of es k = None \<longleftrightarrow> (\<forall>i. \<not> key_pos k es i)"
  unfolding key_pos_def map_of_eq_None_iff set_conv_nth [of es] by force

lemma map_of_Some_key_pos:
  assumes "map_of es k = Some v"
  obtains i where "key_pos k es i" "snd (es ! i) = v"
  using map_of_SomeD [OF assms] by (fastforce simp: key_pos_def in_set_conv_nth)

lemma find_entry_step:
  assumes "chain fs d h es" "c < length es"
  shows "find_entry_loop fs d h key want c =
     (if key = fst (es ! c) then Some (int c, if want then Some (snd (es ! c)) else None)
      else find_entry_loop fs d h key want (c + 1))"
proof -
  let ?k = "fst (es ! c)" and ?v = "snd (es ! c)"
  have ok: "entry_ok ?k ?v" using assms by (rule chain_entry_ok)
  have "fs_stat fs (entry_path d h c)" using assms chain_stat by simp
  then show ?thesis
    using ok chain_read [OF assms]
    by (subst find_entry_loop.simps) (simp add: entry_ok_def)
qed

lemma find_entry_hit:
  assumes "chain fs d h es" "key_pos key es i" "c \<le> i"
  shows "find_entry_loop fs d h key want c
     = Some (int i, if want then Some (snd (es ! i)) else None)"
  using assms(3)
proof (induction "i - c" arbitrary: c)
  case 0
  then show ?case
    using assms by (simp add: find_entry_step key_pos_def)
next
  case (Suc n)
  then have c: "c < i" "c < length es" using assms(2) by (auto simp: key_pos_def)
  have "fst (es ! c) \<noteq> key"
    using assms c nth_eq_iff_index_eq [of "map fst es" c i] by (auto simp: chain_def key_pos_def)
  moreover have "find_entry_loop fs d h key want (c + 1)
      = Some (int i, if want then Some (snd (es ! i)) else None)"
    using Suc by (intro Suc.hyps) simp_all
  ultimately show ?case
    using find_entry_step [OF assms(1) c(2)] by metis
qed

lemma find_entry_miss:
  assumes "chain fs d h es" "\<forall>i. \<not> key_pos key es i" "c \<le> length es"
  shows "find_entry_loop fs d h key want c = Some (ERRNOKEY, None)"
  using assms(3)
proof (induction "length es - c" arbitrary: c)
  case 0
  then show ?case
    using chain_stat [OF assms(1)] by (subst find_entry_loop.simps) simp
next
  case (Suc n)
  then have c: "c < length es" by simp
  have "find_entry_loop fs d h key want (c + 1) = Some (ERRNOKEY, None)"
    using Suc by (intro Suc.hyps) simp_all
  moreover have "key \<noteq> fst (es ! c)" using assms(2) c by (auto simp: key_pos_def)
  ultimately show ?case
    using find_entry_step [OF assms(1) c] by simp
qed

subsection \<open>Changing one file of a chain\<close>

definition store_frame :: "string \<Rightarrow> fs \<Rightarrow> fs \<Rightarrow> bool" where
  "store_frame d fs fs' \<longleftrightarrow>
     fs_dirs fs' = fs_dirs fs \<and> fs_root fs' = fs_root fs
     \<and> (\<forall>p. (\<forall>h i. p \<noteq> entry_path d h i) \<longrightarrow> fs_files fs' p = fs_files fs p)"

lemma store_frame_refl [simp]: "store_frame d fs fs"
  by (simp add: store_frame_def)

lemma store_frame_trans: "store_frame d a b \<Longrightarrow> store_frame d b c \<Longrightarrow> store_frame d a c"
  by (simp add: store_frame_def)

lemma chain_cong:
  assumes "\<And>i. fs_files fs' (entry_path d h i) = fs_files fs (entry_path d h i)"
    and "fs_dirs fs' = fs_dirs fs" "fs_root fs' = fs_root fs"
  shows "chain fs' d h es = chain fs d h es"
  using assms by (simp add: chain_def file_holds_cong [OF assms(3)])

lemma chain_write:
  assumes "chain fs d h es" "i \<le> length es" "entry_ok k v" "strhash64 k = h"
    and "i < length es \<longrightarrow> fst (es ! i) = k" "i = length es \<longrightarrow> k \<notin> fst ` set es"
    and "fcontents f = kventry_bytes k v" "file_readable fs f" "file_writable fs f"
  shows "chain (fs\<lparr>fs_files := (fs_files fs)(entry_path d h i \<mapsto> f)\<rparr>) d h
           (if i < length es then es[i := (k, v)] else es @ [(k, v)])"
proof (cases "i < length es")
  case True
  have keys: "map fst (es[i := (k, v)]) = map fst es"
    using assms(5) True by (simp add: map_update list_update_same_conv)
  have elems: "\<forall>e \<in> set (es[i := (k, v)]). strhash64 (fst e) = h \<and> entry_ok (fst e) (snd e)"
    using assms(1,3,4) set_update_subset_insert [of es i "(k, v)"] by (auto simp: chain_def)
  have files: "file_holds fs (((fs_files fs)(entry_path d h i \<mapsto> f)) (entry_path d h j))
      (es[i := (k, v)] ! j)" if "j < length es" for j
    using assms(1,7-9) that by (cases "j = i") (simp_all add: chain_def file_holds_def)
  show ?thesis
    using assms(1) True keys elems files by (simp add: chain_def del: fun_upd_apply) simp
next
  case False
  with assms(2) have i: "i = length es" by simp
  have files: "file_holds fs (((fs_files fs)(entry_path d h i \<mapsto> f)) (entry_path d h j))
      ((es @ [(k, v)]) ! j)" if "j < Suc (length es)" for j
    using assms(1,7-9) that i
    by (cases "j = i") (simp_all add: chain_def file_holds_def nth_append)
  show ?thesis
    using assms(1,3,4,6) i files by (simp add: chain_def del: fun_upd_apply) auto
qed


subsection \<open>The operations act on the abstract map\<close>

lemma kv_rel_stat: "kv_rel fs d m \<Longrightarrow> fs_stat fs d"
  by (auto simp: kv_rel_def fs_stat_def)

lemma kv_relE:
  assumes "kv_rel fs d m"
  obtains es where "chain fs d (strhash64 k) es" "m k = map_of es k"
  using assms by (auto simp: kv_rel_def)

lemma find_entry_unfold:
  assumes "kv_rel fs (store_dirname store) m" "length key \<le> MAX_KEYLEN"
  shows "find_entry fs store key want
     = find_entry_loop fs (store_dirname store) (strhash64 key) key want 0"
  using assms kv_rel_stat by (simp add: find_entry_def)

lemma find_entry_absent:
  assumes "kv_rel fs (store_dirname store) m" "length key \<le> MAX_KEYLEN" "m key = None"
  shows "\<exists>es. chain fs (store_dirname store) (strhash64 key) es \<and> (\<forall>i. \<not> key_pos key es i)
     \<and> (\<forall>want. find_entry fs store key want = Some (ERRNOKEY, None))"
proof -
  obtain es where es: "chain fs (store_dirname store) (strhash64 key) es" "m key = map_of es key"
    using assms(1) by (rule kv_relE)
  then have "\<forall>i. \<not> key_pos key es i" using assms(3) map_of_None_key_pos by metis
  then show ?thesis
    using es find_entry_miss [OF es(1), of key 0] find_entry_unfold [OF assms(1,2)] by auto
qed

lemma find_entry_present:
  assumes "kv_rel fs (store_dirname store) m" "length key \<le> MAX_KEYLEN" "m key = Some v"
  shows "\<exists>es i. chain fs (store_dirname store) (strhash64 key) es \<and> key_pos key es i
     \<and> snd (es ! i) = v
     \<and> (\<forall>want. find_entry fs store key want = Some (int i, if want then Some v else None))"
proof -
  obtain es where es: "chain fs (store_dirname store) (strhash64 key) es" "m key = map_of es key"
    using assms(1) by (rule kv_relE)
  then obtain i where i: "key_pos key es i" "snd (es ! i) = v"
    using assms(3) map_of_Some_key_pos by metis
  have "find_entry fs store key want = Some (int i, if want then Some v else None)" for want
    using find_entry_hit [OF es(1) i(1), of 0 want] i(2) find_entry_unfold [OF assms(1,2)] by simp
  with es(1) i show ?thesis by blast
qed

lemma kvstore_get_spec:
  assumes "kv_rel fs (store_dirname store) m"
  shows "kvstore_get fs store key = Some
     (if MAX_KEYLEN < length key then (ERRKEYLEN, None)
      else case m key of None \<Rightarrow> (ERRNOKEY, None) | Some v \<Rightarrow> (0, Some v))"
proof (cases "MAX_KEYLEN < length key")
  case True
  then show ?thesis by (simp add: kvstore_get_def find_entry_def error_codes)
next
  case False
  then show ?thesis
    using find_entry_absent [OF assms, of key] find_entry_present [OF assms, of key]
    by (cases "m key") (auto simp: kvstore_get_def error_codes)
qed

lemma kvstore_haskey_spec:
  assumes "kv_rel fs (store_dirname store) m" "length key \<le> MAX_KEYLEN"
  shows "kvstore_haskey fs store key = Some (m key \<noteq> None)"
  using find_entry_absent [OF assms] find_entry_present [OF assms]
  by (cases "m key") (auto simp: kvstore_haskey_def error_codes)

text \<open>One written file changes one chain and so one key of the map.\<close>

lemma kv_rel_write:
  assumes rel: "kv_rel fs d m"
    and ch: "chain fs d (strhash64 k) es" and i: "i \<le> length es" and ok: "entry_ok k v"
    and hit: "i < length es \<longrightarrow> fst (es ! i) = k" and miss: "i = length es \<longrightarrow> k \<notin> fst ` set es"
    and f: "fcontents f = kventry_bytes k v" "file_readable fs f" "file_writable fs f"
  shows "kv_rel (fs\<lparr>fs_files := (fs_files fs)(entry_path d (strhash64 k) i \<mapsto> f)\<rparr>) d (m(k \<mapsto> v))"
proof -
  let ?fs = "fs\<lparr>fs_files := (fs_files fs)(entry_path d (strhash64 k) i \<mapsto> f)\<rparr>"
  let ?es = "if i < length es then es[i := (k, v)] else es @ [(k, v)]"
  have new: "chain ?fs d (strhash64 k) ?es"
    using ch i ok hit miss f by (intro chain_write) auto
  have map_new: "map_of ?es k' = (if k' = k then Some v else map_of es k')" for k'
  proof (cases "i < length es")
    case True
    have dist: "distinct (map fst es)" "distinct (map fst (es[i := (k, v)]))"
      using ch new True by (auto simp: chain_def)
    have "map_of (es[i := (k, v)]) k' = Some w \<longleftrightarrow>
        (if k' = k then Some v else map_of es k') = Some w" for w
    proof (cases "k' = k")
      case True
      have "(k, v) \<in> set (es[i := (k, v)])" using \<open>i < length es\<close> by (rule set_update_memI)
      then show ?thesis using True dist(2) map_of_is_SomeI by fastforce
    next
      case False
      have "(k', w) \<in> set (es[i := (k, v)]) \<longleftrightarrow> (k', w) \<in> set es"
        using False hit \<open>i < length es\<close>
        by (smt (verit) fst_conv in_set_conv_nth length_list_update nth_list_update)
      then show ?thesis using False dist by (simp add: map_of_eq_Some_iff)
    qed
    then show ?thesis using True by (metis (mono_tags, lifting) option.exhaust)
  next
    case False
    then have "k \<notin> fst ` set es" using i miss by simp
    then show ?thesis using False
      by (auto simp: map_add_def map_of_eq_None_iff[symmetric] split: option.splits)
  qed
  have "\<exists>es'. chain ?fs d h es' \<and> (\<forall>k'. strhash64 k' = h \<longrightarrow> (m(k \<mapsto> v)) k' = map_of es' k')" for h
  proof (cases "h = strhash64 k")
    case True
    have "m k' = map_of es k'" if "strhash64 k' = h" for k'
      using rel ch chain_unique True that unfolding kv_rel_def by metis
    then show ?thesis using new map_new True by auto
  next
    case False
    from rel obtain es' where "chain fs d h es'" "\<forall>k'. strhash64 k' = h \<longrightarrow> m k' = map_of es' k'"
      unfolding kv_rel_def by metis
    moreover from this False have "chain ?fs d h es'"
      by (subst chain_cong [of _ _ _ fs]) simp_all
    ultimately show ?thesis using False by auto
  qed
  then show ?thesis using rel by (simp add: kv_rel_def)
qed

lemma kv_rel_dir_writable: "kv_rel fs d m \<Longrightarrow> dir_writable fs (entry_path d h i)"
  by (auto simp: kv_rel_def dir_writable_def)

lemma kvstore_put_spec:
  assumes rel: "kv_rel fs (store_dirname store) m" and ok: "entry_ok k v"
  shows "\<exists>fs'. kvstore_put fs store k v = Some (0, fs')
     \<and> kv_rel fs' (store_dirname store) (m(k \<mapsto> v)) \<and> store_frame (store_dirname store) fs fs'"
proof -
  let ?d = "store_dirname store" and ?h = "strhash64 k"
  have len: "length k \<le> MAX_KEYLEN" "length v \<le> MAX_VALLEN" using ok by (simp_all add: entry_ok_def)
  have "\<exists>es i c. chain fs ?d ?h es \<and> find_entry fs store k False = Some (c, None)
      \<and> i \<le> length es \<and> (i < length es \<longrightarrow> fst (es ! i) = k) \<and> (i = length es \<longrightarrow> k \<notin> fst ` set es)
      \<and> (if 0 \<le> c then Some (nat c) else chain_end fs ?d ?h 0) = Some i"
  proof (cases "m k")
    case None
    from find_entry_absent [OF rel len(1) None] obtain es where es: "chain fs ?d ?h es"
      "\<forall>i. \<not> key_pos k es i" "find_entry fs store k False = Some (ERRNOKEY, None)" by blast
    then have "k \<notin> fst ` set es" by (metis map_of_None_key_pos map_of_eq_None_iff)
    moreover have "(if 0 \<le> ERRNOKEY then Some (nat ERRNOKEY) else chain_end fs ?d ?h 0)
        = Some (length es)"
      using chain_end_chain [OF es(1), of 0] by (simp add: ERRNOKEY_def)
    ultimately show ?thesis using es by blast
  next
    case (Some w)
    from find_entry_present [OF rel len(1) Some] obtain es i where es: "chain fs ?d ?h es"
      "key_pos k es i" "\<forall>want. find_entry fs store k want = Some (int i, if want then Some w else None)"
      by blast
    then have "find_entry fs store k False = Some (int i, None)" "i < length es" "fst (es ! i) = k"
      by (simp_all add: key_pos_def)
    then show ?thesis using es(1) by (intro exI [of _ es] exI [of _ i] exI [of _ "int i"]) simp
  qed
  then obtain es i c where ch: "chain fs ?d ?h es" and pos: "find_entry fs store k False = Some (c, None)" "i \<le> length es"
      "i < length es \<longrightarrow> fst (es ! i) = k" "i = length es \<longrightarrow> k \<notin> fst ` set es"
      "(if 0 \<le> c then Some (nat c) else chain_end fs ?d ?h 0) = Some i"
    by blast
  let ?p = "entry_path ?d ?h i" and ?b = "kventry_bytes k v"
  have perm: "file_readable fs (written_file fs ?p ?b)" "file_writable fs (written_file fs ?p ?b)"
    and "fs_fopen_w fs ?p \<noteq> None"
  proof -
    consider f where "fs_files fs ?p = Some f" "file_holds fs (Some f) (es ! i)"
      | "fs_files fs ?p = None" "fs_dirs fs ?p = None"
      using ch pos(2) by (cases "i < length es"; cases "fs_files fs ?p") (auto simp: chain_def)
    then have "file_readable fs (written_file fs ?p ?b) \<and> file_writable fs (written_file fs ?p ?b)
        \<and> fs_fopen_w fs ?p \<noteq> None"
    proof cases
      case 1
      then show ?thesis
        by (simp add: written_file_def fs_fopen_w_def file_holds_def file_readable_def
            file_writable_def)
    next
      case 2
      then show ?thesis
        using kv_rel_dir_writable [OF rel]
        by (simp add: written_file_def fs_fopen_w_def file_readable_def file_writable_def)
    qed
    then show "file_readable fs (written_file fs ?p ?b)" "file_writable fs (written_file fs ?p ?b)"
      and "fs_fopen_w fs ?p \<noteq> None" by simp_all
  qed
  then obtain fs1 where fs1: "fs_fopen_w fs ?p = Some fs1" by blast
  let ?fs = "fs\<lparr>fs_files := (fs_files fs)(?p \<mapsto> written_file fs ?p ?b)\<rparr>"
  have "kvstore_put_check fs store k v = 0"
    using len kv_rel_stat [OF rel] by (simp add: kvstore_put_check_def)
  then have "kvstore_put fs store k v = Some (0, ?fs)"
    using pos fs1 fopen_w_write [OF fs1] by (simp add: kvstore_put_def kvstore_put_locked_def Let_def)
  moreover have "kv_rel ?fs ?d (m(k \<mapsto> v))"
    using rel ch pos ok perm by (intro kv_rel_write) auto
  moreover have "store_frame ?d fs ?fs" by (simp add: store_frame_def)
  ultimately show ?thesis by blast
qed


subsection \<open>Deletion\<close>

text \<open>The chain after the entry at \<open>i\<close> is gone: the last entry takes its place.\<close>

definition chain_del :: "nat \<Rightarrow> 'a list \<Rightarrow> 'a list" where
  "chain_del i es = (if Suc i = length es then butlast es else butlast (es[i := last es]))"

lemma length_chain_del [simp]: "length (chain_del i es) = length es - 1"
  by (simp add: chain_del_def)

lemma mset_chain_del:
  assumes "i < length es"
  shows "mset es = add_mset (es ! i) (mset (chain_del i es))"
proof -
  obtain xs e ys where es: "es = xs @ e # ys" and xs: "length xs = i"
    using id_take_nth_drop [OF assms] assms by (metis length_take min.absorb4)
  then have e: "es ! i = e" by auto
  show ?thesis
  proof (cases ys rule: rev_cases)
    case Nil
    then show ?thesis using xs e by (simp add: es chain_del_def)
  next
    case (snoc zs z)
    then have "chain_del i es = xs @ z # zs"
      using xs by (simp add: es chain_del_def list_update_append butlast_append)
    then show ?thesis using snoc e by (simp add: es)
  qed
qed

lemma nth_chain_del:
  "j < length es - 1 \<Longrightarrow> chain_del i es ! j = (if j = i then last es else es ! j)"
  by (auto simp: chain_del_def nth_butlast nth_list_update)

lemma map_of_mset_eq:
  assumes "mset xs = mset ys" "distinct (map fst xs)"
  shows "map_of xs = map_of ys \<and> distinct (map fst ys)"
proof -
  have "mset (map fst ys) = mset (map fst xs)" using assms(1) by simp
  then have dist: "distinct (map fst ys)" using assms(2) by (metis mset_eq_imp_distinct_iff)
  have "map_of xs k = Some v \<longleftrightarrow> map_of ys k = Some v" for k v
    using assms dist mset_eq_setD [OF assms(1)] by (simp add: map_of_eq_Some_iff)
  then have "map_of xs k = map_of ys k" for k by (metis option.exhaust)
  with dist show ?thesis by blast
qed

text \<open>The files of a chain when the entry at \<open>i\<close> is deleted.\<close>

definition chain_del_files :: "fs \<Rightarrow> string \<Rightarrow> u64 \<Rightarrow> nat \<Rightarrow> nat \<Rightarrow> fs" where
  "chain_del_files fs d h i n =
     (if Suc i = n then fs\<lparr>fs_files := (fs_files fs)(entry_path d h i := None)\<rparr>
      else fs\<lparr>fs_files := ((fs_files fs)(entry_path d h (n - 1) := None))
                 (entry_path d h i := fs_files fs (entry_path d h (n - 1)))\<rparr>)"

lemma chain_file:
  "\<lbrakk>chain fs d h es; i < length es\<rbrakk> \<Longrightarrow>
   \<exists>f. fs_files fs (entry_path d h i) = Some f \<and> file_holds fs (Some f) (es ! i)"
  by (cases "fs_files fs (entry_path d h i)") (auto simp: chain_def)

lemma chain_del_chain:
  assumes ch: "chain fs d h es" and i: "i < length es"
  shows "chain (chain_del_files fs d h i (length es)) d h (chain_del i es)"
proof -
  let ?fs = "chain_del_files fs d h i (length es)"
  have perm: "mset es = mset (es ! i # chain_del i es)" using mset_chain_del [OF i] by simp
  then have "distinct (map fst (es ! i # chain_del i es))"
    using map_of_mset_eq ch by (metis chain_def)
  moreover have "set (chain_del i es) \<subseteq> set es" using perm mset_eq_setD by fastforce
  moreover have "file_holds fs (fs_files ?fs (entry_path d h j)) (chain_del i es ! j)"
    if "j < length es - 1" for j
  proof -
    have "last es = es ! (length es - 1)" using i by (metis last_conv_nth list.size(3) not_less0)
    then show ?thesis
      using that ch i by (auto simp: chain_del_files_def nth_chain_del chain_def)
  qed
  moreover have "fs_files ?fs (entry_path d h j) = None" if "length es - 1 \<le> j" for j
    using that ch i by (auto simp: chain_del_files_def chain_def)
  moreover have "file_holds ?fs fo e = file_holds fs fo e" for fo e
    by (rule file_holds_cong) (simp add: chain_del_files_def)
  moreover have "fs_dirs ?fs = fs_dirs fs"
    by (simp add: chain_del_files_def)
  ultimately show ?thesis
    using ch unfolding chain_def by simp blast
qed

lemma kv_rel_del:
  assumes rel: "kv_rel fs d m" and ch: "chain fs d (strhash64 k) es" and pos: "key_pos k es i"
  shows "kv_rel (chain_del_files fs d (strhash64 k) i (length es)) d (m(k := None))"
proof -
  let ?fs = "chain_del_files fs d (strhash64 k) i (length es)"
  have i: "i < length es" "fst (es ! i) = k" using pos by (simp_all add: key_pos_def)
  have new: "chain ?fs d (strhash64 k) (chain_del i es)" using ch i(1) by (rule chain_del_chain)
  have "map_of es = map_of (es ! i # chain_del i es)
      \<and> distinct (map fst (es ! i # chain_del i es))"
    using map_of_mset_eq mset_chain_del [OF i(1)] ch by (metis chain_def mset.simps(2))
  then have del: "map_of (chain_del i es) k' = (if k' = k then None else map_of es k')" for k'
    using i(2) by (auto simp: map_of_eq_None_iff)
  have same: "fs_files ?fs (entry_path d h j) = fs_files fs (entry_path d h j)"
    if "h \<noteq> strhash64 k" for h j
    using that by (simp add: chain_del_files_def)
  have dirs: "fs_dirs ?fs = fs_dirs fs" "fs_root ?fs = fs_root fs"
    by (simp_all add: chain_del_files_def)
  have "\<exists>es'. chain ?fs d h es' \<and> (\<forall>k'. strhash64 k' = h \<longrightarrow> (m(k := None)) k' = map_of es' k')"
    for h
  proof (cases "h = strhash64 k")
    case True
    have "m k' = map_of es k'" if "strhash64 k' = h" for k'
      using rel ch chain_unique True that unfolding kv_rel_def by metis
    then show ?thesis using new del True by auto
  next
    case False
    from rel obtain es' where "chain fs d h es'" "\<forall>k'. strhash64 k' = h \<longrightarrow> m k' = map_of es' k'"
      unfolding kv_rel_def by metis
    moreover from this False have "chain ?fs d h es'"
      by (subst chain_cong [of _ _ _ fs]) (simp_all add: same dirs)
    ultimately show ?thesis using False by auto
  qed
  then show ?thesis using rel by (simp add: kv_rel_def dirs)
qed

lemma kvstore_del_spec:
  assumes rel: "kv_rel fs (store_dirname store) m" and len: "length k \<le> MAX_KEYLEN"
  shows "\<exists>fs'. kvstore_del fs store k = Some (if m k = None then ERRNOKEY else 0, fs')
     \<and> kv_rel fs' (store_dirname store) (m(k := None)) \<and> store_frame (store_dirname store) fs fs'"
proof (cases "m k")
  case None
  then have "m(k := None) = m" by auto
  then show ?thesis
    using find_entry_absent [OF rel len None] rel None
    by (auto simp: kvstore_del_def ERRNOKEY_def)
next
  case (Some v)
  let ?d = "store_dirname store" and ?h = "strhash64 k"
  from find_entry_present [OF rel len Some] obtain es i where
    ch: "chain fs ?d ?h es" and pos: "key_pos k es i" and
    fe: "\<forall>want. find_entry fs store k want = Some (int i, if want then Some v else None)"
    by blast
  have i: "i < length es" using pos by (simp add: key_pos_def)
  let ?n = "length es"
  let ?fs = "chain_del_files fs ?d ?h i ?n"
  have last: "?n - 1 < ?n" using i by linarith
  have fe': "find_entry fs store k False = Some (int i, None)" using fe by simp
  have "chain_end fs ?d ?h (i + 1) = Some ?n" using chain_end_chain [OF ch, of "i + 1"] i by simp
  moreover have dw: "dir_writable fs (entry_path ?d ?h j)" for j
    using rel by (rule kv_rel_dir_writable)
  moreover obtain f g where "fs_files fs (entry_path ?d ?h i) = Some f"
      "fs_files fs (entry_path ?d ?h (?n - 1)) = Some g"
    using chain_file [OF ch i] chain_file [OF ch last] by blast
  ultimately have "kvstore_del fs store k = Some (0, ?fs)"
    using i fe' by (cases "Suc i = ?n")
      (simp_all add: kvstore_del_def fs_remove_def fs_rename_def chain_del_files_def Let_def)
  moreover have "store_frame ?d fs ?fs" by (simp add: store_frame_def chain_del_files_def)
  ultimately show ?thesis using kv_rel_del [OF rel ch pos] Some by auto
qed

subsection \<open>The map interface of the store\<close>

text \<open>
  What a client of the store may rely on: a state stands for one map, \<open>get\<close> reads it,
  \<open>put\<close> and \<open>del\<close> return 0 (or \<open>ERRNOKEY\<close>) and change one key. \<open>okk\<close> and \<open>okv\<close> are the
  keys and values the checks let through.
\<close>

datatype ('k, 'v) kv_op = KPut 'k 'v | KDel 'k

fun kv_apply :: "('k \<rightharpoonup> 'v) \<Rightarrow> ('k, 'v) kv_op \<Rightarrow> ('k \<rightharpoonup> 'v)" where
  "kv_apply m (KPut k v) = m(k \<mapsto> v)"
| "kv_apply m (KDel k) = m(k := None)"

fun kv_op_ok :: "('k \<Rightarrow> bool) \<Rightarrow> ('v \<Rightarrow> bool) \<Rightarrow> ('k, 'v) kv_op \<Rightarrow> bool" where
  "kv_op_ok okk okv (KPut k v) \<longleftrightarrow> okk k \<and> okv v"
| "kv_op_ok okk okv (KDel k) \<longleftrightarrow> okk k"

fun kv_run ::
  "('s \<Rightarrow> 'k \<Rightarrow> 'v \<Rightarrow> (int \<times> 's) option) \<Rightarrow> ('s \<Rightarrow> 'k \<Rightarrow> (int \<times> 's) option)
     \<Rightarrow> 's \<Rightarrow> ('k, 'v) kv_op list \<Rightarrow> 's option" where
  "kv_run put del s [] = Some s"
| "kv_run put del s (KPut k v # ops) =
     do { (_, s') \<leftarrow> put s k v; kv_run put del s' ops }"
| "kv_run put del s (KDel k # ops) =
     do { (_, s') \<leftarrow> del s k; kv_run put del s' ops }"

locale kv_interface =
  fixes rel :: "'s \<Rightarrow> ('k \<rightharpoonup> 'v) \<Rightarrow> bool"
    and okk :: "'k \<Rightarrow> bool"
    and okv :: "'v \<Rightarrow> bool"
    and get :: "'s \<Rightarrow> 'k \<Rightarrow> (int \<times> 'v option) option"
    and put :: "'s \<Rightarrow> 'k \<Rightarrow> 'v \<Rightarrow> (int \<times> 's) option"
    and del :: "'s \<Rightarrow> 'k \<Rightarrow> (int \<times> 's) option"
  assumes rel_unique: "rel s m \<Longrightarrow> rel s m' \<Longrightarrow> m = m'"
    and get_law: "rel s m \<Longrightarrow> okk k \<Longrightarrow>
      get s k = Some (case m k of None \<Rightarrow> (ERRNOKEY, None) | Some v \<Rightarrow> (0, Some v))"
    and put_law: "rel s m \<Longrightarrow> okk k \<Longrightarrow> okv v \<Longrightarrow>
      \<exists>s'. put s k v = Some (0, s') \<and> rel s' (m(k \<mapsto> v))"
    and del_law: "rel s m \<Longrightarrow> okk k \<Longrightarrow>
      \<exists>s'. del s k = Some (if m k = None then ERRNOKEY else 0, s') \<and> rel s' (m(k := None))"
begin

lemma run_law:
  assumes "rel s m" "list_all (kv_op_ok okk okv) ops"
  shows "\<exists>s'. kv_run put del s ops = Some s' \<and> rel s' (foldl kv_apply m ops)"
  using assms
proof (induction ops arbitrary: s m)
  case Nil
  then show ?case by simp
next
  case (Cons op ops)
  show ?case
  proof (cases op)
    case (KPut k v)
    with Cons.prems put_law obtain s' where "put s k v = Some (0, s')" "rel s' (m(k \<mapsto> v))"
      by fastforce
    with Cons KPut show ?thesis by fastforce
  next
    case (KDel k)
    with Cons.prems del_law obtain s' c where "del s k = Some (c, s')" "rel s' (m(k := None))"
      by fastforce
    with Cons KDel show ?thesis by fastforce
  qed
qed

lemma get_after_run:
  assumes "rel s m" "list_all (kv_op_ok okk okv) ops" "okk k"
  shows "\<exists>s'. kv_run put del s ops = Some s' \<and>
     get s' k = Some (case foldl kv_apply m ops k of
       None \<Rightarrow> (ERRNOKEY, None) | Some v \<Rightarrow> (0, Some v))"
  using run_law [OF assms(1,2)] get_law assms(3) by blast

text \<open>Running an operation again changes nothing more: what a replayed log relies on.\<close>

lemma run_twice:
  assumes "rel s m" "kv_op_ok okk okv op"
  shows "\<exists>s1 s2. kv_run put del s [op] = Some s1 \<and> kv_run put del s1 [op] = Some s2
     \<and> rel s1 (kv_apply m op) \<and> rel s2 (kv_apply m op)"
proof -
  obtain s1 where s1: "kv_run put del s [op] = Some s1" "rel s1 (kv_apply m op)"
    using run_law [OF assms(1), of "[op]"] assms(2) by auto
  moreover obtain s2 where "kv_run put del s1 [op] = Some s2"
      "rel s2 (kv_apply (kv_apply m op) op)"
    using run_law [OF s1(2), of "[op]"] assms(2) by auto
  moreover have "kv_apply (kv_apply m op) op = kv_apply m op"
    by (cases op) simp_all
  ultimately show ?thesis by metis
qed

end

text \<open>The store provides it, for a directory \<open>store_dirname store\<close>.\<close>

definition key_ok :: "string \<Rightarrow> bool" where
  "key_ok k \<longleftrightarrow> cstr k \<and> length k \<le> MAX_KEYLEN"

definition val_ok :: "string \<Rightarrow> bool" where
  "val_ok v \<longleftrightarrow> cstr v \<and> length v \<le> MAX_VALLEN"

lemma entry_ok_iff: "entry_ok k v \<longleftrightarrow> key_ok k \<and> val_ok v"
  by (auto simp: entry_ok_def key_ok_def val_ok_def)

lemma kv_rel_unique: "kv_rel fs d m \<Longrightarrow> kv_rel fs d m' \<Longrightarrow> m = m'"
proof
  fix k
  assume "kv_rel fs d m" "kv_rel fs d m'"
  then show "m k = m' k" unfolding kv_rel_def by (metis chain_unique)
qed

interpretation kvs: kv_interface
  "\<lambda>fs. kv_rel fs (store_dirname store)" key_ok val_ok
  "\<lambda>fs. kvstore_get fs store" "\<lambda>fs. kvstore_put fs store" "\<lambda>fs. kvstore_del fs store"
proof (unfold_locales, goal_cases)
  case (1 s m m')
  then show ?case by (rule kv_rel_unique)
next
  case (2 s m k)
  then show ?case by (simp add: kvstore_get_spec key_ok_def)
next
  case (3 s m k v)
  then show ?case using kvstore_put_spec entry_ok_iff by blast
next
  case (4 s m k)
  then show ?case using kvstore_del_spec key_ok_def by blast
qed

end
