(* ===== verification/TPCLog.thy ===== *)
theory TPCLog
  imports FileSystem
begin

text \<open>
  The log of a two-phase-commit participant, hw4/src/tpclog.c: entry number \<open>i\<close> is the file
  \<open>DIR/i.log\<close>, a dump of a \<open>logentry_t\<close> (message type, length of the data, data). A log is
  the directory and two counters in memory: the number of the next entry and the position
  of the iteration.

  The invariant \<open>log_rel fs log rs\<close> says that the files of the directory are the records
  \<open>rs\<close> in order and nothing else; the lemmas show that \<open>tpclog_log\<close> appends, that an
  iteration walks over \<open>rs\<close>, that \<open>tpclog_clear_log\<close> empties the log and that
  \<open>tpclog_init\<close> finds the counters again after a crash.
\<close>

record tpclog_t =
  log_dirname :: string
  log_nextid :: nat
  log_iterpos :: nat

record logentry_t =
  le_type :: "32 word"
  le_length :: int
  le_data :: string

subsection \<open>Files of the log\<close>

definition TPCLOG_FILETYPE :: string where "TPCLOG_FILETYPE = ''.log''"

text \<open>\<open>sprintf(filename, "%s/%lu.log", dirname, i)\<close>, into \<open>MAX_FILENAME\<close> bytes: like \<open>entry_path\<close> of
  \<open>KVStore\<close> for names of directories of at most 985 bytes.\<close>

definition log_path :: "string \<Rightarrow> nat \<Rightarrow> string" where
  "log_path d i = in_dir d (dec i @ TPCLOG_FILETYPE)"

text \<open>The bytes \<open>tpclog_log\<close> writes for a message type and its data.\<close>

definition logentry_bytes :: "msgtype_t \<Rightarrow> string \<Rightarrow> string" where
  "logentry_bytes type data =
     le32 (word_of_nat (msgtype_code type)) @ le32 (word_of_nat (length data)) @ data"

subsection \<open>Operations\<close>

text \<open>The loop of \<open>tpclog_init\<close>: the first number whose file does not exist.\<close>

partial_function (option) log_end :: "fs \<Rightarrow> string \<Rightarrow> nat \<Rightarrow> nat option" where
  "log_end fs d nextid =
     (if fs_stat fs (log_path d nextid) then log_end fs d (nextid + 1) else Some nextid)"

definition tpclog_init :: "fs \<Rightarrow> tpclog_t \<Rightarrow> string \<Rightarrow> (int \<times> fs \<times> tpclog_t) option" where
  "tpclog_init fs log dirname =
     (case (if fs_stat fs dirname then Inr fs else fs_mkdir fs dirname) of
        Inl errno \<Rightarrow> Some (errno, fs, log)
      | Inr fs' \<Rightarrow>
          do { nextid \<leftarrow> log_end fs' dirname 0;
               Some (0, fs', log\<lparr>log_dirname := dirname, log_nextid := nextid\<rparr>) })"

text \<open>The data part of an entry; \<open>strlen\<close> and \<open>strcpy\<close> of a NULL key or value crash.\<close>

definition log_data :: "msgtype_t \<Rightarrow> string option \<Rightarrow> string option \<Rightarrow> string option" where
  "log_data type key value =
     do { k \<leftarrow> (if type = PUTREQ \<or> type = DELREQ then map_option (\<lambda>s. s @ [NUL]) key else Some []);
          v \<leftarrow> (if type = PUTREQ then map_option (\<lambda>s. s @ [NUL]) value else Some []);
          Some (k @ v) }"

definition tpclog_log ::
  "fs \<Rightarrow> tpclog_t \<Rightarrow> msgtype_t \<Rightarrow> string option \<Rightarrow> string option \<Rightarrow> (int \<times> fs \<times> tpclog_t) option"
where
  "tpclog_log fs log type key value =
     (if type \<noteq> PUTREQ \<and> type \<noteq> DELREQ \<and> type \<noteq> ABORT \<and> type \<noteq> COMMIT
      then Some (ERRINVLDMSG, fs, log)
      else let filename = log_path (log_dirname log) (log_nextid log) in
        case fs_open_creat_rusr fs filename of
          None \<Rightarrow> Some (ERRFILACCESS, fs, log)
        | Some fs' \<Rightarrow>
            do { data \<leftarrow> log_data type key value;
                 Some (0, fs_write fs' filename (logentry_bytes type data),
                       log\<lparr>log_nextid := log_nextid log + 1\<rparr>) })"

text \<open>
  \<open>tpclog_load_entry\<close>: the error code, or the entry. A negative length makes \<open>malloc\<close>
  fail or the buffer too small for the header, which is then read.
\<close>

definition tpclog_load_entry :: "fs \<Rightarrow> string \<Rightarrow> (int + logentry_t) option" where
  "tpclog_load_entry fs filename =
     (case fs_open_read fs filename of
        None \<Rightarrow> Some (Inl ERRFILACCESS)
      | Some bytes \<Rightarrow>
          (case (rd32 bytes, rd32 (drop 4 bytes)) of
             (Some type, Some len) \<Rightarrow>
               if sint len < 0 then None
               else if length bytes < nat (sint len) + 8 then Some (Inl ERRFILACCESS)
               else Some (Inr \<lparr>le_type = type, le_length = sint len,
                               le_data = take (nat (sint len)) (drop 8 bytes)\<rparr>)
           | _ \<Rightarrow> Some (Inl ERRFILACCESS)))"

definition tpclog_iterate_begin :: "tpclog_t \<Rightarrow> tpclog_t" where
  "tpclog_iterate_begin log = log\<lparr>log_iterpos := 0\<rparr>"

definition tpclog_iterate_has_next :: "fs \<Rightarrow> tpclog_t \<Rightarrow> bool" where
  "tpclog_iterate_has_next fs log = fs_stat fs (log_path (log_dirname log) (log_iterpos log))"

definition tpclog_iterate_next :: "fs \<Rightarrow> tpclog_t \<Rightarrow> (tpclog_t \<times> logentry_t option) option" where
  "tpclog_iterate_next fs log =
     (if \<not> tpclog_iterate_has_next fs log then Some (log, None)
      else let filename = log_path (log_dirname log) (log_iterpos log);
               log' = log\<lparr>log_iterpos := log_iterpos log + 1\<rparr>
           in do { ret \<leftarrow> tpclog_load_entry fs filename;
                   Some (log', case ret of Inl _ \<Rightarrow> None | Inr entry \<Rightarrow> Some entry) })"

text \<open>
  \<open>tpclog_clear_log\<close>: a round of its loop leaves with a result, or leaves the directory from which
  the next round goes on, and from which a server that dies there starts again.
\<close>

definition clear_log_step :: "fs \<Rightarrow> string \<Rightarrow> nat \<Rightarrow> (int \<times> fs) + (fs \<times> nat)" where
  "clear_log_step fs d count =
     (if fs_stat fs (log_path d count) then
        (case fs_remove fs (log_path d count) of
           Inl errno \<Rightarrow> Inl (errno, fs)
         | Inr fs' \<Rightarrow> Inr (fs', count + 1))
      else Inl (0, fs))"

partial_function (option) clear_log_loop :: "fs \<Rightarrow> string \<Rightarrow> nat \<Rightarrow> (int \<times> fs) option" where
  "clear_log_loop fs d count =
     (case clear_log_step fs d count of
        Inl result \<Rightarrow> Some result
      | Inr (fs', count') \<Rightarrow> clear_log_loop fs' d count')"

definition tpclog_clear_log :: "fs \<Rightarrow> tpclog_t \<Rightarrow> (int \<times> fs \<times> tpclog_t) option" where
  "tpclog_clear_log fs log =
     do { (ret, fs') \<leftarrow> clear_log_loop fs (log_dirname log) 0;
          Some (ret, fs', if ret = 0 then log\<lparr>log_nextid := 0\<rparr> else log) }"

subsection \<open>Names\<close>

lemma log_path_inject [simp, path_simps]: "log_path d i = log_path d j \<longleftrightarrow> i = j"
  by (simp add: log_path_def)

lemma log_path_neq_dir [simp, path_simps]: "log_path d i \<noteq> d"
  by (simp add: log_path_def)

lemma parent_log_path [simp, path_simps]: "parent_dir (log_path d i) = d"
  by (simp add: log_path_def TPCLOG_FILETYPE_def)

subsection \<open>Records\<close>

datatype log_rec = LPut string string | LDel string | LCommit | LAbort

fun rec_type :: "log_rec \<Rightarrow> msgtype_t" where
  "rec_type (LPut k v) = PUTREQ"
| "rec_type (LDel k) = DELREQ"
| "rec_type LCommit = COMMIT"
| "rec_type LAbort = ABORT"

fun rec_data :: "log_rec \<Rightarrow> string" where
  "rec_data (LPut k v) = k @ NUL # v @ [NUL]"
| "rec_data (LDel k) = k @ [NUL]"
| "rec_data LCommit = []"
| "rec_data LAbort = []"

fun rec_key :: "log_rec \<Rightarrow> string option" where
  "rec_key (LPut k v) = Some k"
| "rec_key (LDel k) = Some k"
| "rec_key _ = None"

fun rec_value :: "log_rec \<Rightarrow> string option" where
  "rec_value (LPut k v) = Some v"
| "rec_value _ = None"

fun rec_ok :: "log_rec \<Rightarrow> bool" where
  "rec_ok (LPut k v) \<longleftrightarrow> cstr k \<and> cstr v \<and> length k \<le> MAX_KEYLEN \<and> length v \<le> MAX_VALLEN"
| "rec_ok (LDel k) \<longleftrightarrow> cstr k \<and> length k \<le> MAX_KEYLEN"
| "rec_ok _ \<longleftrightarrow> True"

definition rec_entry :: "log_rec \<Rightarrow> logentry_t" where
  "rec_entry r = \<lparr>le_type = word_of_nat (msgtype_code (rec_type r)),
     le_length = int (length (rec_data r)), le_data = rec_data r\<rparr>"

definition rec_bytes :: "log_rec \<Rightarrow> string" where
  "rec_bytes r = logentry_bytes (rec_type r) (rec_data r)"

lemma log_data_rec [simp]: "log_data (rec_type r) (rec_key r) (rec_value r) = Some (rec_data r)"
  by (cases r) (simp_all add: log_data_def)

lemma rec_data_short: "rec_ok r \<Longrightarrow> length (rec_data r) < 2 ^ 31"
  by (cases r) (simp_all add: MAX_KEYLEN_def MAX_VALLEN_def)

lemma rec_type_logged: "rec_type r \<in> {PUTREQ, DELREQ, ABORT, COMMIT}"
  by (cases r) simp_all

subsection \<open>The log as a list of records\<close>

definition log_files :: "fs \<Rightarrow> string \<Rightarrow> log_rec list \<Rightarrow> bool" where
  "log_files fs d rs \<longleftrightarrow>
     (\<exists>w. fs_dirs fs d = Some w \<and> (fs_root fs \<or> w))
     \<and> (\<forall>i < length rs. \<exists>f. fs_files fs (log_path d i) = Some f
          \<and> fcontents f = rec_bytes (rs ! i) \<and> file_readable fs f)
     \<and> (\<forall>i \<ge> length rs. fs_files fs (log_path d i) = None)
     \<and> (\<forall>i. fs_dirs fs (log_path d i) = None)
     \<and> list_all rec_ok rs"

definition log_rel :: "fs \<Rightarrow> tpclog_t \<Rightarrow> log_rec list \<Rightarrow> bool" where
  "log_rel fs log rs \<longleftrightarrow> log_files fs (log_dirname log) rs \<and> log_nextid log = length rs"

definition log_frame :: "string \<Rightarrow> fs \<Rightarrow> fs \<Rightarrow> bool" where
  "log_frame d fs fs' \<longleftrightarrow>
     fs_dirs fs' = fs_dirs fs \<and> fs_root fs' = fs_root fs
     \<and> (\<forall>p. (\<forall>i. p \<noteq> log_path d i) \<longrightarrow> fs_files fs' p = fs_files fs p)"

lemma log_frame_refl [simp]: "log_frame d fs fs"
  by (simp add: log_frame_def)

lemma log_frame_trans: "log_frame d a b \<Longrightarrow> log_frame d b c \<Longrightarrow> log_frame d a c"
  by (simp add: log_frame_def)

lemma log_files_stat: "log_files fs d rs \<Longrightarrow> fs_stat fs (log_path d i) \<longleftrightarrow> i < length rs"
  by (cases "i < length rs") (auto simp: log_files_def fs_stat_def)

lemma log_files_dir_writable: "log_files fs d rs \<Longrightarrow> dir_writable fs (log_path d i)"
  by (auto simp: log_files_def dir_writable_def)

lemma log_end_spec:
  assumes "log_files fs d rs" "c \<le> length rs"
  shows "log_end fs d c = Some (length rs)"
  using assms(2)
proof (induction "length rs - c" arbitrary: c)
  case 0
  then show ?case
    using log_files_stat [OF assms(1)] by (subst log_end.simps) simp
next
  case (Suc n)
  then have "log_end fs d (c + 1) = Some (length rs)"
    by (intro Suc.hyps) simp_all
  then show ?case
    using Suc log_files_stat [OF assms(1)] by (subst log_end.simps) simp
qed

lemma tpclog_init_spec:
  assumes "log_files fs d rs"
  shows "tpclog_init fs log d =
     Some (0, fs, log\<lparr>log_dirname := d, log_nextid := length rs\<rparr>)"
    and "log_rel fs (log\<lparr>log_dirname := d, log_nextid := length rs\<rparr>) rs"
proof -
  have "fs_stat fs d" using assms by (auto simp: log_files_def fs_stat_def)
  then show "tpclog_init fs log d =
     Some (0, fs, log\<lparr>log_dirname := d, log_nextid := length rs\<rparr>)"
    using log_end_spec [OF assms, of 0] by (simp add: tpclog_init_def)
  show "log_rel fs (log\<lparr>log_dirname := d, log_nextid := length rs\<rparr>) rs"
    using assms by (simp add: log_rel_def)
qed

lemma log_files_append:
  assumes "log_files fs d rs" "rec_ok r" "fcontents f = rec_bytes r" "freadable f"
  shows "log_files (fs\<lparr>fs_files := (fs_files fs)(log_path d (length rs) \<mapsto> f)\<rparr>) d (rs @ [r])"
  using assms by (auto simp: log_files_def nth_append less_Suc_eq file_readable_def)

lemma tpclog_log_spec:
  assumes rel: "log_rel fs log rs" and ok: "rec_ok r"
  shows "\<exists>fs'. tpclog_log fs log (rec_type r) (rec_key r) (rec_value r)
       = Some (0, fs', log\<lparr>log_nextid := log_nextid log + 1\<rparr>)
     \<and> log_rel fs' (log\<lparr>log_nextid := log_nextid log + 1\<rparr>) (rs @ [r])
     \<and> log_frame (log_dirname log) fs fs'"
proof -
  let ?d = "log_dirname log"
  let ?p = "log_path ?d (log_nextid log)"
  let ?f = "\<lparr>fcontents = rec_bytes r, freadable = True, fwritable = False\<rparr>"
  let ?fs = "fs\<lparr>fs_files := (fs_files fs)(?p \<mapsto> ?f)\<rparr>"
  have files: "log_files fs ?d rs" "log_nextid log = length rs"
    using rel by (simp_all add: log_rel_def)
  then have "fs_files fs ?p = None" "fs_dirs fs ?p = None"
    by (auto simp: log_files_def)
  then have "tpclog_log fs log (rec_type r) (rec_key r) (rec_value r)
      = Some (0, ?fs, log\<lparr>log_nextid := log_nextid log + 1\<rparr>)"
    using log_files_dir_writable [OF files(1)] rec_type_logged [of r]
    by (auto simp: tpclog_log_def fs_open_creat_rusr_def fs_write_def rec_bytes_def Let_def)
  moreover have "log_files ?fs ?d (rs @ [r])"
    using log_files_append [OF files(1) ok, of ?f] files(2) by simp
  ultimately show ?thesis
    using files(2) by (auto simp: log_rel_def log_frame_def)
qed

lemma tpclog_load_entry_spec:
  assumes "log_files fs d rs" "i < length rs"
  shows "tpclog_load_entry fs (log_path d i) = Some (Inr (rec_entry (rs ! i)))"
proof -
  let ?r = "rs ! i"
  have ok: "rec_ok ?r" using assms by (simp add: log_files_def list_all_length)
  have len: "sint (word_of_nat (length (rec_data ?r)) :: 32 word) = int (length (rec_data ?r))"
    by (rule sint_of_small_nat [OF rec_data_short [OF ok]])
  have read: "fs_open_read fs (log_path d i) = Some (rec_bytes ?r)"
    using assms by (auto simp: log_files_def fs_open_read_def)
  have "rd32 (rec_bytes ?r) = Some (word_of_nat (msgtype_code (rec_type ?r)))"
    by (simp add: rec_bytes_def logentry_bytes_def)
  moreover have "drop 4 (rec_bytes ?r) = le32 (word_of_nat (length (rec_data ?r))) @ rec_data ?r"
    by (simp add: rec_bytes_def logentry_bytes_def)
  moreover from this have "drop 8 (rec_bytes ?r) = rec_data ?r"
    by (metis append_eq_conv_conj drop_drop length_le32 numeral_Bit0)
  moreover have "length (rec_bytes ?r) = length (rec_data ?r) + 8"
    by (simp add: rec_bytes_def logentry_bytes_def)
  ultimately show ?thesis
    using read len by (simp add: tpclog_load_entry_def rec_entry_def)
qed

lemma tpclog_has_next_spec:
  "log_rel fs log rs \<Longrightarrow> tpclog_iterate_has_next fs log \<longleftrightarrow> log_iterpos log < length rs"
  by (simp add: tpclog_iterate_has_next_def log_rel_def log_files_stat)

lemma tpclog_iterate_next_spec:
  assumes "log_rel fs log rs" "log_iterpos log < length rs"
  shows "tpclog_iterate_next fs log =
     Some (log\<lparr>log_iterpos := log_iterpos log + 1\<rparr>, Some (rec_entry (rs ! log_iterpos log)))"
proof -
  have "log_files fs (log_dirname log) rs" using assms(1) by (simp add: log_rel_def)
  from tpclog_load_entry_spec [OF this assms(2)] tpclog_has_next_spec [OF assms(1)] assms(2)
  show ?thesis by (simp add: tpclog_iterate_next_def)
qed

lemma log_rel_iterpos [simp]: "log_rel fs (log\<lparr>log_iterpos := i\<rparr>) rs = log_rel fs log rs"
  by (simp add: log_rel_def)

text \<open>The log with its first \<open>c\<close> files already removed.\<close>

definition log_cleared :: "fs \<Rightarrow> string \<Rightarrow> nat \<Rightarrow> fs" where
  "log_cleared fs d c =
     fs\<lparr>fs_files := (\<lambda>p. if \<exists>i < c. p = log_path d i then None else fs_files fs p)\<rparr>"

lemma log_cleared_0 [simp]: "log_cleared fs d 0 = fs"
  by (simp add: log_cleared_def)

lemma log_cleared_Suc:
  "log_cleared fs d (Suc c) =
     (log_cleared fs d c)\<lparr>fs_files := (fs_files (log_cleared fs d c))(log_path d c := None)\<rparr>"
proof -
  have "(\<lambda>p. if \<exists>i < Suc c. p = log_path d i then None else fs_files fs p)
      = (\<lambda>p. if \<exists>i < c. p = log_path d i then None else fs_files fs p)(log_path d c := None)"
    by (auto simp: less_Suc_eq fun_eq_iff)
  then show ?thesis by (simp add: log_cleared_def)
qed

lemma clear_log_step_spec:
  assumes files: "log_files fs d rs"
  shows "clear_log_step (log_cleared fs d c) d c =
     (if c < length rs then Inr (log_cleared fs d (Suc c), Suc c) else Inl (0, log_cleared fs d c))"
proof (cases "c < length rs")
  case True
  obtain f where "fs_files (log_cleared fs d c) (log_path d c) = Some f"
    using files True by (auto simp: log_files_def log_cleared_def)
  moreover have "dir_writable (log_cleared fs d c) (log_path d c)"
    using log_files_dir_writable [OF files] by (simp add: log_cleared_def)
  ultimately show ?thesis
    using True by (simp add: clear_log_step_def fs_remove_def fs_stat_def log_cleared_Suc)
next
  case False
  then have "\<not> fs_stat (log_cleared fs d c) (log_path d c)"
    using files by (auto simp: log_files_def fs_stat_def log_cleared_def)
  then show ?thesis using False by (simp add: clear_log_step_def)
qed

lemma clear_log_loop_spec:
  assumes files: "log_files fs d rs" and "c \<le> length rs"
  shows "clear_log_loop (log_cleared fs d c) d c = Some (0, log_cleared fs d (length rs))"
  using assms(2)
proof (induction "length rs - c" arbitrary: c)
  case 0
  then show ?case using clear_log_step_spec [OF files, of c] by (subst clear_log_loop.simps) simp
next
  case (Suc n)
  then have "clear_log_loop (log_cleared fs d (Suc c)) d (Suc c) = Some (0, log_cleared fs d (length rs))"
    by (intro Suc.hyps) simp_all
  then show ?case
    using Suc clear_log_step_spec [OF files, of c] by (subst clear_log_loop.simps) simp
qed

lemma log_cleared_files:
  "log_files fs d rs \<Longrightarrow> log_files (log_cleared fs d (length rs)) d []"
  by (auto simp: log_files_def log_cleared_def not_less)

lemma tpclog_clear_log_spec:
  assumes rel: "log_rel fs log rs"
  shows "\<exists>fs'. tpclog_clear_log fs log = Some (0, fs', log\<lparr>log_nextid := 0\<rparr>)
     \<and> log_rel fs' (log\<lparr>log_nextid := 0\<rparr>) [] \<and> log_frame (log_dirname log) fs fs'"
proof -
  let ?d = "log_dirname log"
  have files: "log_files fs ?d rs" using rel by (simp add: log_rel_def)
  let ?fs = "log_cleared fs ?d (length rs)"
  have "tpclog_clear_log fs log = Some (0, ?fs, log\<lparr>log_nextid := 0\<rparr>)"
    using clear_log_loop_spec [OF files, of 0] by (simp add: tpclog_clear_log_def)
  moreover have "log_frame ?d fs ?fs" by (auto simp: log_frame_def log_cleared_def)
  ultimately show ?thesis
    using log_cleared_files [OF files] by (simp add: log_rel_def)
qed

end
