(* ===== verification/KVTypes.thy ===== *)
theory KVTypes
  imports KVConstants
begin

text \<open>
  The messages of hw4/src/kvmessage.h: requests and responses, with NULL strings as \<open>None\<close>.
\<close>

record kvrequest_t =
  req_type :: msgtype_t
  req_key :: "string option"
  req_val :: "string option"

record kvresponse_t =
  res_type :: msgtype_t
  res_body :: "string option"

text \<open>\<open>calloc\<close> makes all fields zero: the first enumerator and NULL.\<close>

definition res_calloc :: kvresponse_t where
  "res_calloc = \<lparr>res_type = INDEX, res_body = None\<rparr>"

definition mk_res :: "msgtype_t \<Rightarrow> string option \<Rightarrow> kvresponse_t" where
  "mk_res t b = \<lparr>res_type = t, res_body = b\<rparr>"

lemma mk_res_simps [simp]:
  "res_type (mk_res t b) = t" "res_body (mk_res t b) = b"
  "(mk_res t b)\<lparr>res_type := t'\<rparr> = mk_res t' b" "(mk_res t b)\<lparr>res_body := b'\<rparr> = mk_res t b'"
  "res_calloc = mk_res INDEX None"
  by (simp_all add: mk_res_def res_calloc_def)

text \<open>What the handler of a socket sends back: the index page or a response.\<close>

datatype reply = SendIndex | SendResponse kvresponse_t

text \<open>No string of a message holds a NUL byte.\<close>

definition request_ok :: "kvrequest_t \<Rightarrow> bool" where
  "request_ok req \<longleftrightarrow> (\<forall>k. req_key req = Some k \<longrightarrow> cstr k) \<and> (\<forall>v. req_val req = Some v \<longrightarrow> cstr v)"

text \<open>The strings \<open>kvrequest_recieve\<close> guarantees for each type of request.\<close>

definition request_complete :: "kvrequest_t \<Rightarrow> bool" where
  "request_complete req \<longleftrightarrow>
     (req_type req = PUTREQ \<longrightarrow> req_key req \<noteq> None \<and> req_val req \<noteq> None)
     \<and> (req_type req \<in> {DELREQ, GETREQ} \<longrightarrow> req_key req \<noteq> None)
     \<and> (req_type req = REGISTER \<longrightarrow> req_key req \<noteq> None \<and> req_val req \<noteq> None)"

end
