(* ===== verification/KVServer.thy ===== *)
theory KVServer
  imports KVStore TPCLog KVTypes
begin

text \<open>
  The follower of hw4/src/kvserver.c: a participant of two-phase commit over a store and a
  log in one directory. \<open>kvserver_handle_tpc\<close> handles one request, \<open>do_log\<close> applies the
  log to the store at COMMIT, \<open>kvserver_init\<close> with \<open>kvserver_rebuild_state\<close> starts a server
  on what a crashed one left on disk.

  The abstract participant is a map and at most one prepared operation (\<open>participant_step\<close>).
  \<open>srv_rel\<close> relates a server and its directory to it; the lemmas show that every request
  refines a step of the participant, and that a restart after a crash, at rest or inside a
  COMMIT, finds the state of the participant again.
\<close>

record kvserver_t =
  srv_store :: kvstore_t
  srv_log :: tpclog_t
  srv_state :: tpc_state_t
  srv_max_threads :: nat
  srv_port :: int
  srv_hostname :: string

subsection \<open>Operations on the store\<close>

definition kvserver_get :: "fs \<Rightarrow> kvserver_t \<Rightarrow> string \<Rightarrow> (int \<times> string option) option" where
  "kvserver_get fs server key =
     (if MAX_KEYLEN < length key then Some (ERRKEYLEN, None)
      else kvstore_get fs (srv_store server) key)"

definition kvserver_put_check :: "fs \<Rightarrow> kvserver_t \<Rightarrow> string \<Rightarrow> string \<Rightarrow> int" where
  "kvserver_put_check fs server key value =
     (if MAX_KEYLEN < length key \<or> length key = 0 then ERRKEYLEN
      else if MAX_VALLEN < length value then ERRVALLEN
      else let check = kvstore_put_check fs (srv_store server) key value
           in if check < 0 then check else 0)"

definition kvserver_put :: "fs \<Rightarrow> kvserver_t \<Rightarrow> string \<Rightarrow> string \<Rightarrow> (int \<times> fs) option" where
  "kvserver_put fs server key value =
     (let ret = kvserver_put_check fs server key value
      in if ret < 0 then Some (ret, fs) else kvstore_put fs (srv_store server) key value)"

definition kvserver_del_check :: "fs \<Rightarrow> kvserver_t \<Rightarrow> string \<Rightarrow> int option" where
  "kvserver_del_check fs server key =
     (if MAX_KEYLEN < length key \<or> length key = 0 then Some ERRKEYLEN
      else do { check \<leftarrow> kvstore_del_check fs (srv_store server) key;
                Some (if check < 0 then check else 0) })"

definition kvserver_del :: "fs \<Rightarrow> kvserver_t \<Rightarrow> string \<Rightarrow> (int \<times> fs) option" where
  "kvserver_del fs server key =
     do { ret \<leftarrow> kvserver_del_check fs server key;
          if ret < 0 then Some (ret, fs) else kvstore_del fs (srv_store server) key }"

subsection \<open>Applying the log\<close>

text \<open>\<open>parse_log\<close>: the address after the first NUL within the first \<open>len\<close> bytes.\<close>

function parse_log_from :: "string \<Rightarrow> nat \<Rightarrow> nat \<Rightarrow> string option" where
  "parse_log_from data len i =
     (if i < len then
        (if data ! i = NUL then Some (drop (i + 1) data) else parse_log_from data len (i + 1))
      else None)"
  by pat_completeness auto
termination
  by (relation "measure (\<lambda>(data, len, i). len - i)") auto

declare parse_log_from.simps [simp del]

definition parse_log :: "string \<Rightarrow> nat \<Rightarrow> string option" where
  "parse_log data len = parse_log_from data len 0"

text \<open>
  One pass of the loop of \<open>do_log\<close> over an entry; the results of put and del are ignored. Its
  \<open>printf\<close> for the operator is left out: on an entry without data, such as a COMMIT, it reads on behind
  the entry until it finds a NUL.
\<close>

definition do_log_entry :: "fs \<Rightarrow> kvserver_t \<Rightarrow> logentry_t \<Rightarrow> fs option" where
  "do_log_entry fs server iter =
     (if le_type iter = word_of_nat (msgtype_code PUTREQ) then
        do { key \<leftarrow> c_string (le_data iter);
             rest \<leftarrow> parse_log (le_data iter) (nat (le_length iter));
             value \<leftarrow> c_string rest;
             (_, fs') \<leftarrow> kvserver_put fs server key value;
             Some fs' }
      else if le_type iter = word_of_nat (msgtype_code DELREQ) then
        do { key \<leftarrow> c_string (le_data iter);
             (_, fs') \<leftarrow> kvserver_del fs server key;
             Some fs' }
      else Some fs)"

partial_function (option) do_log_loop :: "fs \<Rightarrow> kvserver_t \<Rightarrow> (fs \<times> kvserver_t) option" where
  "do_log_loop fs server =
     (if tpclog_iterate_has_next fs (srv_log server) then
        do { (log', next) \<leftarrow> tpclog_iterate_next fs (srv_log server);
             iter \<leftarrow> next;
             fs' \<leftarrow> do_log_entry fs server iter;
             do_log_loop fs' (server\<lparr>srv_log := log'\<rparr>) }
      else Some (fs, server))"

definition do_log :: "fs \<Rightarrow> kvserver_t \<Rightarrow> (fs \<times> kvserver_t) option" where
  "do_log fs server =
     do_log_loop fs (server\<lparr>srv_log := tpclog_iterate_begin (srv_log server)\<rparr>)"

text \<open>\<open>tpclog_log(&server->log, ...)\<close> and \<open>tpclog_clear_log(&server->log)\<close>, results ignored.\<close>

definition server_log ::
  "fs \<Rightarrow> kvserver_t \<Rightarrow> msgtype_t \<Rightarrow> string option \<Rightarrow> string option \<Rightarrow> (fs \<times> kvserver_t) option"
where
  "server_log fs server type key value =
     do { (_, fs', log') \<leftarrow> tpclog_log fs (srv_log server) type key value;
          Some (fs', server\<lparr>srv_log := log'\<rparr>) }"

definition server_clear_log :: "fs \<Rightarrow> kvserver_t \<Rightarrow> (fs \<times> kvserver_t) option" where
  "server_clear_log fs server =
     do { (_, fs', log') \<leftarrow> tpclog_clear_log fs (srv_log server);
          Some (fs', server\<lparr>srv_log := log'\<rparr>) }"

subsection \<open>Handling a request\<close>

definition kvserver_handle_tpc ::
  "fs \<Rightarrow> kvserver_t \<Rightarrow> kvrequest_t \<Rightarrow> kvresponse_t \<Rightarrow> (fs \<times> kvserver_t \<times> kvresponse_t) option"
where
  "kvserver_handle_tpc fs server req res =
     (if req_type req = PUTREQ then
        (if srv_state server = TPC_INIT \<or> srv_state server = TPC_WAIT then
           do { key \<leftarrow> req_key req;
                value \<leftarrow> req_val req;
                let check_res = kvserver_put_check fs server key value;
                if check_res = 0 then
                  do { (fs', server') \<leftarrow>
                         server_log fs server (req_type req) (Some key) (Some value);
                       Some (fs', server'\<lparr>srv_state := TPC_READY\<rparr>,
                             res\<lparr>res_type := VOTE, res_body := Some MSG_COMMIT\<rparr>) }
                else Some (fs, server,
                           res\<lparr>res_type := VOTE, res_body := Some (GETMSG check_res)\<rparr>) }
         else Some (fs, server,
                    res\<lparr>res_type := ERROR, res_body := Some ERRMSG_INVALID_REQUEST\<rparr>))
      else if req_type req = DELREQ then
        (if srv_state server = TPC_INIT \<or> srv_state server = TPC_WAIT then
           do { key \<leftarrow> req_key req;
                check_res \<leftarrow> kvserver_del_check fs server key;
                if check_res = 0 then
                  do { (fs', server') \<leftarrow> server_log fs server (req_type req) (Some key) None;
                       Some (fs', server'\<lparr>srv_state := TPC_READY\<rparr>,
                             res\<lparr>res_type := VOTE, res_body := Some MSG_COMMIT\<rparr>) }
                else Some (fs, server,
                           res\<lparr>res_type := VOTE, res_body := Some (GETMSG check_res)\<rparr>) }
         else Some (fs, server,
                    res\<lparr>res_type := ERROR, res_body := Some ERRMSG_INVALID_REQUEST\<rparr>))
      else if req_type req = COMMIT then
        (if srv_state server = TPC_READY then
           do { (fs1, server1) \<leftarrow> server_log fs server (req_type req) None None;
                (fs2, server2) \<leftarrow> do_log fs1 (server1\<lparr>srv_state := TPC_COMMIT\<rparr>);
                (fs3, server3) \<leftarrow> server_clear_log fs2 server2;
                Some (fs3, server3\<lparr>srv_state := TPC_WAIT\<rparr>, res\<lparr>res_type := ACK\<rparr>) }
         else Some (fs, server, res\<lparr>res_type := ACK\<rparr>))
      else if req_type req = ABORT then
        (if srv_state server = TPC_READY then
           do { (fs1, server1) \<leftarrow> server_log fs server (req_type req) None None;
                (fs2, server2) \<leftarrow> server_clear_log fs1 (server1\<lparr>srv_state := TPC_ABORT\<rparr>);
                Some (fs2, server2\<lparr>srv_state := TPC_WAIT\<rparr>, res\<lparr>res_type := ACK\<rparr>) }
         else Some (fs, server, res\<lparr>res_type := ACK\<rparr>))
      else if req_type req = GETREQ then
        do { key \<leftarrow> req_key req;
             (get_res, value) \<leftarrow> kvserver_get fs server key;
             if get_res \<noteq> 0
             then Some (fs, server,
                        res\<lparr>res_type := ERROR, res_body := Some (GETMSG get_res)\<rparr>)
             else Some (fs, server, res\<lparr>res_type := GETRESP, res_body := value\<rparr>) }
      else Some (fs, server, res))"

text \<open>\<open>None\<close> as request is a message that did not parse.\<close>

definition kvserver_handle ::
  "fs \<Rightarrow> kvserver_t \<Rightarrow> kvrequest_t option \<Rightarrow> (fs \<times> kvserver_t \<times> reply) option" where
  "kvserver_handle fs server req =
     (case req of
        None \<Rightarrow> Some (fs, server, SendResponse
                  (res_calloc\<lparr>res_type := ERROR, res_body := Some ERRMSG_INVALID_REQUEST\<rparr>))
      | Some req \<Rightarrow>
          if req_type req = INDEX then Some (fs, server, SendIndex)
          else do { (fs', server', res) \<leftarrow> kvserver_handle_tpc fs server req res_calloc;
                    Some (fs', server', SendResponse res) })"

subsection \<open>Starting a server\<close>

text \<open>The loop of \<open>kvserver_rebuild_state\<close>: the last entry of the log (NULL if it fails to load).\<close>

partial_function (option) last_entry_loop ::
  "fs \<Rightarrow> tpclog_t \<Rightarrow> logentry_t option \<Rightarrow> (tpclog_t \<times> logentry_t option) option" where
  "last_entry_loop fs log iter =
     (if tpclog_iterate_has_next fs log then
        do { (log', next) \<leftarrow> tpclog_iterate_next fs log; last_entry_loop fs log' next }
      else Some (log, iter))"

definition kvserver_rebuild_state :: "fs \<Rightarrow> kvserver_t \<Rightarrow> (fs \<times> kvserver_t) option" where
  "kvserver_rebuild_state fs server =
     do { (log', iter) \<leftarrow> last_entry_loop fs (tpclog_iterate_begin (srv_log server)) None;
          let server = server\<lparr>srv_log := log'\<rparr>;
          case iter of
            None \<Rightarrow> Some (fs, server)
          | Some entry \<Rightarrow>
              if le_type entry = word_of_nat (msgtype_code PUTREQ)
                 \<or> le_type entry = word_of_nat (msgtype_code DELREQ)
              then Some (fs, server\<lparr>srv_state := TPC_READY\<rparr>)
              else if le_type entry = word_of_nat (msgtype_code COMMIT) then
                do { (fs1, server1) \<leftarrow> do_log fs server;
                     (fs2, server2) \<leftarrow> server_clear_log fs1 server1;
                     Some (fs2, server2\<lparr>srv_state := TPC_WAIT\<rparr>) }
              else if le_type entry = word_of_nat (msgtype_code ABORT) then
                do { (fs1, server1) \<leftarrow> server_clear_log fs server;
                     Some (fs1, server1\<lparr>srv_state := TPC_WAIT\<rparr>) }
              else Some (fs, server) }"

definition kvserver_init ::
  "fs \<Rightarrow> kvserver_t \<Rightarrow> string \<Rightarrow> nat \<Rightarrow> string \<Rightarrow> int \<Rightarrow> (int \<times> fs \<times> kvserver_t) option" where
  "kvserver_init fs server dirname max_threads hostname port =
     (case kvstore_init fs (srv_store server) dirname of
        (ret, fs1, store) \<Rightarrow>
          if ret < 0 then Some (ret, fs1, server\<lparr>srv_store := store\<rparr>)
          else do {
            (ret, fs2, log) \<leftarrow> tpclog_init fs1 (srv_log server) dirname;
            if ret < 0 then Some (ret, fs2, server\<lparr>srv_store := store, srv_log := log\<rparr>)
            else do {
              (fs3, server') \<leftarrow> kvserver_rebuild_state fs2
                 (server\<lparr>srv_store := store, srv_log := log, srv_hostname := hostname,
                         srv_port := port, srv_max_threads := max_threads,
                         srv_state := TPC_INIT\<rparr>);
              Some (0, fs3, server') } })"

definition kvserver_clean :: "fs \<Rightarrow> kvserver_t \<Rightarrow> string list \<Rightarrow> int \<times> fs" where
  "kvserver_clean fs server dents = kvstore_clean fs (srv_store server) dents"

text \<open>
  \<open>kvserver_register_leader\<close>: the request it sends (\<open>None\<close> when the port does not fit
  \<open>port_string\<close>), and its result from the response.
\<close>

definition register_request :: "kvserver_t \<Rightarrow> kvrequest_t option" where
  "register_request server =
     (let port_string = sdec (srv_port server)
      in if length port_string < 6
         then Some \<lparr>req_type = REGISTER, req_key = Some (srv_hostname server),
                    req_val = Some port_string\<rparr>
         else None)"

definition register_result :: "kvresponse_t option \<Rightarrow> int" where
  "register_result res =
     (case res of None \<Rightarrow> 0 | Some r \<Rightarrow> if res_type r = SUCCESS then 1 else 0)"


subsection \<open>Store and log share a directory\<close>

lemma log_path_neq_entry_path [simp, path_simps]: "log_path d i \<noteq> entry_path d h j"
proof
  assume "log_path d i = entry_path d h j"
  then have eq: "dec i @ CHR ''.'' # ''log'' = dec (unat h) @ CHR ''-'' # (dec j @ KVSTORE_FILETYPE)"
    by (simp add: log_path_def entry_path_def TPCLOG_FILETYPE_def)
  have "dec i = dec (unat h) \<and> CHR ''.'' = CHR ''-'' \<and> ''log'' = dec j @ KVSTORE_FILETYPE"
    by (rule digits_prefix_unique [OF dec_digits dec_digits _ _ eq]) simp_all
  then show False by simp
qed

lemma entry_path_neq_log_path [simp, path_simps]: "entry_path d h j \<noteq> log_path d i"
  using log_path_neq_entry_path by metis

lemma log_files_store_frame:
  assumes "store_frame d fs fs'" "log_files fs d rs"
  shows "log_files fs' d rs"
proof -
  have "fs_files fs' (log_path d i) = fs_files fs (log_path d i)" for i
    using assms(1) by (simp add: store_frame_def)
  moreover have "fs_dirs fs' = fs_dirs fs" "fs_root fs' = fs_root fs"
    using assms(1) by (simp_all add: store_frame_def)
  ultimately show ?thesis using assms(2) by (simp add: log_files_def file_readable_def)
qed

lemma kv_rel_log_frame:
  assumes "log_frame d fs fs'" "kv_rel fs d m"
  shows "kv_rel fs' d m"
proof -
  have "fs_files fs' (entry_path d h i) = fs_files fs (entry_path d h i)" for h i
    using assms(1) by (simp add: log_frame_def)
  moreover have dirs: "fs_dirs fs' = fs_dirs fs" "fs_root fs' = fs_root fs"
    using assms(1) by (simp_all add: log_frame_def)
  ultimately have "chain fs' d h es = chain fs d h es" for h es
    by (intro chain_cong)
  then show ?thesis using assms(2) dirs by (simp add: kv_rel_def)
qed

subsection \<open>The abstract participant\<close>

type_synonym kvmap = "string \<rightharpoonup> string"
type_synonym tpc_op = "(string, string) kv_op"
type_synonym participant = "kvmap \<times> tpc_op option"

definition put_verdict :: "string \<Rightarrow> string \<Rightarrow> int" where
  "put_verdict k v =
     (if MAX_KEYLEN < length k \<or> length k = 0 then ERRKEYLEN
      else if MAX_VALLEN < length v then ERRVALLEN else 0)"

definition del_verdict :: "kvmap \<Rightarrow> string \<Rightarrow> int" where
  "del_verdict m k =
     (if MAX_KEYLEN < length k \<or> length k = 0 then ERRKEYLEN
      else if m k = None then ERRNOKEY else 0)"

definition prepare :: "kvmap \<Rightarrow> tpc_op \<Rightarrow> int \<Rightarrow> participant \<times> kvresponse_t" where
  "prepare m op verdict =
     (if verdict = 0 then ((m, Some op), mk_res VOTE (Some MSG_COMMIT))
      else ((m, None), mk_res VOTE (Some (GETMSG verdict))))"

fun participant_step :: "participant \<Rightarrow> kvrequest_t \<Rightarrow> participant \<times> kvresponse_t" where
  "participant_step (m, p) req =
     (case req_type req of
        PUTREQ \<Rightarrow>
          (if p = None
           then prepare m (KPut (the (req_key req)) (the (req_val req)))
                  (put_verdict (the (req_key req)) (the (req_val req)))
           else ((m, p), mk_res ERROR (Some ERRMSG_INVALID_REQUEST)))
      | DELREQ \<Rightarrow>
          (if p = None
           then prepare m (KDel (the (req_key req))) (del_verdict m (the (req_key req)))
           else ((m, p), mk_res ERROR (Some ERRMSG_INVALID_REQUEST)))
      | COMMIT \<Rightarrow> ((case p of None \<Rightarrow> m | Some op \<Rightarrow> kv_apply m op, None), mk_res ACK None)
      | ABORT \<Rightarrow> ((m, None), mk_res ACK None)
      | GETREQ \<Rightarrow>
          (let k = the (req_key req) in
           ((m, p),
            if MAX_KEYLEN < length k then mk_res ERROR (Some (GETMSG ERRKEYLEN))
            else case m k of None \<Rightarrow> mk_res ERROR (Some (GETMSG ERRNOKEY))
                 | Some v \<Rightarrow> mk_res GETRESP (Some v)))
      | _ \<Rightarrow> ((m, p), res_calloc))"

fun op_ok :: "tpc_op \<Rightarrow> bool" where
  "op_ok (KPut k v) \<longleftrightarrow> k \<noteq> [] \<and> key_ok k \<and> val_ok v"
| "op_ok (KDel k) \<longleftrightarrow> k \<noteq> [] \<and> key_ok k"

fun op_rec :: "tpc_op \<Rightarrow> log_rec" where
  "op_rec (KPut k v) = LPut k v"
| "op_rec (KDel k) = LDel k"

definition pending_log :: "tpc_op option \<Rightarrow> log_rec list" where
  "pending_log p = (case p of None \<Rightarrow> [] | Some op \<Rightarrow> [op_rec op])"

text \<open>Server \<open>s\<close> on the directory \<open>d\<close> of \<open>fs\<close> stands for the participant \<open>(m, p)\<close>.\<close>

definition srv_on :: "kvserver_t \<Rightarrow> string \<Rightarrow> bool" where
  "srv_on s d \<longleftrightarrow> store_dirname (srv_store s) = d \<and> log_dirname (srv_log s) = d"

fun srv_rel :: "string \<Rightarrow> fs \<Rightarrow> kvserver_t \<Rightarrow> participant \<Rightarrow> bool" where
  "srv_rel d fs s (m, p) \<longleftrightarrow>
     srv_on s d \<and> kv_rel fs d m \<and> log_rel fs (srv_log s) (pending_log p)
     \<and> (case p of None \<Rightarrow> srv_state s \<in> {TPC_INIT, TPC_WAIT}
        | Some op \<Rightarrow> srv_state s = TPC_READY \<and> op_ok op)"

lemma rec_ok_op_rec: "op_ok op \<Longrightarrow> rec_ok (op_rec op)"
  by (cases op) (simp_all add: key_ok_def val_ok_def)

subsection \<open>Parsing log data\<close>

lemma parse_log_from_spec:
  assumes "i \<le> length k" "NUL \<notin> set k" "length k < len"
  shows "parse_log_from (k @ NUL # t) len i = Some t"
  using assms(1)
proof (induction "length k - i" arbitrary: i)
  case 0
  then show ?case using assms by (subst parse_log_from.simps) (simp add: nth_append)
next
  case (Suc n)
  then have "k ! i \<noteq> NUL" using assms(2) by (metis nth_mem zero_less_Suc zero_less_diff)
  moreover have "parse_log_from (k @ NUL # t) len (i + 1) = Some t"
    using Suc by (intro Suc.hyps) simp_all
  ultimately show ?case
    using Suc assms(3) by (subst parse_log_from.simps) (simp add: nth_append)
qed

lemma parse_log_spec: "cstr k \<Longrightarrow> length k < len \<Longrightarrow> parse_log (k @ NUL # t) len = Some t"
  by (simp add: parse_log_def parse_log_from_spec cstr_def)

subsection \<open>The log applied to the store\<close>

lemma kvserver_put_spec:
  assumes "kv_rel fs (store_dirname (srv_store s)) m" "cstr k" "cstr v"
  shows "\<exists>ret fs'. kvserver_put fs s k v = Some (ret, fs')
     \<and> kv_rel fs' (store_dirname (srv_store s)) (if put_verdict k v = 0 then m(k \<mapsto> v) else m)
     \<and> store_frame (store_dirname (srv_store s)) fs fs'"
proof -
  have check: "kvserver_put_check fs s k v = put_verdict k v"
    using kv_rel_stat [OF assms(1)]
    by (simp add: kvserver_put_check_def put_verdict_def kvstore_put_check_def Let_def)
  have neg: "put_verdict k v = 0 \<or> put_verdict k v < 0"
    by (simp add: put_verdict_def error_codes)
  show ?thesis
  proof (cases "put_verdict k v = 0")
    case True
    then have "entry_ok k v"
      using assms by (auto simp: put_verdict_def entry_ok_def error_codes split: if_splits)
    from kvstore_put_spec [OF assms(1) this] True check show ?thesis
      by (auto simp: kvserver_put_def)
  next
    case False
    with neg check assms(1) show ?thesis by (auto simp: kvserver_put_def Let_def)
  qed
qed

lemma kvserver_del_check_spec:
  assumes "kv_rel fs (store_dirname (srv_store s)) m"
  shows "kvserver_del_check fs s k = Some (del_verdict m k)"
  using kv_rel_stat [OF assms] kvstore_haskey_spec [OF assms, of k]
  by (auto simp: kvserver_del_check_def del_verdict_def kvstore_del_check_def error_codes)

lemma kvserver_del_spec:
  assumes "kv_rel fs (store_dirname (srv_store s)) m"
  shows "\<exists>ret fs'. kvserver_del fs s k = Some (ret, fs')
     \<and> kv_rel fs' (store_dirname (srv_store s)) (if del_verdict m k = 0 then m(k := None) else m)
     \<and> store_frame (store_dirname (srv_store s)) fs fs'"
proof (cases "del_verdict m k = 0")
  case True
  then have "length k \<le> MAX_KEYLEN" by (auto simp: del_verdict_def error_codes split: if_splits)
  from kvstore_del_spec [OF assms this] True kvserver_del_check_spec [OF assms] show ?thesis
    by (auto simp: kvserver_del_def)
next
  case False
  then have "del_verdict m k < 0" by (auto simp: del_verdict_def error_codes split: if_splits)
  with False kvserver_del_check_spec [OF assms] assms show ?thesis
    by (auto simp: kvserver_del_def)
qed

text \<open>What a record does to the map.\<close>

fun rec_apply :: "kvmap \<Rightarrow> log_rec \<Rightarrow> kvmap" where
  "rec_apply m (LPut k v) = (if put_verdict k v = 0 then m(k \<mapsto> v) else m)"
| "rec_apply m (LDel k) = (if del_verdict m k = 0 then m(k := None) else m)"
| "rec_apply m LCommit = m"
| "rec_apply m LAbort = m"

lemma rec_apply_op: "op_ok op \<Longrightarrow> rec_apply m (op_rec op) = kv_apply m op"
  by (cases op) (auto simp: put_verdict_def del_verdict_def key_ok_def val_ok_def error_codes)

lemma rec_apply_twice: "op_ok op \<Longrightarrow> rec_apply (kv_apply m op) (op_rec op) = kv_apply m op"
  by (cases op) (auto simp: put_verdict_def del_verdict_def key_ok_def val_ok_def error_codes)

lemma msgtype_word_inject [simp]:
  "(word_of_nat (msgtype_code a) :: 32 word) = word_of_nat (msgtype_code b) \<longleftrightarrow> a = b"
  by (cases a; cases b) simp_all

lemma do_log_entry_spec:
  assumes "kv_rel fs (store_dirname (srv_store s)) m" "rec_ok r"
  shows "\<exists>fs'. do_log_entry fs s (rec_entry r) = Some fs'
     \<and> kv_rel fs' (store_dirname (srv_store s)) (rec_apply m r)
     \<and> store_frame (store_dirname (srv_store s)) fs fs'"
proof (cases r)
  case (LPut k v)
  then have ok: "cstr k" "cstr v" using assms(2) by simp_all
  have "c_string (v @ [NUL]) = Some v" using ok(2) by simp
  with kvserver_put_spec [OF assms(1) ok] ok LPut show ?thesis
    by (auto simp: do_log_entry_def rec_entry_def parse_log_spec)
next
  case (LDel k)
  have "c_string (k @ [NUL]) = Some k" using assms(2) LDel by simp
  with kvserver_del_spec [OF assms(1), of k] LDel show ?thesis
    by (auto simp: do_log_entry_def rec_entry_def)
qed (use assms in \<open>auto simp: do_log_entry_def rec_entry_def\<close>)

lemma log_rel_store_frame:
  "\<lbrakk>store_frame (log_dirname log) fs fs'; log_rel fs log rs\<rbrakk> \<Longrightarrow> log_rel fs' log rs"
  by (auto simp: log_rel_def log_files_store_frame)

lemma do_log_loop_spec:
  assumes "srv_on s d" "kv_rel fs d m" "log_rel fs (srv_log s) rs"
    and "log_iterpos (srv_log s) = i" "i \<le> length rs"
  shows "\<exists>fs'. do_log_loop fs s =
       Some (fs', s\<lparr>srv_log := (srv_log s)\<lparr>log_iterpos := length rs\<rparr>\<rparr>)
     \<and> kv_rel fs' d (foldl rec_apply m (drop i rs)) \<and> log_rel fs' (srv_log s) rs
     \<and> store_frame d fs fs'"
  using assms
proof (induction "length rs - i" arbitrary: i fs s m)
  case 0
  then have i: "i = length rs" by simp
  then have "\<not> tpclog_iterate_has_next fs (srv_log s)"
    using tpclog_has_next_spec [OF 0(4)] 0(5) by simp
  moreover have "s\<lparr>srv_log := (srv_log s)\<lparr>log_iterpos := length rs\<rparr>\<rparr> = s"
    using 0(5) i by simp
  ultimately show ?case
    using 0 i by (subst do_log_loop.simps) simp
next
  case (Suc n)
  then have lt: "i < length rs" by simp
  have n: "n = length rs - (i + 1)" using Suc.hyps(2) by simp
  let ?log = "(srv_log s)\<lparr>log_iterpos := i + 1\<rparr>"
  let ?s = "s\<lparr>srv_log := ?log\<rparr>"
  have d: "store_dirname (srv_store s) = d" "log_dirname (srv_log s) = d"
    using Suc.prems(1) by (simp_all add: srv_on_def)
  have has: "tpclog_iterate_has_next fs (srv_log s)"
    using tpclog_has_next_spec [OF Suc.prems(3)] Suc.prems(4) lt by simp
  have next_entry: "tpclog_iterate_next fs (srv_log s) = Some (?log, Some (rec_entry (rs ! i)))"
    using tpclog_iterate_next_spec [OF Suc.prems(3)] Suc.prems(4) lt by simp
  have "rec_ok (rs ! i)"
    using Suc.prems(3) lt by (simp add: log_rel_def log_files_def list_all_length)
  then obtain fs1 where fs1: "do_log_entry fs s (rec_entry (rs ! i)) = Some fs1"
      "kv_rel fs1 d (rec_apply m (rs ! i))" "store_frame d fs fs1"
    using do_log_entry_spec Suc.prems(2) d(1) by blast
  have "log_rel fs1 ?log rs"
    using Suc.prems(3) fs1(3) d(2) log_rel_store_frame by simp
  then obtain fs2 where "do_log_loop fs1 ?s =
       Some (fs2, ?s\<lparr>srv_log := (srv_log ?s)\<lparr>log_iterpos := length rs\<rparr>\<rparr>)"
     "kv_rel fs2 d (foldl rec_apply (rec_apply m (rs ! i)) (drop (i + 1) rs))"
     "log_rel fs2 (srv_log ?s) rs" "store_frame d fs1 fs2"
    using Suc.hyps(1) [of "i + 1" ?s fs1 "rec_apply m (rs ! i)"] n Suc.prems(1) fs1(2) lt
    by (auto simp: srv_on_def)
  moreover have "foldl rec_apply m (drop i rs)
      = foldl rec_apply (rec_apply m (rs ! i)) (drop (i + 1) rs)"
    using lt by (simp flip: Cons_nth_drop_Suc)
  ultimately show ?case
    using has next_entry fs1 store_frame_trans [OF fs1(3)]
    by (subst do_log_loop.simps) simp
qed

text \<open>\<open>do_log\<close> applies the whole log, in order, and leaves the log as it is.\<close>

lemma do_log_spec:
  assumes "srv_on s d" "kv_rel fs d m" "log_rel fs (srv_log s) rs"
  shows "\<exists>fs' s'. do_log fs s = Some (fs', s') \<and> srv_on s' d \<and> srv_state s' = srv_state s
     \<and> kv_rel fs' d (foldl rec_apply m rs) \<and> log_rel fs' (srv_log s') rs"
proof -
  let ?s = "s\<lparr>srv_log := tpclog_iterate_begin (srv_log s)\<rparr>"
  have "srv_on ?s d" "log_rel fs (srv_log ?s) rs" "log_iterpos (srv_log ?s) = 0"
    using assms by (simp_all add: srv_on_def tpclog_iterate_begin_def)
  from do_log_loop_spec [OF this(1) assms(2) this(2,3)] assms(1) show ?thesis
    by (force simp: do_log_def srv_on_def tpclog_iterate_begin_def)
qed

lemma server_log_spec:
  assumes "srv_on s d" "kv_rel fs d m" "log_rel fs (srv_log s) rs" "rec_ok r"
    and "t = rec_type r" "k = rec_key r" "v = rec_value r"
  shows "\<exists>fs' s'. server_log fs s t k v = Some (fs', s') \<and> srv_on s' d
     \<and> srv_state s' = srv_state s \<and> kv_rel fs' d m \<and> log_rel fs' (srv_log s') (rs @ [r])"
proof -
  from tpclog_log_spec [OF assms(3,4)] obtain fs' where
    "tpclog_log fs (srv_log s) t k v
       = Some (0, fs', (srv_log s)\<lparr>log_nextid := log_nextid (srv_log s) + 1\<rparr>)"
    "log_rel fs' ((srv_log s)\<lparr>log_nextid := log_nextid (srv_log s) + 1\<rparr>) (rs @ [r])"
    "log_frame (log_dirname (srv_log s)) fs fs'"
    unfolding assms(5-7) by blast
  then show ?thesis
    using assms(1,2) kv_rel_log_frame by (auto simp: server_log_def srv_on_def)
qed

lemma server_clear_log_spec:
  assumes "srv_on s d" "kv_rel fs d m" "log_rel fs (srv_log s) rs"
  shows "\<exists>fs' s'. server_clear_log fs s = Some (fs', s') \<and> srv_on s' d
     \<and> srv_state s' = srv_state s \<and> kv_rel fs' d m \<and> log_rel fs' (srv_log s') []"
proof -
  from tpclog_clear_log_spec [OF assms(3)] obtain fs' where
    "tpclog_clear_log fs (srv_log s) = Some (0, fs', (srv_log s)\<lparr>log_nextid := 0\<rparr>)"
    "log_rel fs' ((srv_log s)\<lparr>log_nextid := 0\<rparr>) []"
    "log_frame (log_dirname (srv_log s)) fs fs'"
    by blast
  then show ?thesis
    using assms(1,2) kv_rel_log_frame by (auto simp: server_clear_log_def srv_on_def)
qed

subsection \<open>Every request refines a step of the participant\<close>

text \<open>The second phase, as the steps it is made of: the COMMIT record, the log applied, the log cleared.\<close>

lemma commit_steps:
  assumes "srv_rel d fs s (m, Some op)"
  shows "\<exists>fs1 s1 fs2 s2 fs3 s3.
     server_log fs s COMMIT None None = Some (fs1, s1)
   \<and> do_log fs1 (s1\<lparr>srv_state := TPC_COMMIT\<rparr>) = Some (fs2, s2)
   \<and> server_clear_log fs2 s2 = Some (fs3, s3)
   \<and> srv_on s1 d \<and> srv_on s2 d \<and> srv_on s3 d
   \<and> kv_rel fs1 d m \<and> log_rel fs1 (srv_log s1) [op_rec op, LCommit]
   \<and> kv_rel fs2 d (kv_apply m op) \<and> log_rel fs2 (srv_log s2) [op_rec op, LCommit]
   \<and> kv_rel fs3 d (kv_apply m op) \<and> log_rel fs3 (srv_log s3) []"
proof -
  have on: "srv_on s d" and kv: "kv_rel fs d m" and ok: "op_ok op"
    and log: "log_rel fs (srv_log s) [op_rec op]"
    using assms by (simp_all add: pending_log_def)
  from server_log_spec [OF on kv log, of LCommit COMMIT None None] obtain fs1 s1 where
    1: "server_log fs s COMMIT None None = Some (fs1, s1)" "srv_on s1 d" "kv_rel fs1 d m"
       "log_rel fs1 (srv_log s1) [op_rec op, LCommit]" by auto
  have on1: "srv_on (s1\<lparr>srv_state := TPC_COMMIT\<rparr>) d"
      "log_rel fs1 (srv_log (s1\<lparr>srv_state := TPC_COMMIT\<rparr>)) [op_rec op, LCommit]"
    using 1 by (simp_all add: srv_on_def)
  from do_log_spec [OF on1(1) 1(3) on1(2)] obtain fs2 s2 where
    2: "do_log fs1 (s1\<lparr>srv_state := TPC_COMMIT\<rparr>) = Some (fs2, s2)" "srv_on s2 d"
       "kv_rel fs2 d (kv_apply m op)" "log_rel fs2 (srv_log s2) [op_rec op, LCommit]"
    using ok by (auto simp: rec_apply_op)
  from server_clear_log_spec [OF 2(2-4)] 1 2 show ?thesis by blast
qed

lemma handle_put:
  assumes rel: "srv_rel d fs s (m, p)" and req: "req_type req = PUTREQ" "req_key req = Some k"
    "req_val req = Some v" "cstr k" "cstr v"
  shows "\<exists>fs' s'. kvserver_handle_tpc fs s req res_calloc
       = Some (fs', s', snd (participant_step (m, p) req))
     \<and> srv_rel d fs' s' (fst (participant_step (m, p) req))"
proof (cases p)
  case None
  then have state: "srv_state s = TPC_INIT \<or> srv_state s = TPC_WAIT" using rel by auto
  have on: "srv_on s d" and kv: "kv_rel fs d m" and log: "log_rel fs (srv_log s) []"
    using rel None by (simp_all add: pending_log_def)
  have check: "kvserver_put_check fs s k v = put_verdict k v"
    using kv_rel_stat [OF kv] on
    by (simp add: kvserver_put_check_def put_verdict_def kvstore_put_check_def srv_on_def Let_def)
  show ?thesis
  proof (cases "put_verdict k v = 0")
    case True
    then have ok: "op_ok (KPut k v)"
      using req by (auto simp: put_verdict_def key_ok_def val_ok_def error_codes split: if_splits)
    from server_log_spec [OF on kv log rec_ok_op_rec [OF ok], of PUTREQ "Some k" "Some v"]
    obtain fs' s' where "server_log fs s PUTREQ (Some k) (Some v) = Some (fs', s')"
      "srv_on s' d" "kv_rel fs' d m" "log_rel fs' (srv_log s') [op_rec (KPut k v)]" by auto
    then show ?thesis
      using True None req state check ok
      by (simp add: kvserver_handle_tpc_def prepare_def pending_log_def srv_on_def)
  next
    case False
    then show ?thesis
      using None req state check rel
      by (simp add: kvserver_handle_tpc_def prepare_def)
  qed
next
  case (Some op)
  then show ?thesis using rel req by (simp add: kvserver_handle_tpc_def)
qed

lemma handle_del:
  assumes rel: "srv_rel d fs s (m, p)" and req: "req_type req = DELREQ" "req_key req = Some k" "cstr k"
  shows "\<exists>fs' s'. kvserver_handle_tpc fs s req res_calloc
       = Some (fs', s', snd (participant_step (m, p) req))
     \<and> srv_rel d fs' s' (fst (participant_step (m, p) req))"
proof (cases p)
  case None
  then have state: "srv_state s = TPC_INIT \<or> srv_state s = TPC_WAIT" using rel by auto
  have on: "srv_on s d" and kv: "kv_rel fs d m" and log: "log_rel fs (srv_log s) []"
    using rel None by (simp_all add: pending_log_def)
  have check: "kvserver_del_check fs s k = Some (del_verdict m k)"
    using kvserver_del_check_spec on kv by (simp add: srv_on_def)
  show ?thesis
  proof (cases "del_verdict m k = 0")
    case True
    then have ok: "op_ok (KDel k)"
      using req by (auto simp: del_verdict_def key_ok_def error_codes split: if_splits)
    from server_log_spec [OF on kv log rec_ok_op_rec [OF ok], of DELREQ "Some k" None]
    obtain fs' s' where "server_log fs s DELREQ (Some k) None = Some (fs', s')"
      "srv_on s' d" "kv_rel fs' d m" "log_rel fs' (srv_log s') [op_rec (KDel k)]" by auto
    then show ?thesis
      using True None req state check ok
      by (simp add: kvserver_handle_tpc_def prepare_def pending_log_def srv_on_def)
  next
    case False
    then show ?thesis
      using None req state check rel
      by (simp add: kvserver_handle_tpc_def prepare_def)
  qed
next
  case (Some op)
  then show ?thesis using rel req by (simp add: kvserver_handle_tpc_def)
qed

lemma handle_commit:
  assumes rel: "srv_rel d fs s (m, p)" and req: "req_type req = COMMIT"
  shows "\<exists>fs' s'. kvserver_handle_tpc fs s req res_calloc
       = Some (fs', s', snd (participant_step (m, p) req))
     \<and> srv_rel d fs' s' (fst (participant_step (m, p) req))"
proof (cases p)
  case None
  then show ?thesis using rel req by (auto simp: kvserver_handle_tpc_def)
next
  case (Some op)
  with commit_steps [of d fs s m op] rel obtain fs1 s1 fs2 s2 fs3 s3 where
    "server_log fs s COMMIT None None = Some (fs1, s1)"
    "do_log fs1 (s1\<lparr>srv_state := TPC_COMMIT\<rparr>) = Some (fs2, s2)"
    "server_clear_log fs2 s2 = Some (fs3, s3)"
    "srv_on s3 d" "kv_rel fs3 d (kv_apply m op)" "log_rel fs3 (srv_log s3) []" by blast
  then show ?thesis
    using Some rel req by (simp add: kvserver_handle_tpc_def pending_log_def srv_on_def)
qed

lemma handle_abort:
  assumes rel: "srv_rel d fs s (m, p)" and req: "req_type req = ABORT"
  shows "\<exists>fs' s'. kvserver_handle_tpc fs s req res_calloc
       = Some (fs', s', snd (participant_step (m, p) req))
     \<and> srv_rel d fs' s' (fst (participant_step (m, p) req))"
proof (cases p)
  case None
  then show ?thesis using rel req by (auto simp: kvserver_handle_tpc_def)
next
  case (Some op)
  have on: "srv_on s d" and kv: "kv_rel fs d m" and log: "log_rel fs (srv_log s) [op_rec op]"
    using rel Some by (simp_all add: pending_log_def)
  from server_log_spec [OF on kv log, of LAbort ABORT None None] obtain fs1 s1 where
    1: "server_log fs s ABORT None None = Some (fs1, s1)" "srv_on s1 d" "kv_rel fs1 d m"
       "log_rel fs1 (srv_log s1) [op_rec op, LAbort]" by auto
  then have "srv_on (s1\<lparr>srv_state := TPC_ABORT\<rparr>) d"
      "log_rel fs1 (srv_log (s1\<lparr>srv_state := TPC_ABORT\<rparr>)) [op_rec op, LAbort]"
    by (simp_all add: srv_on_def)
  from server_clear_log_spec [OF this(1) 1(3) this(2)] obtain fs2 s2 where
    "server_clear_log fs1 (s1\<lparr>srv_state := TPC_ABORT\<rparr>) = Some (fs2, s2)" "srv_on s2 d"
    "kv_rel fs2 d m" "log_rel fs2 (srv_log s2) []" by blast
  with 1 Some rel req show ?thesis
    by (simp add: kvserver_handle_tpc_def pending_log_def srv_on_def)
qed

lemma handle_get:
  assumes rel: "srv_rel d fs s (m, p)" and req: "req_type req = GETREQ" "req_key req = Some k"
  shows "kvserver_handle_tpc fs s req res_calloc = Some (fs, s, snd (participant_step (m, p) req))"
proof -
  have "kv_rel fs (store_dirname (srv_store s)) m" using rel by (simp add: srv_on_def)
  from kvstore_get_spec [OF this, of k] req show ?thesis
    by (auto simp: kvserver_handle_tpc_def kvserver_get_def error_codes split: option.splits)
qed

lemma kvserver_handle_tpc_refines:
  assumes rel: "srv_rel d fs s P" and ok: "request_ok req" "request_complete req"
  shows "\<exists>fs' s'. kvserver_handle_tpc fs s req res_calloc
       = Some (fs', s', snd (participant_step P req))
     \<and> srv_rel d fs' s' (fst (participant_step P req))"
proof -
  obtain m p where P: "P = (m, p)" by (cases P)
  show ?thesis
  proof (cases "req_type req")
    case PUTREQ
    with ok obtain k v where "req_key req = Some k" "req_val req = Some v" "cstr k" "cstr v"
      by (auto simp: request_complete_def request_ok_def)
    with handle_put PUTREQ rel P show ?thesis by blast
  next
    case DELREQ
    with ok obtain k where "req_key req = Some k" "cstr k"
      by (auto simp: request_complete_def request_ok_def)
    with handle_del DELREQ rel P show ?thesis by blast
  next
    case GETREQ
    with ok obtain k where "req_key req = Some k" by (auto simp: request_complete_def)
    with handle_get GETREQ rel P show ?thesis by (auto simp: Let_def)
  next
    case COMMIT
    with handle_commit rel P show ?thesis by blast
  next
    case ABORT
    with handle_abort rel P show ?thesis by blast
  qed (use rel P in \<open>simp_all add: kvserver_handle_tpc_def\<close>)
qed

subsection \<open>Restart after a crash\<close>

lemma last_entry_loop_spec:
  assumes "log_rel fs log rs" "log_iterpos log \<le> length rs"
  shows "last_entry_loop fs log it = Some (log\<lparr>log_iterpos := length rs\<rparr>,
     if log_iterpos log < length rs then Some (rec_entry (last rs)) else it)"
  using assms
proof (induction "length rs - log_iterpos log" arbitrary: log it)
  case 0
  then have "\<not> tpclog_iterate_has_next fs log" using tpclog_has_next_spec by simp
  moreover have "log\<lparr>log_iterpos := length rs\<rparr> = log" using 0 by simp
  ultimately show ?case using 0 by (subst last_entry_loop.simps) simp
next
  case (Suc n)
  let ?i = "log_iterpos log"
  have lt: "?i < length rs" and n: "n = length rs - (?i + 1)" using Suc.hyps(2) by simp_all
  have has: "tpclog_iterate_has_next fs log" using tpclog_has_next_spec [OF Suc.prems(1)] lt by simp
  have "last_entry_loop fs (log\<lparr>log_iterpos := ?i + 1\<rparr>) (Some (rec_entry (rs ! ?i)))
      = Some (log\<lparr>log_iterpos := length rs\<rparr>,
          if ?i + 1 < length rs then Some (rec_entry (last rs)) else Some (rec_entry (rs ! ?i)))"
    using Suc.hyps(1) [of "log\<lparr>log_iterpos := ?i + 1\<rparr>"] n Suc.prems(1) lt by simp
  moreover have "?i + 1 = length rs \<Longrightarrow> rs ! ?i = last rs"
    by (metis add_diff_cancel_right' last_conv_nth list.size(3) not_less0 lt)
  ultimately show ?case
    using has lt tpclog_iterate_next_spec [OF Suc.prems(1) lt]
    by (subst last_entry_loop.simps) auto
qed

lemma rebuild_spec:
  assumes on: "srv_on s d" and kv: "kv_rel fs d m" and log: "log_rel fs (srv_log s) rs"
    and init: "srv_state s = TPC_INIT"
  shows "\<exists>fs' s'. kvserver_rebuild_state fs s = Some (fs', s') \<and> srv_on s' d
     \<and> (rs = [] \<longrightarrow> fs' = fs \<and> srv_state s' = TPC_INIT \<and> log_rel fs' (srv_log s') [])
     \<and> (\<forall>op. rs \<noteq> [] \<and> last rs = op_rec op \<longrightarrow>
          fs' = fs \<and> srv_state s' = TPC_READY \<and> log_rel fs' (srv_log s') rs)
     \<and> (rs \<noteq> [] \<and> last rs = LCommit \<longrightarrow> srv_state s' = TPC_WAIT
          \<and> kv_rel fs' d (foldl rec_apply m rs) \<and> log_rel fs' (srv_log s') [])
     \<and> (rs \<noteq> [] \<and> last rs = LAbort \<longrightarrow> srv_state s' = TPC_WAIT
          \<and> kv_rel fs' d m \<and> log_rel fs' (srv_log s') [])"
proof -
  let ?log = "(srv_log s)\<lparr>log_iterpos := length rs\<rparr>"
  let ?s = "s\<lparr>srv_log := ?log\<rparr>"
  have loop: "last_entry_loop fs (tpclog_iterate_begin (srv_log s)) None
      = Some (?log, if rs = [] then None else Some (rec_entry (last rs)))"
    using last_entry_loop_spec [of fs "tpclog_iterate_begin (srv_log s)" rs None] log
    by (simp add: tpclog_iterate_begin_def)
  have s: "srv_on ?s d" "log_rel fs (srv_log ?s) rs" using on log by (simp_all add: srv_on_def)
  show ?thesis
  proof (cases "rs = []")
    case True
    then show ?thesis using loop s init by (simp add: kvserver_rebuild_state_def)
  next
    case False
    show ?thesis
    proof (cases "last rs")
      case (LPut k v)
      then show ?thesis using LPut False loop s
        by (simp add: kvserver_rebuild_state_def rec_entry_def srv_on_def)
    next
      case (LDel k)
      then show ?thesis using False loop s
        by (simp add: kvserver_rebuild_state_def rec_entry_def srv_on_def)
    next
      case LCommit
      have ne: "LCommit \<noteq> op_rec op" for op by (cases op) simp_all
      from do_log_spec [OF s(1) kv s(2)] obtain fs1 s1 where
        1: "do_log fs ?s = Some (fs1, s1)" "srv_on s1 d" "kv_rel fs1 d (foldl rec_apply m rs)"
           "log_rel fs1 (srv_log s1) rs" by blast
      from server_clear_log_spec [OF 1(2-4)] obtain fs2 s2 where
        "server_clear_log fs1 s1 = Some (fs2, s2)" "srv_on s2 d"
        "kv_rel fs2 d (foldl rec_apply m rs)" "log_rel fs2 (srv_log s2) []" by blast
      with 1 LCommit False loop ne show ?thesis
        by (simp add: kvserver_rebuild_state_def rec_entry_def srv_on_def)
    next
      case LAbort
      have ne: "LAbort \<noteq> op_rec op" for op by (cases op) simp_all
      from server_clear_log_spec [OF s(1) kv s(2)] obtain fs2 s2 where
        "server_clear_log fs ?s = Some (fs2, s2)" "srv_on s2 d"
        "kv_rel fs2 d m" "log_rel fs2 (srv_log s2) []" by blast
      with LAbort False loop ne show ?thesis
        by (simp add: kvserver_rebuild_state_def rec_entry_def srv_on_def)
    qed
  qed
qed

text \<open>The participant a log and a map on disk stand for.\<close>

definition recovered :: "kvmap \<Rightarrow> log_rec list \<Rightarrow> participant" where
  "recovered m rs =
     (if rs = [] then (m, None)
      else case last rs of
             LPut k v \<Rightarrow> (m, Some (KPut k v))
           | LDel k \<Rightarrow> (m, Some (KDel k))
           | LCommit \<Rightarrow> (foldl rec_apply m rs, None)
           | LAbort \<Rightarrow> (m, None))"

lemma kv_apply_twice [simp]: "kv_apply (kv_apply m op) op = kv_apply m op"
  by (cases op) simp_all

lemma recovered_Nil [simp]: "recovered m [] = (m, None)"
  by (simp add: recovered_def)

lemma recovered_op [simp]: "recovered m [op_rec op] = (m, Some op)"
  by (cases op) (simp_all add: recovered_def)

lemma recovered_commit [simp]:
  "op_ok op \<Longrightarrow> recovered m [op_rec op, LCommit] = (kv_apply m op, None)"
  by (simp add: recovered_def rec_apply_op)

lemma kvserver_init_spec:
  assumes kv: "kv_rel fs d m" and log: "log_files fs d rs"
    and form: "rs = [] \<or> last rs \<in> {LCommit, LAbort} \<or> (\<exists>op. op_ok op \<and> rs = [op_rec op])"
  shows "\<exists>fs' s'. kvserver_init fs s0 d mt host port = Some (0, fs', s')
     \<and> srv_rel d fs' s' (recovered m rs)"
proof -
  have "fs_stat fs d" using kv by (rule kv_rel_stat)
  then have store: "kvstore_init fs (srv_store s0) d = (0, fs, (srv_store s0)\<lparr>store_dirname := d\<rparr>)"
    by (simp add: kvstore_init_def)
  let ?log = "(srv_log s0)\<lparr>log_dirname := d, log_nextid := length rs\<rparr>"
  let ?s = "s0\<lparr>srv_store := (srv_store s0)\<lparr>store_dirname := d\<rparr>, srv_log := ?log,
      srv_hostname := host, srv_port := port, srv_max_threads := mt, srv_state := TPC_INIT\<rparr>"
  have s: "srv_on ?s d" "log_rel fs (srv_log ?s) rs" "srv_state ?s = TPC_INIT"
    using tpclog_init_spec(2) [OF log] by (simp_all add: srv_on_def)
  from rebuild_spec [OF s(1) kv s(2,3)] obtain fs' s' where
    1: "kvserver_rebuild_state fs ?s = Some (fs', s')" "srv_on s' d"
    and empty: "rs = [] \<Longrightarrow> fs' = fs \<and> srv_state s' = TPC_INIT \<and> log_rel fs' (srv_log s') []"
    and ready: "\<And>op. rs \<noteq> [] \<Longrightarrow> last rs = op_rec op \<Longrightarrow>
          fs' = fs \<and> srv_state s' = TPC_READY \<and> log_rel fs' (srv_log s') rs"
    and commit: "rs \<noteq> [] \<Longrightarrow> last rs = LCommit \<Longrightarrow> srv_state s' = TPC_WAIT
          \<and> kv_rel fs' d (foldl rec_apply m rs) \<and> log_rel fs' (srv_log s') []"
    and abort: "rs \<noteq> [] \<Longrightarrow> last rs = LAbort \<Longrightarrow> srv_state s' = TPC_WAIT
          \<and> kv_rel fs' d m \<and> log_rel fs' (srv_log s') []"
    by blast
  have init: "kvserver_init fs s0 d mt host port = Some (0, fs', s')"
    using store tpclog_init_spec(1) [OF log, of "srv_log s0"] 1(1)
    by (simp add: kvserver_init_def)
  consider "rs = []" | "rs \<noteq> []" "last rs = LCommit" | "rs \<noteq> []" "last rs = LAbort"
    | op where "op_ok op" "rs = [op_rec op]"
    using form by blast
  then have "srv_rel d fs' s' (recovered m rs)"
  proof cases
    case 1
    then show ?thesis using empty kv \<open>srv_on s' d\<close> by (auto simp: pending_log_def)
  next
    case 2
    then show ?thesis using commit \<open>srv_on s' d\<close> by (simp add: recovered_def pending_log_def)
  next
    case 3
    then show ?thesis using abort \<open>srv_on s' d\<close> by (simp add: recovered_def pending_log_def)
  next
    case 4
    then show ?thesis using ready [of op] kv \<open>srv_on s' d\<close> by (auto simp: pending_log_def)
  qed
  with init show ?thesis by blast
qed

text \<open>A crash between requests loses nothing.\<close>

lemma restart_at_rest:
  assumes "srv_rel d fs s P"
  shows "\<exists>fs' s'. kvserver_init fs s0 d mt host port = Some (0, fs', s') \<and> srv_rel d fs' s' P"
proof -
  obtain m p where P: "P = (m, p)" by (cases P)
  have kv: "kv_rel fs d m" and log: "log_files fs d (pending_log p)"
    using assms P by (auto simp: log_rel_def srv_on_def)
  have "pending_log p = [] \<or> (\<exists>op. op_ok op \<and> pending_log p = [op_rec op])"
    using assms P by (cases p) (auto simp: pending_log_def)
  moreover have "recovered m (pending_log p) = (m, p)"
    by (cases p) (simp_all add: pending_log_def)
  ultimately show ?thesis using kvserver_init_spec [OF kv log] P by metis
qed

text \<open>A crash inside COMMIT, once its record is on disk, leaves a committed operation.\<close>

lemma restart_in_commit:
  assumes "srv_rel d fs s (m, Some op)"
  shows "\<exists>fs1 s1 fs2 s2.
     server_log fs s COMMIT None None = Some (fs1, s1)
   \<and> do_log fs1 (s1\<lparr>srv_state := TPC_COMMIT\<rparr>) = Some (fs2, s2)
   \<and> (\<exists>fs' s'. kvserver_init fs1 s0 d mt host port = Some (0, fs', s')
        \<and> srv_rel d fs' s' (kv_apply m op, None))
   \<and> (\<exists>fs' s'. kvserver_init fs2 s0 d mt host port = Some (0, fs', s')
        \<and> srv_rel d fs' s' (kv_apply m op, None))"
proof -
  have ok: "op_ok op" using assms by simp
  from commit_steps [OF assms] obtain fs1 s1 fs2 s2 where
    1: "server_log fs s COMMIT None None = Some (fs1, s1)"
       "do_log fs1 (s1\<lparr>srv_state := TPC_COMMIT\<rparr>) = Some (fs2, s2)"
    and on: "srv_on s1 d" "srv_on s2 d"
    and kv: "kv_rel fs1 d m" "kv_rel fs2 d (kv_apply m op)"
    and log: "log_rel fs1 (srv_log s1) [op_rec op, LCommit]"
       "log_rel fs2 (srv_log s2) [op_rec op, LCommit]" by blast
  have files: "log_files fs1 d [op_rec op, LCommit]" "log_files fs2 d [op_rec op, LCommit]"
    using log on by (simp_all add: log_rel_def srv_on_def)
  from kvserver_init_spec [OF kv(1) files(1), of s0 mt host port]
    kvserver_init_spec [OF kv(2) files(2), of s0 mt host port] 1 ok
  show ?thesis by (auto simp del: srv_rel.simps)
qed

text \<open>A life of a server: requests, and crashes followed by a restart.\<close>

datatype srv_event = Request kvrequest_t | Restart kvserver_t nat string int

fun srv_run :: "string \<Rightarrow> fs \<Rightarrow> kvserver_t \<Rightarrow> srv_event list \<Rightarrow> (fs \<times> kvserver_t) option" where
  "srv_run d fs s [] = Some (fs, s)"
| "srv_run d fs s (Request req # es) =
     do { (fs', s', _) \<leftarrow> kvserver_handle_tpc fs s req res_calloc; srv_run d fs' s' es }"
| "srv_run d fs s (Restart s0 mt host port # es) =
     do { (_, fs', s') \<leftarrow> kvserver_init fs s0 d mt host port; srv_run d fs' s' es }"

fun participant_run :: "participant \<Rightarrow> srv_event list \<Rightarrow> participant" where
  "participant_run P [] = P"
| "participant_run P (Request req # es) = participant_run (fst (participant_step P req)) es"
| "participant_run P (Restart s0 mt host port # es) = participant_run P es"

fun event_ok :: "srv_event \<Rightarrow> bool" where
  "event_ok (Request req) \<longleftrightarrow> request_ok req \<and> request_complete req"
| "event_ok (Restart s0 mt host port) \<longleftrightarrow> True"

lemma srv_run_refines:
  assumes "srv_rel d fs s P" "list_all event_ok es"
  shows "\<exists>fs' s'. srv_run d fs s es = Some (fs', s') \<and> srv_rel d fs' s' (participant_run P es)"
  using assms
proof (induction es arbitrary: fs s P)
  case Nil
  then show ?case by simp
next
  case (Cons e es)
  show ?case
  proof (cases e)
    case (Request req)
    with Cons.prems kvserver_handle_tpc_refines [OF Cons.prems(1), of req] obtain fs1 s1 where
      "kvserver_handle_tpc fs s req res_calloc = Some (fs1, s1, snd (participant_step P req))"
      "srv_rel d fs1 s1 (fst (participant_step P req))" by auto
    with Cons Request show ?thesis by simp
  next
    case (Restart s0 mt host port)
    from restart_at_rest [OF Cons.prems(1), of s0 mt host port] obtain fs1 s1 where
      "kvserver_init fs s0 d mt host port = Some (0, fs1, s1)" "srv_rel d fs1 s1 P" by blast
    with Cons Restart show ?thesis by simp
  qed
qed

end
