(* ===== verification/KVRecovery.thy ===== *)
theory KVRecovery
  imports KVServer
begin

text \<open>
  Faults the follower of hw4/src/kvserver.c does not survive: a crash inside
  \<open>tpclog_clear_log\<close>, which removes the first record first, and a directory the server may
  not write to, where the result of \<open>tpclog_log\<close> is ignored. Both are stated of the
  operations as they are; they show what the hypotheses of the refinement in \<open>KVServer\<close>
  exclude.
\<close>

subsection \<open>A crash while the log is cleared\<close>

text \<open>\<open>tpclog_clear_log\<close> on the log of a finished COMMIT: its first round removes \<open>0.log\<close>, and the
  function goes on from there.\<close>

lemma clear_log_first_round:
  assumes rel: "log_rel fs log [r, LCommit]" and d: "log_dirname log = d"
  shows "\<exists>fs1 fs'. clear_log_step fs d 0 = Inr (fs1, 1) \<and> clear_log_loop fs1 d 1 = Some (0, fs')
     \<and> tpclog_clear_log fs log = Some (0, fs', log\<lparr>log_nextid := 0\<rparr>)
     \<and> fs1 = fs\<lparr>fs_files := (fs_files fs)(log_path d 0 := None)\<rparr>"
proof -
  have files: "log_files fs d [r, LCommit]" using rel d by (simp add: log_rel_def)
  let ?fs1 = "log_cleared fs d 1"
  have step: "clear_log_step fs d 0 = Inr (?fs1, 1)"
    using clear_log_step_spec [OF files, of 0] by simp
  have loop: "clear_log_loop ?fs1 d 1 = Some (0, log_cleared fs d 2)"
    using clear_log_loop_spec [OF files, of 1] by (simp add: numeral_2_eq_2)
  have "?fs1 = fs\<lparr>fs_files := (fs_files fs)(log_path d 0 := None)\<rparr>"
    using log_cleared_Suc [of fs d 0] by simp
  moreover have "tpclog_clear_log fs log = Some (0, log_cleared fs d 2, log\<lparr>log_nextid := 0\<rparr>)"
    using step loop d by (simp add: tpclog_clear_log_def clear_log_loop.simps [of fs])
  ultimately show ?thesis using step loop by blast
qed

lemma log_end_0: "\<not> fs_stat fs (log_path d 0) \<Longrightarrow> log_end fs d 0 = Some 0"
  by (subst log_end.simps) simp

lemma init_without_first_record:
  assumes kv: "kv_rel fs d m" and none: "\<not> fs_stat fs (log_path d 0)"
  shows "\<exists>s. kvserver_init fs s0 d mt host port = Some (0, fs, s) \<and> srv_on s d
     \<and> srv_state s = TPC_INIT \<and> log_nextid (srv_log s) = 0"
proof -
  have "fs_stat fs d" using kv by (rule kv_rel_stat)
  then show ?thesis
    using none log_end_0 [OF none]
    by (simp add: kvserver_init_def kvstore_init_def tpclog_init_def kvserver_rebuild_state_def
        tpclog_iterate_begin_def last_entry_loop.simps tpclog_iterate_has_next_def srv_on_def)
qed

text \<open>With a record left at position 1, the next operation is logged in front of it.\<close>

lemma put_in_front_of_stale_record:
  assumes files: "log_files fs d [r, LCommit]"
    and fs1: "fs1 = fs\<lparr>fs_files := (fs_files fs)(log_path d 0 := None)\<rparr>"
    and s: "srv_on s d" "log_nextid (srv_log s) = 0"
    and ok: "op_ok (KPut k v)"
  shows "\<exists>fs2 s2. server_log fs1 s PUTREQ (Some k) (Some v) = Some (fs2, s2)
     \<and> log_files fs2 d [LPut k v, LCommit] \<and> log_frame d fs1 fs2"
proof -
  let ?p = "log_path d 0"
  let ?f = "\<lparr>fcontents = rec_bytes (LPut k v), freadable = True, fwritable = False\<rparr>"
  let ?fs2 = "fs1\<lparr>fs_files := (fs_files fs1)(?p \<mapsto> ?f)\<rparr>"
  have "fs_dirs fs1 ?p = None" "fs_files fs1 ?p = None"
    using files fs1 by (auto simp: log_files_def)
  moreover have "dir_writable fs1 ?p" using log_files_dir_writable [OF files] fs1 by simp
  ultimately have "tpclog_log fs1 (srv_log s) PUTREQ (Some k) (Some v)
      = Some (0, ?fs2, (srv_log s)\<lparr>log_nextid := 1\<rparr>)"
    using s by (simp add: tpclog_log_def log_data_def fs_open_creat_rusr_def fs_write_def
        rec_bytes_def srv_on_def Let_def)
  then have "server_log fs1 s PUTREQ (Some k) (Some v)
      = Some (?fs2, s\<lparr>srv_log := (srv_log s)\<lparr>log_nextid := 1\<rparr>\<rparr>)"
    by (simp add: server_log_def)
  moreover have "log_files ?fs2 d [LPut k v, LCommit]"
    using files ok unfolding log_files_def fs1
    by (auto simp: less_Suc_eq nth_Cons' file_readable_def key_ok_def val_ok_def)
  moreover have "log_frame d fs1 ?fs2" by (auto simp: log_frame_def)
  ultimately show ?thesis by blast
qed

lemma stale_commit_applied:
  assumes kv: "kv_rel fs d m" and log: "log_rel fs log [r, LCommit]" "log_dirname log = d"
    and ok: "op_ok (KPut k v)"
    and req: "req = \<lparr>req_type = PUTREQ, req_key = Some k, req_val = Some v\<rparr>"
  shows "\<exists>fs1 fs'. clear_log_step fs d 0 = Inr (fs1, 1) \<and> clear_log_loop fs1 d 1 = Some (0, fs')
     \<and> tpclog_clear_log fs log = Some (0, fs', log\<lparr>log_nextid := 0\<rparr>)
     \<and> (\<exists>s1 fs2 s2 fs3 s3.
       kvserver_init fs1 s0 d mt host port = Some (0, fs1, s1)
     \<and> kvserver_handle_tpc fs1 s1 req res_calloc
         = Some (fs2, s2, mk_res VOTE (Some MSG_COMMIT))
     \<and> kvserver_init fs2 s0 d mt host port = Some (0, fs3, s3)
     \<and> srv_rel d fs3 s3 (m(k \<mapsto> v), None))"
proof -
  have files: "log_files fs d [r, LCommit]" using log by (simp add: log_rel_def)
  from clear_log_first_round [OF log] obtain fs1 fs' where
    clear: "clear_log_step fs d 0 = Inr (fs1, 1)" "clear_log_loop fs1 d 1 = Some (0, fs')"
      "tpclog_clear_log fs log = Some (0, fs', log\<lparr>log_nextid := 0\<rparr>)"
    and fs1: "fs1 = fs\<lparr>fs_files := (fs_files fs)(log_path d 0 := None)\<rparr>" by blast
  have "log_frame d fs fs1" using fs1 by (simp add: log_frame_def)
  then have kv1: "kv_rel fs1 d m" using kv kv_rel_log_frame by blast
  have "\<not> fs_stat fs1 (log_path d 0)"
    using files fs1 by (simp add: fs_stat_def log_files_def)
  from init_without_first_record [OF kv1 this] obtain s1 where
    s1: "kvserver_init fs1 s0 d mt host port = Some (0, fs1, s1)" "srv_on s1 d"
      "srv_state s1 = TPC_INIT" "log_nextid (srv_log s1) = 0" by blast
  from put_in_front_of_stale_record [OF files fs1 s1(2,4) ok] obtain fs2 s2 where
    2: "server_log fs1 s1 PUTREQ (Some k) (Some v) = Some (fs2, s2)"
      "log_files fs2 d [LPut k v, LCommit]" "log_frame d fs1 fs2" by blast
  have "kvserver_put_check fs1 s1 k v = 0"
    using kv_rel_stat [OF kv1] s1(2) ok
    by (simp add: kvserver_put_check_def kvstore_put_check_def srv_on_def key_ok_def val_ok_def)
  then have vote: "kvserver_handle_tpc fs1 s1 req res_calloc
      = Some (fs2, s2\<lparr>srv_state := TPC_READY\<rparr>, mk_res VOTE (Some MSG_COMMIT))"
    using 2(1) s1(3) req by (simp add: kvserver_handle_tpc_def)
  have "kv_rel fs2 d m" using kv1 2(3) kv_rel_log_frame by blast
  from kvserver_init_spec [OF this 2(2), of s0 mt host port] obtain fs3 s3 where
    "kvserver_init fs2 s0 d mt host port = Some (0, fs3, s3)"
    "srv_rel d fs3 s3 (recovered m [op_rec (KPut k v), LCommit])" by auto
  moreover have "recovered m [op_rec (KPut k v), LCommit] = (m(k \<mapsto> v), None)"
    using recovered_commit [OF ok] by simp
  ultimately show ?thesis using clear s1(1) vote by auto
qed

subsection \<open>A vote for an operation that was not logged\<close>

text \<open>In a directory without write permission nothing is logged, and yet the vote is COMMIT.\<close>

lemma log_denied:
  assumes "\<not> dir_writable fs (log_path (log_dirname log) (log_nextid log))"
    "fs_files fs (log_path (log_dirname log) (log_nextid log)) = None"
    "t \<in> {PUTREQ, DELREQ, COMMIT, ABORT}"
  shows "tpclog_log fs log t k v = Some (ERRFILACCESS, fs, log)"
  using assms by (auto simp: tpclog_log_def fs_open_creat_rusr_def Let_def)

lemma unlogged_steps:
  assumes dir: "fs_dirs fs d = Some False" "\<not> fs_root fs" and on: "srv_on s d"
    and fresh: "\<not> fs_stat fs (log_path d 0)" "log_nextid (srv_log s) = 0"
    and t: "t \<in> {PUTREQ, DELREQ, COMMIT, ABORT}"
  shows "server_log fs s t k v = Some (fs, s)"
    and "do_log fs s = Some (fs, s\<lparr>srv_log := (srv_log s)\<lparr>log_iterpos := 0\<rparr>\<rparr>)"
    and "server_clear_log fs s = Some (fs, s)"
proof -
  have "\<not> dir_writable fs (log_path d 0)" using dir by (simp add: dir_writable_def)
  moreover have "fs_files fs (log_path d 0) = None" using fresh by (simp add: fs_stat_def)
  ultimately show "server_log fs s t k v = Some (fs, s)"
    using log_denied [of fs "srv_log s" t k v] on fresh(2) t
    by (simp add: server_log_def srv_on_def)
  show "do_log fs s = Some (fs, s\<lparr>srv_log := (srv_log s)\<lparr>log_iterpos := 0\<rparr>\<rparr>)"
    using on fresh
    by (simp add: do_log_def do_log_loop.simps tpclog_iterate_has_next_def
        tpclog_iterate_begin_def srv_on_def)
  show "server_clear_log fs s = Some (fs, s)"
    using on fresh
    by (simp add: server_clear_log_def tpclog_clear_log_def clear_log_loop.simps clear_log_step_def
        srv_on_def)
qed

lemma vote_and_ack_unlogged:
  assumes dir: "fs_dirs fs d = Some False" "\<not> fs_root fs" and on: "srv_on s d"
    and fresh: "\<not> fs_stat fs (log_path d 0)" "log_nextid (srv_log s) = 0"
    and state: "srv_state s \<in> {TPC_INIT, TPC_WAIT}" and ok: "op_ok (KPut k v)"
    and req: "put = \<lparr>req_type = PUTREQ, req_key = Some k, req_val = Some v\<rparr>"
      "commit = \<lparr>req_type = COMMIT, req_key = None, req_val = None\<rparr>"
  shows "\<exists>s1 s2.
     kvserver_handle_tpc fs s put res_calloc = Some (fs, s1, mk_res VOTE (Some MSG_COMMIT))
   \<and> kvserver_handle_tpc fs s1 commit res_calloc = Some (fs, s2, mk_res ACK None)"
proof -
  have "kvserver_put_check fs s k v = 0"
    using dir on ok by (simp add: kvserver_put_check_def kvstore_put_check_def fs_stat_def
        srv_on_def key_ok_def val_ok_def)
  then have vote: "kvserver_handle_tpc fs s put res_calloc
      = Some (fs, s\<lparr>srv_state := TPC_READY\<rparr>, mk_res VOTE (Some MSG_COMMIT))"
    using unlogged_steps(1) [OF dir on fresh, of PUTREQ] state req
    by (auto simp: kvserver_handle_tpc_def)
  let ?s = "s\<lparr>srv_state := TPC_READY\<rparr>" and ?c = "s\<lparr>srv_state := TPC_COMMIT\<rparr>"
  let ?w = "?c\<lparr>srv_log := (srv_log ?c)\<lparr>log_iterpos := 0\<rparr>\<rparr>"
  have "server_log fs ?s COMMIT None None = Some (fs, ?s)"
    using on fresh by (intro unlogged_steps(1) [OF dir]) (simp_all add: srv_on_def)
  moreover have "do_log fs ?c = Some (fs, ?w)"
    using on fresh by (intro unlogged_steps(2) [OF dir _ _ _, of _ COMMIT]) (simp_all add: srv_on_def)
  moreover have "server_clear_log fs ?w = Some (fs, ?w)"
    using on fresh by (intro unlogged_steps(3) [OF dir _ _ _, of _ COMMIT]) (simp_all add: srv_on_def)
  ultimately show ?thesis using vote req by (simp add: kvserver_handle_tpc_def)
qed

end
