(* ===== verification/FollowerRing.thy ===== *)
theory FollowerRing
  imports MD5 KVTypes
begin

text \<open>
  The list of followers of hw4/src/tpcleader.c: a circular doubly linked list of
  \<open>tpcfollower_t\<close> in memory, ordered by id, with \<open>tpcleader_register\<close>,
  \<open>tpcleader_get_primary\<close> and \<open>tpcleader_get_successor\<close>. Memory is a map from addresses to
  followers; \<open>malloc\<close> is the address it returns, which is one not in use.

  \<open>leader_rel h leader ms\<close> says that the memory holds exactly one ring, and that its members
  in order are \<open>ms\<close>, sorted by id without repetition and no more than the capacity. The
  lemmas show the three operations to be insertion, search and rotation on \<open>ms\<close>.
\<close>

record tpcfollower_t =
  fl_id :: u64
  fl_host :: string
  fl_port :: "32 word"
  fl_next :: nat
  fl_prev :: nat

type_synonym fheap = "nat \<rightharpoonup> tpcfollower_t"

record tpcleader_t =
  follower_capacity :: "32 word"
  follower_count :: "32 word"
  redundancy :: "32 word"
  followers_head :: "nat option"

definition tpcleader_init :: "32 word \<Rightarrow> 32 word \<Rightarrow> tpcleader_t" where
  "tpcleader_init capacity red =
     \<lparr>follower_capacity = capacity, follower_count = 0,
      redundancy = (if capacity < red then capacity else red), followers_head = None\<rparr>"

subsection \<open>Registration\<close>

text \<open>Writes through a pointer; \<open>None\<close> when it does not point to a follower.\<close>

definition set_next :: "fheap \<Rightarrow> nat \<Rightarrow> nat \<Rightarrow> fheap option" where
  "set_next h a v = do { f \<leftarrow> h a; Some (h(a \<mapsto> f\<lparr>fl_next := v\<rparr>)) }"

definition set_prev :: "fheap \<Rightarrow> nat \<Rightarrow> nat \<Rightarrow> fheap option" where
  "set_prev h a v = do { f \<leftarrow> h a; Some (h(a \<mapsto> f\<lparr>fl_prev := v\<rparr>)) }"

text \<open>The four assignments that link a new follower in front of \<open>cur\<close>.\<close>

definition link_before :: "fheap \<Rightarrow> nat \<Rightarrow> nat \<Rightarrow> fheap option" where
  "link_before h new cur =
     do { h1 \<leftarrow> set_next h new cur;
          c \<leftarrow> h1 cur;
          h2 \<leftarrow> set_prev h1 new (fl_prev c);
          h3 \<leftarrow> set_prev h2 cur new;
          n \<leftarrow> h3 new;
          set_next h3 (fl_prev n) new }"

text \<open>The loop of \<open>tpcleader_register\<close> and what follows it.\<close>

partial_function (option) register_loop ::
  "fheap \<Rightarrow> tpcleader_t \<Rightarrow> nat \<Rightarrow> u64 \<Rightarrow> nat \<Rightarrow> nat \<Rightarrow> (fheap \<times> tpcleader_t) option" where
  "register_loop h leader new new_id first cur =
     do { c \<leftarrow> h cur;
          if new_id < fl_id c then
            do { h' \<leftarrow> link_before h new cur;
                 Some (h', leader\<lparr>followers_head :=
                             (if cur = first then Some new else followers_head leader),
                           follower_count := follower_count leader + 1\<rparr>) }
          else if fl_id c = new_id then Some (h, leader)
          else if fl_next c \<noteq> first then register_loop h leader new new_id first (fl_next c)
          else do { head \<leftarrow> followers_head leader;
                    h' \<leftarrow> link_before h new head;
                    Some (h', leader\<lparr>follower_count := follower_count leader + 1\<rparr>) } }"

text \<open>
  The id is the hash of \<open>PORT:HOST\<close>, which \<open>sprintf\<close> writes into
  \<open>char address[strlen(host) + strlen(port)]\<close>: neither the colon nor the end of the string was
  counted. \<open>room n\<close> is what the compiler gives an array of \<open>n\<close> bytes, at least \<open>n\<close>, and more
  where it keeps the stack aligned; \<open>None\<close> is the overflow.
\<close>

definition follower_address :: "(nat \<Rightarrow> nat) \<Rightarrow> string \<Rightarrow> string \<Rightarrow> string option" where
  "follower_address room host port =
     (if length (port @ CHR '':'' # host) < room (length host + length port)
      then Some (port @ CHR '':'' # host) else None)"

definition new_follower :: "string \<Rightarrow> string \<Rightarrow> string \<Rightarrow> nat \<Rightarrow> tpcfollower_t" where
  "new_follower host port address new =
     \<lparr>fl_id = strhash64 address, fl_host = host, fl_port = atoi port, fl_next = new, fl_prev = new\<rparr>"

text \<open>The part of \<open>tpcleader_register\<close> between lock and unlock.\<close>

definition register_locked ::
  "fheap \<Rightarrow> tpcleader_t \<Rightarrow> nat \<Rightarrow> u64 \<Rightarrow> (fheap \<times> tpcleader_t) option" where
  "register_locked h leader new new_id =
     (case followers_head leader of
        None \<Rightarrow> Some (h, leader\<lparr>followers_head := Some new,
                               follower_count := follower_count leader + 1\<rparr>)
      | Some first \<Rightarrow> register_loop h leader new new_id first first)"

definition tpcleader_register ::
  "(nat \<Rightarrow> nat) \<Rightarrow> nat \<Rightarrow> fheap \<Rightarrow> tpcleader_t \<Rightarrow> kvrequest_t \<Rightarrow> kvresponse_t
     \<Rightarrow> (fheap \<times> tpcleader_t \<times> kvresponse_t) option" where
  "tpcleader_register room new h leader req res =
     (if follower_count leader = follower_capacity leader
      then Some (h, leader, res\<lparr>res_type := ERROR, res_body := Some ERRMSG_FOLLOWER_CAPACITY\<rparr>)
      else do { key \<leftarrow> req_key req;
                val \<leftarrow> req_val req;
                address \<leftarrow> follower_address room key val;
                let f = new_follower key val address new;
                (h', leader') \<leftarrow> register_locked (h(new \<mapsto> f)) leader new (fl_id f);
                Some (h', leader', res\<lparr>res_type := SUCCESS\<rparr>) })"

subsection \<open>Choosing followers\<close>

text \<open>
  \<open>tpcleader_get_primary\<close>: the inner option is the pointer it returns, with NULL below
  capacity; the outer one is \<open>None\<close> when the list is empty and the head is NULL.
\<close>

partial_function (option) primary_loop :: "fheap \<Rightarrow> u64 \<Rightarrow> nat \<Rightarrow> nat \<Rightarrow> nat option" where
  "primary_loop h hash first cur =
     do { c \<leftarrow> h cur;
          if hash < fl_id c then Some cur
          else if fl_next c \<noteq> first then primary_loop h hash first (fl_next c)
          else Some first }"

definition tpcleader_get_primary :: "fheap \<Rightarrow> tpcleader_t \<Rightarrow> string \<Rightarrow> nat option option" where
  "tpcleader_get_primary h leader key =
     (if follower_count leader < follower_capacity leader then Some None
      else do { head \<leftarrow> followers_head leader;
                pri \<leftarrow> primary_loop h (strhash64 key) head head;
                Some (Some pri) })"

definition tpcleader_get_successor :: "fheap \<Rightarrow> nat \<Rightarrow> nat option" where
  "tpcleader_get_successor h predecessor = map_option fl_next (h predecessor)"

subsection \<open>Rings\<close>

text \<open>A segment: the nodes \<open>xs\<close> linked in order, entered from \<open>p\<close> and left to \<open>n\<close>.\<close>

fun links :: "fheap \<Rightarrow> nat \<Rightarrow> nat list \<Rightarrow> nat \<Rightarrow> bool" where
  "links h p [] n \<longleftrightarrow> True"
| "links h p (x # xs) n \<longleftrightarrow>
     (\<exists>f. h x = Some f \<and> fl_prev f = p \<and> fl_next f = hd (xs @ [n])) \<and> links h x xs n"

definition ring :: "fheap \<Rightarrow> nat list \<Rightarrow> bool" where
  "ring h xs \<longleftrightarrow> xs \<noteq> [] \<and> distinct xs \<and> links h (last xs) xs (hd xs)"

lemma links_append:
  "links h p (xs @ ys) n \<longleftrightarrow> links h p xs (hd (ys @ [n])) \<and> links h (last (p # xs)) ys n"
proof (induction xs arbitrary: p)
  case Nil
  then show ?case by simp
next
  case (Cons x xs)
  then show ?case by (cases xs) auto
qed

lemma links_cong:
  "(\<And>x. x \<in> set xs \<Longrightarrow> h' x = h x) \<Longrightarrow> links h' p xs n = links h p xs n"
  by (induction xs arbitrary: p) simp_all

lemma hd_append_last [simp]: "hd (xs @ a # b # ys) = hd (xs @ [a])"
  by (cases xs) simp_all

lemma ring_rotate: "ring h (xs @ ys) \<Longrightarrow> ring h (ys @ xs)"
  by (cases xs; cases ys) (auto simp: ring_def links_append)

text \<open>Linking changes pointers only.\<close>

type_synonym member = "u64 \<times> string \<times> 32 word"

definition fdata :: "tpcfollower_t \<Rightarrow> member" where
  "fdata f = (fl_id f, fl_host f, fl_port f)"

definition contents :: "fheap \<Rightarrow> nat \<Rightarrow> member option" where
  "contents h a = map_option fdata (h a)"

lemma contents_set:
  "set_next h a v = Some h' \<Longrightarrow> contents h' = contents h"
  "set_prev h a v = Some h' \<Longrightarrow> contents h' = contents h"
  by (auto simp: set_next_def set_prev_def contents_def fdata_def
      split: Option.bind_splits intro!: ext)

lemma contents_link: "link_before h new c = Some h' \<Longrightarrow> contents h' = contents h"
  by (auto simp: link_before_def contents_set split: Option.bind_splits)

text \<open>Linking in front of the first node is appending at the end.\<close>

lemma link_before_ring:
  assumes ring: "ring h (c # zs)" and new: "h new = Some f" "new \<notin> set (c # zs)"
  shows "\<exists>h'. link_before h new c = Some h' \<and> ring h' (c # zs @ [new])"
proof (cases zs rule: rev_cases)
  case Nil
  then obtain g where g: "h c = Some g" "fl_prev g = c" "fl_next g = c"
    using ring by (auto simp: ring_def)
  have ne: "c \<noteq> new" "new \<noteq> c" using new by auto
  let ?h = "h(new \<mapsto> f\<lparr>fl_next := c, fl_prev := c\<rparr>, c \<mapsto> g\<lparr>fl_prev := new, fl_next := new\<rparr>)"
  have "link_before h new c = Some ?h"
    using g new ne by (simp add: link_before_def set_next_def set_prev_def fun_upd_twist)
  moreover have "ring ?h (c # zs @ [new])" using Nil ne by (auto simp: ring_def)
  ultimately show ?thesis by blast
next
  case (snoc ys l)
  from ring snoc obtain g where g: "h c = Some g" "fl_prev g = l" "fl_next g = hd (ys @ [l])"
    and mid: "links h c ys l" and l: "h l \<noteq> None"
    and ys: "distinct ys" "c \<notin> set ys" "l \<notin> set ys" "c \<noteq> l"
    by (auto simp: ring_def links_append)
  from l obtain k where k: "h l = Some k" by blast
  have lk: "fl_prev k = last (c # ys)" "fl_next k = c"
    using ring snoc k by (auto simp: ring_def links_append)
  have ne: "c \<noteq> new" "new \<noteq> c" "l \<noteq> new" "new \<noteq> l" "new \<notin> set ys" "l \<noteq> c"
    using new(2) snoc ys by auto
  let ?h = "h(new \<mapsto> f\<lparr>fl_next := c, fl_prev := l\<rparr>, c \<mapsto> g\<lparr>fl_prev := new\<rparr>,
      l \<mapsto> k\<lparr>fl_next := new\<rparr>)"
  have "link_before h new c = Some ?h"
    using g k new(1) ne ys(4) by (simp add: link_before_def set_next_def set_prev_def)
  moreover have "links ?h c ys l = links h c ys l"
    using ys ne by (intro links_cong) auto
  then have "ring ?h (c # zs @ [new])"
    using g k lk mid ys ne snoc by (auto simp: ring_def links_append)
  ultimately show ?thesis by blast
qed

subsection \<open>The members of a leader\<close>

text \<open>What registering a member does: nothing when its id is there, else insertion by id.\<close>

definition register_member :: "member \<Rightarrow> member list \<Rightarrow> member list" where
  "register_member m ms = (if fst m \<in> fst ` set ms then ms else insort_key fst m ms)"

definition ring_at :: "fheap \<Rightarrow> tpcleader_t \<Rightarrow> nat list \<Rightarrow> member list \<Rightarrow> bool" where
  "ring_at h leader xs ms \<longleftrightarrow>
     followers_head leader = (if xs = [] then None else Some (hd xs))
     \<and> (xs \<noteq> [] \<longrightarrow> ring h xs)
     \<and> map (contents h) xs = map Some ms
     \<and> sorted_wrt (<) (map fst ms)"

definition leader_rel :: "fheap \<Rightarrow> tpcleader_t \<Rightarrow> member list \<Rightarrow> bool" where
  "leader_rel h leader ms \<longleftrightarrow>
     (\<exists>xs. ring_at h leader xs ms)
     \<and> unat (follower_count leader) = length ms
     \<and> length ms \<le> unat (follower_capacity leader)
     \<and> redundancy leader \<le> follower_capacity leader"

lemma insort_key_at:
  assumes "\<forall>u \<in> set us. fst u < fst m" "vs = [] \<or> fst m \<le> fst (hd vs)"
  shows "insort_key fst m (us @ vs) = us @ m # vs"
  using assms
proof (induction us)
  case Nil
  then show ?case by (cases vs) simp_all
next
  case (Cons u us)
  then show ?case by (auto simp: not_le)
qed

lemma ring_dom: "ring h xs \<Longrightarrow> x \<in> set xs \<Longrightarrow> h x \<noteq> None"
  by (auto simp: ring_def links_append dest!: split_list)

text \<open>The two places where a new follower is linked.\<close>

lemma link_in_front:
  assumes ring: "ring h (ys @ c # zs)"
    and data: "map (contents h) (ys @ c # zs) = map Some (us @ mc # vs)" "length us = length ys"
    and sorted: "sorted_wrt (<) (map fst (us @ mc # vs))"
    and new: "h new = Some f" "new \<notin> set (ys @ c # zs)"
    and between: "\<forall>u \<in> set us. fst u < fl_id f" "fl_id f < fst mc"
  shows "\<exists>h'. link_before h new c = Some h' \<and> ring h' (ys @ new # c # zs)
     \<and> map (contents h') (ys @ new # c # zs) = map Some (us @ fdata f # mc # vs)
     \<and> register_member (fdata f) (us @ mc # vs) = us @ fdata f # mc # vs
     \<and> sorted_wrt (<) (map fst (us @ fdata f # mc # vs))"
proof -
  have "ring h (c # zs @ ys)" using ring_rotate [of h ys "c # zs"] ring by simp
  from link_before_ring [OF this new(1)] new(2) obtain h' where
    h': "link_before h new c = Some h'" "ring h' ((c # zs @ ys) @ [new])" by auto
  then have "ring h' (ys @ new # c # zs)"
    using ring_rotate [of h' "c # zs" "ys @ [new]"] by simp
  moreover have "map (contents h') (ys @ new # c # zs) = map Some (us @ fdata f # mc # vs)"
    using data new(1) contents_link [OF h'(1)] by (simp add: contents_def)
  moreover have f: "fst (fdata f) = fl_id f" by (simp add: fdata_def)
  then have "fl_id f \<notin> fst ` set (us @ mc # vs)"
    using between sorted by (auto simp: sorted_wrt_append)
  then have "register_member (fdata f) (us @ mc # vs) = us @ fdata f # mc # vs"
    using f between by (simp add: register_member_def insort_key_at)
  moreover have "sorted_wrt (<) (map fst (us @ fdata f # mc # vs))"
    using sorted between f by (auto simp: sorted_wrt_append)
  ultimately show ?thesis using h'(1) by blast
qed

lemma link_at_end:
  assumes ring: "ring h xs" and data: "map (contents h) xs = map Some ms"
    and sorted: "sorted_wrt (<) (map fst ms)"
    and new: "h new = Some f" "new \<notin> set xs" and last: "\<forall>u \<in> set ms. fst u < fl_id f"
  shows "\<exists>h'. link_before h new (hd xs) = Some h' \<and> ring h' (xs @ [new])
     \<and> map (contents h') (xs @ [new]) = map Some (ms @ [fdata f])
     \<and> register_member (fdata f) ms = ms @ [fdata f]
     \<and> sorted_wrt (<) (map fst (ms @ [fdata f]))"
proof -
  obtain c zs where xs: "xs = c # zs" using ring by (cases xs) (auto simp: ring_def)
  from link_before_ring [of h c zs new f] ring new xs obtain h' where
    h': "link_before h new c = Some h'" "ring h' (xs @ [new])" by auto
  moreover have "map (contents h') (xs @ [new]) = map Some (ms @ [fdata f])"
    using data new(1) contents_link [OF h'(1)] by (simp add: contents_def)
  moreover have f: "fst (fdata f) = fl_id f" by (simp add: fdata_def)
  then have "fl_id f \<notin> fst ` set ms" using last by auto
  then have "register_member (fdata f) ms = ms @ [fdata f]"
    using f last insort_key_at [of ms "fdata f" "[]"] by (simp add: register_member_def)
  moreover have "sorted_wrt (<) (map fst (ms @ [fdata f]))"
    using sorted last f by (auto simp: sorted_wrt_append)
  ultimately show ?thesis using xs by auto
qed

text \<open>The loop has registered \<open>f\<close> with the members \<open>ms\<close>.\<close>

definition registered ::
  "tpcleader_t \<Rightarrow> tpcfollower_t \<Rightarrow> member list \<Rightarrow> (fheap \<times> tpcleader_t) option \<Rightarrow> bool" where
  "registered leader f ms result \<longleftrightarrow>
     (\<exists>h' head' xs'. result = Some (h', leader\<lparr>followers_head := head', follower_count :=
           follower_count leader + (if fl_id f \<in> fst ` set ms then 0 else 1)\<rparr>)
     \<and> ring_at h' (leader\<lparr>followers_head := head'\<rparr>) xs' (register_member (fdata f) ms))"

lemma registered_found:
  assumes "ring_at h leader xs ms" "fl_id f \<in> fst ` set ms"
  shows "registered leader f ms (Some (h, leader))"
  unfolding registered_def using assms
  by (intro exI [of _ h] exI [of _ "followers_head leader"] exI [of _ xs])
    (simp add: register_member_def fdata_def)

lemma registered_linked:
  assumes "fl_id f \<notin> fst ` set ms" "head' = Some (hd xs')" "ring h' xs'"
    and "map (contents h') xs' = map Some (register_member (fdata f) ms)"
    and "sorted_wrt (<) (map fst (register_member (fdata f) ms))"
  shows "registered leader f ms (Some (h', leader\<lparr>followers_head := head',
     follower_count := follower_count leader + 1\<rparr>))"
  unfolding registered_def using assms
  by (intro exI [of _ h'] exI [of _ head'] exI [of _ xs'])
    (auto simp: ring_at_def ring_def)

lemma ring_node:
  assumes "ring h (ys @ c # zs)" "map (contents h) (ys @ c # zs) = map Some (us @ mc # vs)"
    "length us = length ys"
  obtains g where "h c = Some g" "fl_next g = hd (zs @ [hd (ys @ [c])])" "fdata g = mc"
    "fl_id g = fst mc" "length vs = length zs"
proof -
  have "contents h c = Some mc" using assms(2,3) by simp
  then obtain g where "h c = Some g" "fdata g = mc" by (auto simp: contents_def)
  moreover from this have "fl_next g = hd (zs @ [hd (ys @ [c])])"
    using assms(1) by (cases ys; cases zs) (auto simp: ring_def links_append)
  moreover have "length vs = length zs" using arg_cong [OF assms(2), of length] assms(3) by simp
  ultimately show thesis using that by (auto simp: fdata_def)
qed

lemma register_loop_stop:
  assumes "ring h (ys @ c # zs)" "followers_head leader = Some (hd (ys @ [c]))"
    and "map (contents h) (ys @ c # zs) = map Some (us @ mc # vs)" "length us = length ys"
    and "sorted_wrt (<) (map fst (us @ mc # vs))"
    and "h new = Some f" "new \<notin> set (ys @ c # zs)"
    and "\<forall>u \<in> set us. fst u < fl_id f" and "fl_id f \<le> fst mc"
  shows "registered leader f (us @ mc # vs)
     (register_loop h leader new (fl_id f) (hd (ys @ [c])) c)"
proof -
  obtain g where g: "h c = Some g" "fl_id g = fst mc" using ring_node assms(1,3,4) by metis
  show ?thesis
  proof (cases "fl_id f = fst mc")
    case True
    have "ring_at h leader (ys @ c # zs) (us @ mc # vs)"
      using assms(1-5) by (cases ys) (auto simp: ring_at_def)
    with True g show ?thesis
      by (subst register_loop.simps) (simp add: registered_found)
  next
    case False
    then have less: "fl_id f < fst mc" using assms(9) by simp
    from link_in_front [OF assms(1,3-8) this] obtain h' where
      h': "link_before h new c = Some h'" "ring h' (ys @ new # c # zs)"
      "map (contents h') (ys @ new # c # zs) = map Some (us @ fdata f # mc # vs)"
      "register_member (fdata f) (us @ mc # vs) = us @ fdata f # mc # vs"
      "sorted_wrt (<) (map fst (us @ fdata f # mc # vs))" by blast
    have notin: "fl_id f \<notin> fst ` set (us @ mc # vs)"
      using less assms(5,8) by (auto simp: sorted_wrt_append)
    have "(c = hd (ys @ [c])) = (ys = [])"
      using assms(1) by (cases ys) (auto simp: ring_def)
    then have "(if c = hd (ys @ [c]) then Some new else followers_head leader)
        = Some (hd (ys @ new # c # zs))"
      using assms(2) by (cases ys) auto
    then show ?thesis
      using registered_linked [OF notin _ h'(2), of _ leader] h' g less
      by (subst register_loop.simps) simp
  qed
qed

lemma register_loop_spec:
  assumes "ring h (ys @ c # zs)" "followers_head leader = Some (hd (ys @ [c]))"
    and "map (contents h) (ys @ c # zs) = map Some (us @ mc # vs)" "length us = length ys"
    and "sorted_wrt (<) (map fst (us @ mc # vs))"
    and "h new = Some f" "new \<notin> set (ys @ c # zs)"
    and "\<forall>u \<in> set us. fst u < fl_id f" and "ms = us @ mc # vs"
  shows "registered leader f ms (register_loop h leader new (fl_id f) (hd (ys @ [c])) c)"
  using assms
proof (induction zs arbitrary: ys c us mc vs)
  case (Nil ys c us mc vs)
  obtain g where g: "h c = Some g" "fl_next g = hd (ys @ [c])" "fl_id g = fst mc" "vs = []"
    using ring_node [OF Nil.prems(1,3,4)] by auto
  show ?case
  proof (cases "fl_id f \<le> fst mc")
    case True
    with register_loop_stop [OF Nil.prems(1-8)] Nil.prems(9) show ?thesis by simp
  next
    case False
    then have last: "\<forall>u \<in> set ms. fst u < fl_id f" using Nil.prems(8,9) g(4) by auto
    with link_at_end [of h "ys @ [c]" ms new f] Nil.prems(1,3,5-7,9) obtain h' where
      h': "link_before h new (hd (ys @ [c])) = Some h'" "ring h' (ys @ [c, new])"
      "map (contents h') (ys @ [c, new]) = map Some (register_member (fdata f) ms)"
      "sorted_wrt (<) (map fst (register_member (fdata f) ms))" by auto
    have notin: "fl_id f \<notin> fst ` set ms" using last by auto
    have same: "leader\<lparr>followers_head := Some (hd (ys @ [c])), follower_count := n\<rparr>
        = leader\<lparr>follower_count := n\<rparr>" for n
      using Nil.prems(2) by (cases leader) simp
    have head: "followers_head leader = Some (hd (ys @ [c, new]))"
      using Nil.prems(2) by (cases ys) auto
    then have "registered leader f ms
        (Some (h', leader\<lparr>follower_count := follower_count leader + 1\<rparr>))"
      using registered_linked [OF notin head h'(2-4), of leader] by (simp add: same)
    with False g h'(1) Nil.prems(2) show ?thesis by (subst register_loop.simps) auto
  qed
next
  case (Cons z zs)
  obtain g where g: "h c = Some g" "fl_next g = z" "fl_id g = fst mc" "length vs = Suc (length zs)"
    using ring_node [OF Cons.prems(1,3,4)] by auto
  then obtain mz vs' where vs: "vs = mz # vs'" by (cases vs) auto
  show ?case
  proof (cases "fl_id f \<le> fst mc")
    case True
    with register_loop_stop [OF Cons.prems(1-8)] Cons.prems(9) show ?thesis by simp
  next
    case False
    have hd: "hd ((ys @ [c]) @ [z]) = hd (ys @ [c])" by (cases ys) simp_all
    have "z \<noteq> hd (ys @ [c])" using Cons.prems(1) by (cases ys) (auto simp: ring_def)
    moreover have "registered leader f ms
        (register_loop h leader new (fl_id f) (hd ((ys @ [c]) @ [z])) z)"
      by (rule Cons.IH [of "ys @ [c]" z "us @ [mc]" mz vs']) (use Cons.prems False vs hd in auto)
    ultimately show ?thesis using False g hd by (subst register_loop.simps) auto
  qed
qed

lemma register_locked_spec:
  assumes at: "ring_at h leader xs ms" and new: "h new = None"
    and f: "fl_next f = new" "fl_prev f = new"
  shows "registered leader f ms (register_locked (h(new \<mapsto> f)) leader new (fl_id f))"
proof (cases xs)
  case Nil
  then have "ring (h(new \<mapsto> f)) [new]" "contents (h(new \<mapsto> f)) new = Some (fdata f)" "ms = []"
    using at f by (auto simp: ring_at_def ring_def contents_def)
  then show ?thesis
    using registered_linked [of f ms "Some new" "[new]" "h(new \<mapsto> f)" leader] at Nil
    by (simp add: register_locked_def ring_at_def register_member_def)
next
  case (Cons c zs)
  have ring: "ring h (c # zs)" using at Cons by (simp add: ring_at_def)
  have notin: "new \<notin> set (c # zs)" using ring_dom [OF ring, of new] new by blast
  let ?h = "h(new \<mapsto> f)"
  have links: "links ?h p (c # zs) n = links h p (c # zs) n" for p n
    using notin by (intro links_cong) auto
  have ring': "ring ?h ([] @ c # zs)"
    using ring links by (simp add: ring_def del: links.simps)
  obtain mc vs where ms: "ms = mc # vs" using at Cons by (cases ms) (auto simp: ring_at_def)
  have "map (contents ?h) (c # zs) = map (contents h) (c # zs)"
    using notin by (intro map_cong) (auto simp: contents_def)
  then have data: "map (contents ?h) ([] @ c # zs) = map Some ([] @ mc # vs)"
    using at Cons ms by (simp only: ring_at_def append_Nil)
  have "registered leader f ms (register_loop ?h leader new (fl_id f) (hd ([] @ [c])) c)"
    by (rule register_loop_spec [OF ring' _ data]) (use at Cons ms notin in \<open>auto simp: ring_at_def\<close>)
  then show ?thesis using at Cons by (simp add: register_locked_def ring_at_def)
qed

lemma leader_init: "leader_rel Map.empty (tpcleader_init capacity red) []"
  by (auto simp: leader_rel_def tpcleader_init_def ring_at_def not_less)

lemma length_register_member:
  "length (register_member m ms) = length ms + (if fst m \<in> fst ` set ms then 0 else 1)"
  by (simp add: register_member_def)

text \<open>Registering below capacity.\<close>

lemma register_locked_leader:
  assumes rel: "leader_rel h leader ms" and new: "h new = None"
    and f: "fl_next f = new" "fl_prev f = new"
  shows "\<exists>h' leader'. register_locked (h(new \<mapsto> f)) leader new (fl_id f) = Some (h', leader')
     \<and> (\<exists>xs. ring_at h' leader' xs (register_member (fdata f) ms))
     \<and> follower_capacity leader' = follower_capacity leader
     \<and> redundancy leader' = redundancy leader
     \<and> follower_count leader' =
         follower_count leader + (if fl_id f \<in> fst ` set ms then 0 else 1)"
proof -
  obtain xs where at: "ring_at h leader xs ms" using rel by (auto simp: leader_rel_def)
  from register_locked_spec [OF this new f] show ?thesis
    by (force simp: registered_def ring_at_def)
qed

lemma word_count_less:
  assumes "(c :: 32 word) \<noteq> d" "unat c = n" "n \<le> unat d"
  shows "unat (c + 1) = n + 1 \<and> n + 1 \<le> unat d"
proof -
  have "unat c < unat d" using assms by (metis le_neq_implies_less word_unat_eq_iff)
  moreover have "unat d < 2 ^ 32" using unsigned_less [of d, where 'a = nat] by simp
  ultimately have "unat (c + 1) = unat c + 1" by (simp add: unat_word_ariths)
  then show ?thesis using \<open>unat c < unat d\<close> assms(2) by simp
qed

text \<open>The member that host and port of a registration stand for.\<close>

definition host_member :: "string \<Rightarrow> string \<Rightarrow> member" where
  "host_member host port = (strhash64 (port @ CHR '':'' # host), host, atoi port)"

lemma tpcleader_register_spec:
  assumes rel: "leader_rel h leader ms" and new: "h new = None"
    and req: "req_key req = Some host" "req_val req = Some port"
    and below: "length ms < unat (follower_capacity leader)"
    and fits: "length host + length port + 2 \<le> room (length host + length port)"
  shows "\<exists>h' leader'. tpcleader_register room new h leader req res
       = Some (h', leader', res\<lparr>res_type := SUCCESS\<rparr>)
     \<and> leader_rel h' leader' (register_member (host_member host port) ms)
     \<and> follower_capacity leader' = follower_capacity leader
     \<and> redundancy leader' = redundancy leader"
proof -
  let ?f = "new_follower host port (port @ CHR '':'' # host) new" and ?m = "host_member host port"
  have m': "fdata ?f = ?m" "fl_id ?f = fst ?m" by (simp_all add: fdata_def new_follower_def host_member_def)
  have ne: "follower_count leader \<noteq> follower_capacity leader"
    and count: "unat (follower_count leader) = length ms"
    using rel below by (auto simp: leader_rel_def)
  have "fl_next ?f = new" "fl_prev ?f = new" by (simp_all add: new_follower_def)
  from register_locked_leader [OF rel new this] obtain h' leader' where
    1: "register_locked (h(new \<mapsto> ?f)) leader new (fl_id ?f) = Some (h', leader')"
       "\<exists>xs. ring_at h' leader' xs (register_member ?m ms)"
       "follower_capacity leader' = follower_capacity leader"
       "redundancy leader' = redundancy leader"
       "follower_count leader' = follower_count leader + (if fst ?m \<in> fst ` set ms then 0 else 1)"
    using m' by auto
  have "unat (follower_count leader') = length (register_member ?m ms)
      \<and> length (register_member ?m ms) \<le> unat (follower_capacity leader)"
    using 1(5) word_count_less [OF ne count] below count by (simp add: length_register_member)
  then have "leader_rel h' leader' (register_member ?m ms)"
    using 1(2-4) rel by (simp add: leader_rel_def)
  moreover have "follower_address room host port = Some (port @ CHR '':'' # host)"
    using fits by (simp add: follower_address_def)
  ultimately show ?thesis using 1 ne req by (simp add: tpcleader_register_def Let_def)
qed

lemma tpcleader_register_full:
  assumes "leader_rel h leader ms" "length ms = unat (follower_capacity leader)"
  shows "tpcleader_register room new h leader req res
    = Some (h, leader, res\<lparr>res_type := ERROR, res_body := Some ERRMSG_FOLLOWER_CAPACITY\<rparr>)"
proof -
  have "follower_count leader = follower_capacity leader"
    using assms by (simp add: leader_rel_def flip: word_unat_eq_iff)
  then show ?thesis by (simp add: tpcleader_register_def)
qed

lemma tpcleader_register_overflow:
  assumes "leader_rel h leader ms" "length ms < unat (follower_capacity leader)"
    and "req_key req = Some host" "req_val req = Some port"
    and "room (length host + length port) < length host + length port + 2"
  shows "tpcleader_register room new h leader req res = None"
proof -
  have "follower_count leader \<noteq> follower_capacity leader" using assms(1,2) by (auto simp: leader_rel_def)
  then show ?thesis using assms(3-5) by (simp add: tpcleader_register_def follower_address_def)
qed

subsection \<open>Walking the ring\<close>

lemma ring_next:
  assumes "ring h xs" "i < length xs"
  shows "tpcleader_get_successor h (xs ! i) = Some (xs ! ((i + 1) mod length xs))"
proof -
  let ?ys = "take i xs" and ?zs = "drop (Suc i) xs"
  have xs: "xs = ?ys @ xs ! i # ?zs" using assms(2) by (rule id_take_nth_drop)
  then have "ring h (?ys @ xs ! i # ?zs)" using assms(1) by simp
  then obtain f where f: "h (xs ! i) = Some f" "fl_next f = hd (?zs @ [hd (?ys @ [xs ! i])])"
    by (cases ?ys; cases ?zs) (auto simp: ring_def links_append)
  have "hd (?zs @ [hd (?ys @ [xs ! i])]) = xs ! ((i + 1) mod length xs)"
  proof (cases "i + 1 < length xs")
    case True
    then have "?zs = xs ! (i + 1) # drop (Suc (Suc i)) xs" by (simp add: Cons_nth_drop_Suc)
    with True show ?thesis by simp
  next
    case False
    then have "?zs = []" "Suc i = length xs" using assms(2) by simp_all
    moreover have "hd (?ys @ [xs ! i]) = xs ! 0"
      using assms(2) by (cases i) (auto simp: hd_append hd_conv_nth)
    ultimately show ?thesis by simp
  qed
  with f show ?thesis by (simp add: tpcleader_get_successor_def)
qed

text \<open>The position of the primary: the first id above the hash, else the lowest id.\<close>

definition primary_index :: "member list \<Rightarrow> u64 \<Rightarrow> nat" where
  "primary_index ms hash =
     (let i = length (takeWhile (\<lambda>m. fst m \<le> hash) ms) in if i < length ms then i else 0)"

lemma primary_index_cases:
  "if \<exists>m \<in> set ms. hash < fst m
   then hash < fst (ms ! primary_index ms hash) \<and> (\<forall>j < primary_index ms hash. fst (ms ! j) \<le> hash)
   else primary_index ms hash = 0"
proof (cases "\<exists>m \<in> set ms. hash < fst m")
  case True
  let ?n = "length (takeWhile (\<lambda>m. fst m \<le> hash) ms)"
  have "takeWhile (\<lambda>m. fst m \<le> hash) ms \<noteq> ms"
    using True by (auto simp only: takeWhile_eq_all_conv not_le [symmetric])
  then have n: "?n < length ms"
    by (metis le_neq_implies_less length_takeWhile_le take_all_iff takeWhile_eq_take order_refl)
  then have "primary_index ms hash = ?n" by (simp only: primary_index_def Let_def if_True)
  moreover have "hash < fst (ms ! ?n)"
    using nth_length_takeWhile [OF n] by (simp only: not_le)
  moreover have "fst (ms ! j) \<le> hash" if "j < ?n" for j
    using that set_takeWhileD [of "takeWhile (\<lambda>m. fst m \<le> hash) ms ! j"] takeWhile_nth [OF that]
    by (metis nth_mem set_takeWhileD)
  ultimately show ?thesis using True by (simp only: if_True) blast
next
  case False
  then have "\<forall>m \<in> set ms. fst m \<le> hash" by (meson not_le)
  then have "takeWhile (\<lambda>m. fst m \<le> hash) ms = ms" by (simp only: takeWhile_eq_all_conv)
  then have "primary_index ms hash = 0" by (simp only: primary_index_def Let_def) simp
  then show ?thesis using False by (simp only: if_False)
qed

lemma primary_loop_spec:
  assumes "ring_at h leader xs ms" "i < length xs"
    and "\<forall>j < i. fst (ms ! j) \<le> hash"
  shows "primary_loop h hash (hd xs) (xs ! i) = Some (xs ! primary_index ms hash)"
  using assms(2,3)
proof (induction "length xs - i" arbitrary: i rule: less_induct)
  case less
  have ring: "ring h xs" and data: "map (contents h) xs = map Some ms"
    using assms(1) less.prems(1) by (auto simp: ring_at_def)
  have len: "length ms = length xs" using arg_cong [OF data, of length] by simp
  have "contents h (xs ! i) = Some (ms ! i)"
    using arg_cong [OF data, of "\<lambda>l. l ! i"] less.prems(1) len by simp
  then obtain c where "h (xs ! i) = Some c" "ms ! i = fdata c" by (auto simp: contents_def)
  then have c: "h (xs ! i) = Some c" "fl_id c = fst (ms ! i)" by (simp_all add: fdata_def)
  have nxt: "fl_next c = xs ! ((i + 1) mod length xs)"
    using ring_next [OF ring less.prems(1)] c(1) by (simp add: tpcleader_get_successor_def)
  have hd0: "hd xs = xs ! 0" using less.prems(1) by (cases xs) auto
  show ?case
  proof (cases "hash < fst (ms ! i)")
    case True
    then have "takeWhile (\<lambda>m. fst m \<le> hash) ms = take i ms"
      using less.prems len by (intro takeWhile_eq_take_P_nth) auto
    then show ?thesis
      using True c less.prems(1) len by (subst primary_loop.simps) (simp add: primary_index_def)
  next
    case False
    then have upto: "\<forall>j < i + 1. fst (ms ! j) \<le> hash"
      using less.prems(2) by (auto simp: less_Suc_eq)
    show ?thesis
    proof (cases "i + 1 < length xs")
      case True
      have "distinct xs" "xs \<noteq> []" using ring by (simp_all add: ring_def)
      then have "fl_next c \<noteq> hd xs" "fl_next c = xs ! (i + 1)"
        using nxt True hd0 nth_eq_iff_index_eq [of xs "i + 1" 0] by auto
      moreover have "primary_loop h hash (hd xs) (xs ! (i + 1)) = Some (xs ! primary_index ms hash)"
        using less.hyps [of "i + 1"] True upto by simp
      ultimately show ?thesis using False c by (subst primary_loop.simps) simp
    next
      case end': False
      then have i: "i + 1 = length xs" using less.prems(1) by simp
      then have "\<forall>m \<in> set ms. fst m \<le> hash" using upto len by (metis in_set_conv_nth)
      then have "takeWhile (\<lambda>m. fst m \<le> hash) ms = ms" by (simp only: takeWhile_eq_all_conv)
      then have "primary_index ms hash = 0" by (simp only: primary_index_def Let_def) simp
      then show ?thesis using False c nxt i hd0 by (subst primary_loop.simps) simp
    qed
  qed
qed

lemma tpcleader_get_primary_spec:
  assumes "leader_rel h leader ms" "ring_at h leader xs ms" "ms \<noteq> []"
  shows "tpcleader_get_primary h leader key = Some
     (if length ms < unat (follower_capacity leader) then None
      else Some (xs ! primary_index ms (strhash64 key)))"
proof -
  have "length xs = length ms" using arg_cong [of _ _ length] assms(2)
    by (metis length_map ring_at_def)
  then have "xs \<noteq> []" using assms(3) by auto
  then have "followers_head leader = Some (hd xs)" "hd xs = xs ! 0"
    using assms(2) by (auto simp: ring_at_def hd_conv_nth)
  with primary_loop_spec [OF assms(2), of 0 "strhash64 key"] assms(1) \<open>xs \<noteq> []\<close> show ?thesis
    by (simp add: tpcleader_get_primary_def leader_rel_def word_less_nat_alt)
qed


subsection \<open>Two followers registering at the same time\<close>

text \<open>
  The capacity is tested before the lock is taken. Two threads that both pass the test at
  the last free place leave one follower too many; from then on \<open>follower_count\<close> and
  \<open>follower_capacity\<close> differ, and every later follower passes the test too.
\<close>

definition self_linked :: "tpcfollower_t \<Rightarrow> nat \<Rightarrow> tpcfollower_t" where
  "self_linked f a = f\<lparr>fl_next := a, fl_prev := a\<rparr>"

lemma self_linked_simps [simp]:
  "fl_id (self_linked f a) = fl_id f" "fl_next (self_linked f a) = a" "fl_prev (self_linked f a) = a"
  "fst (fdata (self_linked f a)) = fl_id f"
  by (simp_all add: self_linked_def fdata_def)

lemma register_race_overfull:
  assumes rel: "leader_rel h leader ms"
    and last: "length ms + 1 = unat (follower_capacity leader)"
      "unat (follower_capacity leader) < 2 ^ 32 - 1"
    and a: "h a = None"
    and ids: "fl_id f \<noteq> fl_id g" "{fl_id f, fl_id g} \<inter> fst ` set ms = {}"
  shows "\<exists>h1 leader1. register_locked (h(a \<mapsto> self_linked f a)) leader a (fl_id f)
       = Some (h1, leader1)
   \<and> (\<forall>b. h1 b = None \<longrightarrow> (\<exists>h2 leader2.
        register_locked (h1(b \<mapsto> self_linked g b)) leader1 b (fl_id g) = Some (h2, leader2)
      \<and> unat (follower_count leader2) = unat (follower_capacity leader2) + 1))"
proof -
  have count: "unat (follower_count leader) = length ms" using rel by (simp add: leader_rel_def)
  have less: "follower_count leader \<noteq> follower_capacity leader" using last count by auto
  from register_locked_leader [OF rel a, of "self_linked f a"] ids obtain h1 leader1 xs where
    1: "register_locked (h(a \<mapsto> self_linked f a)) leader a (fl_id f) = Some (h1, leader1)"
       "ring_at h1 leader1 xs (register_member (fdata (self_linked f a)) ms)"
       "follower_capacity leader1 = follower_capacity leader"
       "follower_count leader1 = follower_count leader + 1" by auto
  have ms1: "fl_id g \<notin> fst ` set (register_member (fdata (self_linked f a)) ms)"
    using ids by (simp add: register_member_def set_insort_key)
  have full: "unat (follower_count leader1) = unat (follower_capacity leader)"
    using word_count_less [OF less count] last(1) 1(4) by simp
  then have over: "unat (follower_count leader1 + 1) = unat (follower_capacity leader) + 1"
    using last(2) by (simp add: unat_word_ariths)
  have "\<exists>h2 leader2. register_locked (h1(b \<mapsto> self_linked g b)) leader1 b (fl_id g)
        = Some (h2, leader2)
      \<and> unat (follower_count leader2) = unat (follower_capacity leader2) + 1"
    if b: "h1 b = None" for b
    using register_locked_spec [OF 1(2) b, of "self_linked g b"] ms1 over 1(3)
    by (auto simp: registered_def)
  with 1(1) show ?thesis by blast
qed

end
