(* ===== verification/TPCLeader.thy ===== *)
theory TPCLeader
  imports FollowerRing KVServer
begin

text \<open>
  The leader of hw4/src/tpcleader.c: a GET asks the replicas of a key one after the other, a
  PUT or DEL runs two-phase commit over them. The network is a parameter: \<open>net_connect\<close> is
  \<open>connect_to\<close>, \<open>net_exchange\<close> a \<open>kvrequest_send\<close> followed by \<open>kvresponse_recieve\<close>, both on
  an unspecified world \<open>'w\<close>; an exchange of which the leader has no defined result, such as a
  request that overflows the buffer of \<open>url_encode\<close>, is \<open>None\<close>. \<open>KVCluster\<close> has the network of the
  program.

  The locale \<open>follower_network\<close> is what the leader relies on: followers that answer as the
  abstract participant of \<open>KVServer\<close>, behind a network that fails finitely often. In it, a
  PUT or DEL always ends, and all replicas have then applied the operation or none has.
\<close>

record 'w network =
  net_connect :: "'w \<Rightarrow> string \<Rightarrow> 32 word \<Rightarrow> bool \<times> 'w"
  net_exchange ::
    "'w \<Rightarrow> string \<Rightarrow> 32 word \<Rightarrow> kvrequest_t \<Rightarrow> (kvresponse_t option \<times> 'w) option"

subsection \<open>GET\<close>

text \<open>
  The loop of \<open>tpcleader_handle_get\<close>. A failed \<open>connect_to\<close> goes on with the same follower
  and without counting; an answer that did not parse is dereferenced by the \<open>printf\<close>.
\<close>

partial_function (option) get_loop ::
  "'w network \<Rightarrow> fheap \<Rightarrow> nat \<Rightarrow> kvrequest_t \<Rightarrow> 'w \<Rightarrow> nat \<Rightarrow> nat
     \<Rightarrow> ('w \<times> kvresponse_t option) option" where
  "get_loop net h red req w pri visited =
     (if visited < red then
        do { f \<leftarrow> h pri;
             let (connected, w1) = net_connect net w (fl_host f) (fl_port f);
             if \<not> connected then get_loop net h red req w1 pri visited
             else do {
               (restmp, w2) \<leftarrow> net_exchange net w1 (fl_host f) (fl_port f) req;
               r \<leftarrow> restmp;
               if res_type r = GETRESP then Some (w2, Some r)
               else do { pri' \<leftarrow> tpcleader_get_successor h pri;
                         get_loop net h red req w2 pri' (visited + 1) } } }
      else Some (w, None))"

definition tpcleader_handle_get ::
  "'w network \<Rightarrow> fheap \<Rightarrow> tpcleader_t \<Rightarrow> 'w \<Rightarrow> kvrequest_t option \<Rightarrow> kvresponse_t
     \<Rightarrow> ('w \<times> kvresponse_t) option" where
  "tpcleader_handle_get net h leader w req res =
     (case req of
        None \<Rightarrow> Some (w, res\<lparr>res_type := ERROR, res_body := Some ERRMSG_NO_KEY\<rparr>)
      | Some req \<Rightarrow>
          do { key \<leftarrow> req_key req;
               pri \<leftarrow> tpcleader_get_primary h leader key;
               (w', found) \<leftarrow> (case pri of
                   None \<Rightarrow> Some (w, None)
                 | Some p \<Rightarrow> get_loop net h (unat (redundancy leader)) req w p 0);
               case found of
                 None \<Rightarrow> Some (w', res\<lparr>res_type := ERROR, res_body := Some ERRMSG_NO_KEY\<rparr>)
               | Some r \<Rightarrow>
                   do { body \<leftarrow> res_body r;
                        Some (w', res\<lparr>res_type := GETRESP, res_body := Some body\<rparr>) } })"

subsection \<open>Two-phase commit\<close>

text \<open>The body of the first loop: connect, send the request, look for the body ``commit''.\<close>

definition collect_vote ::
  "'w network \<Rightarrow> 'w \<Rightarrow> tpcfollower_t \<Rightarrow> kvrequest_t \<Rightarrow> ('w \<times> bool) option" where
  "collect_vote net w f req =
     (let (connected, w1) = net_connect net w (fl_host f) (fl_port f) in
      if \<not> connected then Some (w1, False)
      else do {
        (restmp, w2) \<leftarrow> net_exchange net w1 (fl_host f) (fl_port f) req;
        case restmp of
          None \<Rightarrow> Some (w2, False)
        | Some r \<Rightarrow> do { body \<leftarrow> res_body r; Some (w2, body = ''commit'') } })"

function vote_loop ::
  "'w network \<Rightarrow> fheap \<Rightarrow> nat \<Rightarrow> kvrequest_t \<Rightarrow> 'w \<Rightarrow> nat \<Rightarrow> nat \<Rightarrow> bool \<Rightarrow> ('w \<times> bool) option"
where
  "vote_loop net h red req w pri visited is_commit =
     (if visited < red then
        do { f \<leftarrow> h pri;
             (w', vote) \<leftarrow> collect_vote net w f req;
             pri' \<leftarrow> tpcleader_get_successor h pri;
             vote_loop net h red req w' pri' (visited + 1) (is_commit \<and> vote) }
      else Some (w, is_commit))"
  by pat_completeness auto
termination
  by (relation "measure (\<lambda>(net, h, red, req, w, pri, visited, c). red - visited)") auto

text \<open>One pass of the second phase; it stops at the first follower it cannot connect to.\<close>

function ack_loop ::
  "'w network \<Rightarrow> fheap \<Rightarrow> nat \<Rightarrow> kvrequest_t \<Rightarrow> 'w \<Rightarrow> nat \<Rightarrow> nat \<Rightarrow> bool \<Rightarrow> ('w \<times> bool) option"
where
  "ack_loop net h red msg w pri visited acked =
     (if visited < red then
        do { f \<leftarrow> h pri;
             let (connected, w1) = net_connect net w (fl_host f) (fl_port f);
             if \<not> connected then Some (w1, False)
             else do {
               (restmp, w2) \<leftarrow> net_exchange net w1 (fl_host f) (fl_port f) msg;
               let ack = (case restmp of None \<Rightarrow> False | Some r \<Rightarrow> res_type r = ACK);
               pri' \<leftarrow> tpcleader_get_successor h pri;
               ack_loop net h red msg w2 pri' (visited + 1) (acked \<and> ack) } }
      else Some (w, acked))"
  by pat_completeness auto
termination
  by (relation "measure (\<lambda>(net, h, red, msg, w, pri, visited, c). red - visited)") auto

declare vote_loop.simps [simp del] ack_loop.simps [simp del]

text \<open>\<open>do ... while (!is_all_acked)\<close>\<close>

partial_function (option) second_phase ::
  "'w network \<Rightarrow> fheap \<Rightarrow> tpcleader_t \<Rightarrow> string \<Rightarrow> kvrequest_t \<Rightarrow> 'w \<Rightarrow> 'w option" where
  "second_phase net h leader key msg w =
     do { pri \<leftarrow> tpcleader_get_primary h leader key;
          (w', all_acked) \<leftarrow> (case pri of
              None \<Rightarrow> Some (w, True)
            | Some p \<Rightarrow> ack_loop net h (unat (redundancy leader)) msg w p 0 True);
          if all_acked then Some w' else second_phase net h leader key msg w' }"

definition decision :: "bool \<Rightarrow> kvrequest_t" where
  "decision is_commit =
     \<lparr>req_type = (if is_commit then COMMIT else ABORT), req_key = None, req_val = None\<rparr>"

definition tpcleader_handle_tpc ::
  "'w network \<Rightarrow> fheap \<Rightarrow> tpcleader_t \<Rightarrow> 'w \<Rightarrow> kvrequest_t option \<Rightarrow> kvresponse_t
     \<Rightarrow> ('w \<times> kvresponse_t) option" where
  "tpcleader_handle_tpc net h leader w req res =
     (if follower_count leader \<noteq> follower_capacity leader
      then Some (w, res\<lparr>res_type := ERROR, res_body := Some ERRMSG_NOT_AT_CAPACITY\<rparr>)
      else case req of
        None \<Rightarrow> Some (w, res\<lparr>res_type := ERROR, res_body := Some ''unknown message type''\<rparr>)
      | Some req \<Rightarrow>
          if req_type req = PUTREQ \<or> req_type req = DELREQ then
            do { key \<leftarrow> req_key req;
                 pri \<leftarrow> tpcleader_get_primary h leader key;
                 (w1, is_commit) \<leftarrow> (case pri of
                     None \<Rightarrow> Some (w, True)
                   | Some p \<Rightarrow> vote_loop net h (unat (redundancy leader)) req w p 0 True);
                 let res' = (if is_commit then res\<lparr>res_type := SUCCESS\<rparr>
                   else res\<lparr>res_type := ERROR, res_body := Some ''abort the command''\<rparr>);
                 w2 \<leftarrow> second_phase net h leader key (decision is_commit) w1;
                 Some (w2, res') }
          else Some (w, res\<lparr>res_type := ERROR, res_body := Some ''unknown message type''\<rparr>))"

text \<open>
  \<open>tpcleader_handle\<close> for a received request; one that did not parse is dereferenced by the
  \<open>printf\<close> before the test for NULL.
\<close>

definition tpcleader_handle ::
  "'w network \<Rightarrow> (nat \<Rightarrow> nat) \<Rightarrow> nat \<Rightarrow> fheap \<Rightarrow> tpcleader_t \<Rightarrow> 'w \<Rightarrow> kvrequest_t option
     \<Rightarrow> (fheap \<times> tpcleader_t \<times> 'w \<times> reply) option" where
  "tpcleader_handle net room new h leader w req =
     do { r \<leftarrow> req;
          if req_type r = INDEX then Some (h, leader, w, SendIndex)
          else if req_type r = REGISTER then
            do { (h', leader', res) \<leftarrow> tpcleader_register room new h leader r res_calloc;
                 Some (h', leader', w, SendResponse res) }
          else if req_type r = GETREQ then
            do { (w', res) \<leftarrow> tpcleader_handle_get net h leader w req res_calloc;
                 Some (h, leader, w', SendResponse res) }
          else
            do { (w', res) \<leftarrow> tpcleader_handle_tpc net h leader w req res_calloc;
                 Some (h, leader, w', SendResponse res) } }"

subsection \<open>Replicas\<close>

type_synonym addr = "string \<times> 32 word"

text \<open>The addresses the loops visit: \<open>red\<close> followers from position \<open>i\<close> on, around the ring.\<close>

definition replica :: "member list \<Rightarrow> nat \<Rightarrow> nat \<Rightarrow> addr" where
  "replica ms i j = snd (ms ! ((i + j) mod length ms))"

definition replicas :: "member list \<Rightarrow> nat \<Rightarrow> string \<Rightarrow> addr set" where
  "replicas ms red key = replica ms (primary_index ms (strhash64 key)) ` {0..<red}"

text \<open>What a response looks like after the network: an empty body for none.\<close>

definition wire :: "kvresponse_t \<Rightarrow> kvresponse_t" where
  "wire r = mk_res (res_type r) (Some (case res_body r of None \<Rightarrow> [] | Some b \<Rightarrow> b))"

fun req_op :: "kvrequest_t \<Rightarrow> tpc_op" where
  "req_op req =
     (if req_type req = PUTREQ then KPut (the (req_key req)) (the (req_val req))
      else KDel (the (req_key req)))"

lemma MSG_COMMIT_code: "''commit'' = MSG_COMMIT"
  by (simp add: MSG_COMMIT_def)

lemma Nil_not_commit [simp]: "[] \<noteq> MSG_COMMIT" "MSG_COMMIT \<noteq> []"
  by (simp_all add: MSG_COMMIT_def)

text \<open>What the checks of a participant with the map \<open>m\<close> say about a PUT or DEL.\<close>

definition op_verdict :: "kvmap \<Rightarrow> kvrequest_t \<Rightarrow> int" where
  "op_verdict m req =
     (if req_type req = PUTREQ then put_verdict (the (req_key req)) (the (req_val req))
      else del_verdict m (the (req_key req)))"

text \<open>The states of a participant with the map \<open>m\<close> while votes are collected.\<close>

definition vote_states :: "kvmap \<Rightarrow> kvrequest_t \<Rightarrow> participant set" where
  "vote_states m req =
     (if op_verdict m req = 0 then {(m, None), (m, Some (req_op req))} else {(m, None)})"

lemma vote_step:
  assumes "req_type req \<in> {PUTREQ, DELREQ}" "p \<in> vote_states m req"
  shows "fst (participant_step p req) \<in> vote_states m req"
    and "res_body (wire (snd (participant_step p req))) = Some MSG_COMMIT
      \<Longrightarrow> fst (participant_step p req) = (m, Some (req_op req))"
    and "p = (m, None) \<Longrightarrow> op_verdict m req = 0
      \<Longrightarrow> res_body (wire (snd (participant_step p req))) = Some MSG_COMMIT"
  using assms
  by (auto simp: prepare_def wire_def vote_states_def op_verdict_def split: if_splits)

lemma decision_step:
  "participant_step (m, Some op) (decision True) = ((kv_apply m op, None), mk_res ACK None)"
  "participant_step (m, None) (decision True) = ((m, None), mk_res ACK None)"
  "participant_step (m, p) (decision False) = ((m, None), mk_res ACK None)"
  by (simp_all add: decision_def)


lemma decision_ok:
  "request_ok (decision b)" "request_complete (decision b)"
  "req_type (decision b) \<in> {GETREQ, PUTREQ, DELREQ, COMMIT, ABORT}"
  by (simp_all add: request_ok_def request_complete_def decision_def)

lemma vote_step_pending:
  "req_type req \<in> {PUTREQ, DELREQ} \<Longrightarrow>
   participant_step (m, Some op) req = ((m, Some op), mk_res ERROR (Some ERRMSG_INVALID_REQUEST))"
  by auto

lemma get_step:
  assumes "req_type req = GETREQ" "req_key req = Some key"
  shows "participant_step (m, p) req = ((m, p),
     if MAX_KEYLEN < length key then mk_res ERROR (Some (GETMSG ERRKEYLEN))
     else case m key of None \<Rightarrow> mk_res ERROR (Some (GETMSG ERRNOKEY))
          | Some v \<Rightarrow> mk_res GETRESP (Some v))"
  using assms by (simp add: Let_def)

declare participant_step.simps [simp del] req_op.simps [simp del]

text \<open>The follower at a position of the ring, its address and its successor.\<close>

lemma ring_at_node:
  assumes "ring_at h leader xs ms" "i < length xs"
  obtains f where "h (xs ! i) = Some f" "(fl_host f, fl_port f) = snd (ms ! i)"
    "tpcleader_get_successor h (xs ! i) = Some (xs ! ((i + 1) mod length xs))"
proof -
  have ring: "ring h xs" and data: "map (contents h) xs = map Some ms"
    using assms by (auto simp: ring_at_def)
  have "length ms = length xs" using arg_cong [OF data, of length] by simp
  then have "contents h (xs ! i) = Some (ms ! i)"
    using arg_cong [OF data, of "\<lambda>l. l ! i"] assms(2) by simp
  then obtain f where "h (xs ! i) = Some f" "ms ! i = fdata f" by (auto simp: contents_def)
  then show thesis using that ring_next [OF ring assms(2)] by (simp add: fdata_def)
qed

lemma ring_at_length: "ring_at h leader xs ms \<Longrightarrow> length xs = length ms"
  by (metis length_map ring_at_def)

text \<open>The followers of \<open>R\<close> are each in a state \<open>S\<close> allows, the others as they were.\<close>

definition within ::
  "(addr \<Rightarrow> participant set) \<Rightarrow> addr set \<Rightarrow> (addr \<rightharpoonup> participant) \<Rightarrow> (addr \<rightharpoonup> participant) \<Rightarrow> bool"
where
  "within S R P0 P \<longleftrightarrow> (\<forall>a \<in> R. \<exists>p \<in> S a. P a = Some p) \<and> (\<forall>a. a \<notin> R \<longrightarrow> P a = P0 a)"

lemma within_upd: "\<lbrakk>within S R P0 P; a \<in> R; p \<in> S a\<rbrakk> \<Longrightarrow> within S R P0 (P(a \<mapsto> p))"
  by (auto simp: within_def)

lemma withinE: "within S R P0 P \<Longrightarrow> a \<in> R \<Longrightarrow> (\<And>p. p \<in> S a \<Longrightarrow> P a = Some p \<Longrightarrow> Q) \<Longrightarrow> Q"
  by (auto simp: within_def)

subsection \<open>The cluster as one map\<close>

text \<open>Every replica of every key is idle and has what \<open>m\<close> says of the key.\<close>

definition cluster_view ::
  "('w \<Rightarrow> (addr \<rightharpoonup> participant) \<Rightarrow> bool) \<Rightarrow> member list \<Rightarrow> nat \<Rightarrow> 'w \<Rightarrow> kvmap \<Rightarrow> bool" where
  "cluster_view rel ms red w m \<longleftrightarrow>
     (\<exists>P. rel w P \<and> (\<forall>k. \<forall>a \<in> replicas ms red k. \<exists>M. P a = Some (M, None) \<and> M k = m k))"

text \<open>What a client of a single map would be answered.\<close>

definition client_ok :: "kvrequest_t \<Rightarrow> bool" where
  "client_ok req \<longleftrightarrow>
     request_ok req \<and> request_complete req \<and> req_type req \<in> {GETREQ, PUTREQ, DELREQ}"

definition client_step :: "kvmap \<Rightarrow> kvrequest_t \<Rightarrow> kvmap \<times> kvresponse_t" where
  "client_step m req =
     (if req_type req = GETREQ then
        (m, case m (the (req_key req)) of
              None \<Rightarrow> mk_res ERROR (Some ERRMSG_NO_KEY)
            | Some b \<Rightarrow> if MAX_KEYLEN < length (the (req_key req))
                        then mk_res ERROR (Some ERRMSG_NO_KEY) else mk_res GETRESP (Some b))
      else if op_verdict m req = 0 then (kv_apply m (req_op req), mk_res SUCCESS None)
      else (m, mk_res ERROR (Some ''abort the command'')))"

fun client_run :: "kvmap \<Rightarrow> kvrequest_t list \<Rightarrow> kvmap \<times> reply list" where
  "client_run m [] = (m, [])"
| "client_run m (req # reqs) =
     (let (m', r) = client_step m req; (m'', rs) = client_run m' reqs
      in (m'', SendResponse r # rs))"

fun leader_run ::
  "'w network \<Rightarrow> (nat \<Rightarrow> nat) \<Rightarrow> fheap \<Rightarrow> tpcleader_t \<Rightarrow> 'w \<Rightarrow> kvrequest_t list \<Rightarrow> ('w \<times> reply list) option"
where
  "leader_run net room h leader w [] = Some (w, [])"
| "leader_run net room h leader w (req # reqs) =
     do { (_, _, w', r) \<leftarrow> tpcleader_handle net room 0 h leader w (Some req);
          (w'', rs) \<leftarrow> leader_run net room h leader w' reqs;
          Some (w'', r # rs) }"

lemma op_verdict_cong:
  "m (the (req_key req)) = m' (the (req_key req)) \<Longrightarrow> op_verdict m req = op_verdict m' req"
  by (simp add: op_verdict_def del_verdict_def)

lemma kv_apply_req_op:
  "kv_apply m (req_op req) k =
     (if k = the (req_key req)
      then (if req_type req = PUTREQ then Some (the (req_val req)) else None) else m k)"
  by (simp add: req_op.simps)

lemma inj_replica:
  assumes "distinct (map snd ms)" "red \<le> length ms"
  shows "inj_on (replica ms i) {0..<red}"
proof (rule inj_onI)
  fix x y
  assume xy: "x \<in> {0..<red}" "y \<in> {0..<red}" and eq: "replica ms i x = replica ms i y"
  have at: "replica ms i j = rotate i (map snd ms) ! j" if "j < length ms" for j
  proof -
    have "0 < length ms" using that by linarith
    then have "(i + j) mod length ms < length ms" by (rule mod_less_divisor)
    moreover have "rotate i (map snd ms) ! j = map snd ms ! ((i + j) mod length ms)"
      using that nth_rotate [of j "map snd ms" i] by simp
    ultimately show ?thesis by (simp only: replica_def nth_map)
  qed
  have n: "x < length ms" "y < length ms" using xy assms(2) by auto
  have "rotate i (map snd ms) ! x = rotate i (map snd ms) ! y"
    using eq unfolding at [OF n(1)] at [OF n(2)] .
  moreover have "distinct (rotate i (map snd ms))" using assms(1) by simp
  ultimately show "x = y"
    using nth_eq_iff_index_eq [of "rotate i (map snd ms)" x y] n by simp
qed

text \<open>The primary of a key in the ring of a leader at capacity.\<close>

lemma leader_primaryE:
  assumes "leader_rel h leader ms" "ms \<noteq> []" "length ms = unat (follower_capacity leader)"
    and "i = primary_index ms (strhash64 key)"
  obtains xs where "ring_at h leader xs ms" "xs \<noteq> []" "i < length xs" "(i + 0) mod length xs = i"
    "tpcleader_get_primary h leader key = Some (Some (xs ! i))"
    "follower_count leader = follower_capacity leader"
proof -
  obtain xs where at: "ring_at h leader xs ms" using assms(1) by (auto simp: leader_rel_def)
  have xs: "xs \<noteq> []" "length xs = length ms" using ring_at_length [OF at] assms(2) by auto
  have i: "i < length xs" using assms(2,4) xs(2) by (simp add: primary_index_def Let_def)
  have "tpcleader_get_primary h leader key = Some (Some (xs ! i))"
    using tpcleader_get_primary_spec [OF assms(1) at assms(2)] assms(3,4) by simp
  moreover have "follower_count leader = follower_capacity leader"
    using assms(1,3) by (simp add: leader_rel_def flip: word_unat_eq_iff)
  ultimately show thesis using that [OF at xs(1) i] i by simp
qed

subsection \<open>What the leader relies on\<close>

text \<open>
  \<open>rel w P\<close>: in the world \<open>w\<close> the follower at \<open>a\<close> stands for the participant \<open>P a\<close>, and no
  connection is open; \<open>linked w P\<close>: the same with a connection that waits for its exchange.
  A connection or an exchange may fail, but only \<open>faults w\<close> more times; a failed exchange
  may have reached the follower or not, a successful one brings its response. \<open>fits req\<close>: the
  request can be put into a message, as the two decisions can.
\<close>

locale follower_network =
  fixes net :: "'w network"
    and rel :: "'w \<Rightarrow> (addr \<rightharpoonup> participant) \<Rightarrow> bool"
    and linked :: "'w \<Rightarrow> (addr \<rightharpoonup> participant) \<Rightarrow> bool"
    and faults :: "'w \<Rightarrow> nat"
    and fits :: "kvrequest_t \<Rightarrow> bool"
  assumes connect_law: "\<lbrakk>rel w P; P (host, port) \<noteq> None;
        net_connect net w host port = (connected, w')\<rbrakk> \<Longrightarrow>
      faults w' \<le> faults w \<and> (if connected then linked w' P else rel w' P \<and> faults w' < faults w)"
    and exchange_defined: "\<lbrakk>linked w P; P (host, port) = Some p; fits req; request_ok req; request_complete req;
        req_type req \<in> {GETREQ, PUTREQ, DELREQ, COMMIT, ABORT}\<rbrakk> \<Longrightarrow>
      net_exchange net w host port req \<noteq> None"
    and exchange_law: "\<lbrakk>linked w P; P (host, port) = Some p; fits req; request_ok req; request_complete req;
        req_type req \<in> {GETREQ, PUTREQ, DELREQ, COMMIT, ABORT};
        net_exchange net w host port req = Some (answer, w')\<rbrakk> \<Longrightarrow>
      faults w' \<le> faults w \<and>
      (if answer = None
       then faults w' < faults w
         \<and> (rel w' P \<or> rel w' (P((host, port) \<mapsto> fst (participant_step p req))))
       else answer = Some (wire (snd (participant_step p req)))
         \<and> rel w' (P((host, port) \<mapsto> fst (participant_step p req))))"
    and decision_fits: "fits (decision b)"
begin

lemma collect_vote_law:
  assumes rel: "rel w P" and a: "a = (fl_host f, fl_port f)" "P a = Some p"
    and req: "request_ok req" "request_complete req" "req_type req \<in> {PUTREQ, DELREQ}"
    and fits: "fits req"
    and p: "p \<in> vote_states m req"
  shows "\<exists>w' v p'. collect_vote net w f req = Some (w', v) \<and> rel w' (P(a \<mapsto> p'))
     \<and> faults w' \<le> faults w \<and> p' \<in> vote_states m req
     \<and> (faults w = 0 \<and> p = (m, None) \<and> op_verdict m req = 0 \<longrightarrow> v)
     \<and> (v \<longrightarrow> p' = (m, Some (req_op req))) \<and> (p = (m, Some (req_op req)) \<longrightarrow> p' = p)"
proof -
  obtain connected w1 where 1: "net_connect net w (fl_host f) (fl_port f) = (connected, w1)"
    by (cases "net_connect net w (fl_host f) (fl_port f)")
  then have w1: "faults w1 \<le> faults w" "connected \<Longrightarrow> linked w1 P"
      "\<not> connected \<Longrightarrow> rel w1 P" "\<not> connected \<Longrightarrow> faults w1 < faults w"
    using connect_law [OF rel _ 1] a by auto
  have same: "P(a \<mapsto> p) = P" using a(2) by auto
  show ?thesis
  proof (cases connected)
    case False
    then have "collect_vote net w f req = Some (w1, False)" using 1 by (simp add: collect_vote_def)
    then show ?thesis using w1(1) w1(3,4) [OF False] same p
      by (intro exI [of _ w1] exI [of _ False] exI [of _ p] conjI) simp_all
  next
    case True
    let ?p' = "fst (participant_step p req)"
    have P: "P (fl_host f, fl_port f) = Some p" using a by simp
    obtain ans w2 where 2: "net_exchange net w1 (fl_host f) (fl_port f) req = Some (ans, w2)"
      using exchange_defined [OF w1(2) [OF True] P fits req(1,2)] req(3) by auto
    have law: "faults w2 \<le> faults w1"
      "ans = None \<Longrightarrow> faults w2 < faults w1"
      "ans = None \<Longrightarrow> rel w2 P \<or> rel w2 (P(a \<mapsto> ?p'))"
      "ans \<noteq> None \<Longrightarrow> ans = Some (wire (snd (participant_step p req))) \<and> rel w2 (P(a \<mapsto> ?p'))"
      using exchange_law [OF w1(2) [OF True] P fits req(1,2) _ 2] req(3) a(1) by (auto split: if_splits)
    have p': "?p' \<in> vote_states m req" using vote_step(1) req(3) p .
    have keep: "p = (m, Some (req_op req)) \<Longrightarrow> ?p' = p"
      using vote_step_pending [OF req(3)] by simp
    show ?thesis
    proof (cases ans)
      case None
      then have "collect_vote net w f req = Some (w2, False)"
        using 1 2 True by (simp add: collect_vote_def)
      moreover have "rel w2 (P(a \<mapsto> p)) \<or> rel w2 (P(a \<mapsto> ?p'))"
        using law(3) None same by simp
      then obtain q where "rel w2 (P(a \<mapsto> q))" "q = p \<or> q = ?p'" by blast
      moreover from \<open>q = p \<or> q = ?p'\<close> have "q \<in> vote_states m req"
        "p = (m, Some (req_op req)) \<longrightarrow> q = p" using p p' keep by blast+
      ultimately show ?thesis using law(1,2) w1(1) None
        by (intro exI [of _ w2] exI [of _ False] exI [of _ q] conjI) simp_all
    next
      case (Some r)
      then have r: "r = wire (snd (participant_step p req))" "rel w2 (P(a \<mapsto> ?p'))"
        using law(4) by auto
      obtain b where b: "res_body r = Some b" using r(1) by (simp add: wire_def)
      then have "collect_vote net w f req = Some (w2, b = MSG_COMMIT)"
        using 1 2 True Some by (simp add: collect_vote_def MSG_COMMIT_code)
      moreover have "b = MSG_COMMIT \<Longrightarrow> ?p' = (m, Some (req_op req))"
        using vote_step(2) [OF req(3) p] r(1) b by simp
      moreover have "p = (m, None) \<Longrightarrow> op_verdict m req = 0 \<Longrightarrow> b = MSG_COMMIT"
        using vote_step(3) [OF req(3) p] r(1) b by simp
      ultimately show ?thesis using r(2) law(1) w1(1) p' keep
        by (intro exI [of _ w2] exI [of _ "b = MSG_COMMIT"] exI [of _ ?p'] conjI) simp_all
    qed
  qed
qed

lemma vote_loop_law:
  assumes at: "ring_at h leader xs ms" "xs \<noteq> []"
    and req: "request_ok req" "request_complete req" "req_type req \<in> {PUTREQ, DELREQ}"
    and fits: "fits req"
    and R: "R = replica ms i ` {0..<red}"
    and S: "S = (\<lambda>a. vote_states (M a) req)"
    and "rel w P" "within S R P0 P" "v \<le> red"
    and "c \<longrightarrow> (\<forall>j < v. P (replica ms i j) = Some (M (replica ms i j), Some (req_op req)))"
  shows "\<exists>w' c' P'. vote_loop net h red req w (xs ! ((i + v) mod length xs)) v c = Some (w', c')
     \<and> rel w' P' \<and> within S R P0 P' \<and> faults w' \<le> faults w
     \<and> (c' \<longrightarrow> (\<forall>a \<in> R. P' a = Some (M a, Some (req_op req))))"
  using assms(9-)
proof (induction "red - v" arbitrary: v w P c)
  case 0
  have "vote_loop net h red req w (xs ! ((i + v) mod length xs)) v c = Some (w, c)"
    using 0 by (subst vote_loop.simps) simp
  moreover have "c \<longrightarrow> (\<forall>a \<in> R. P a = Some (M a, Some (req_op req)))"
    using 0 R by auto
  ultimately show ?case using 0 by blast
next
  case (Suc n)
  let ?i = "(i + v) mod length xs" and ?a = "replica ms i v"
  have v: "v < red" and n: "n = red - (v + 1)" using Suc.hyps(2) by simp_all
  have "?i < length xs" using at(2) by simp
  from ring_at_node [OF at(1) this] obtain f where f: "h (xs ! ?i) = Some f"
    "?a = (fl_host f, fl_port f)"
    "tpcleader_get_successor h (xs ! ?i) = Some (xs ! ((?i + 1) mod length xs))"
    using ring_at_length [OF at(1)] by (metis replica_def)
  have succ: "(?i + 1) mod length xs = (i + (v + 1)) mod length xs" by (simp add: mod_simps)
  have "?a \<in> R" using R v by simp
  with Suc.prems(2) obtain p where p: "p \<in> S ?a" "P ?a = Some p" by (rule withinE)
  have "p \<in> vote_states (M ?a) req" using p(1) S by simp
  from collect_vote_law [OF Suc.prems(1) f(2) p(2) req fits this] obtain w1 vote p' where
    1: "collect_vote net w f req = Some (w1, vote)" "rel w1 (P(?a \<mapsto> p'))" "faults w1 \<le> faults w"
       "p' \<in> vote_states (M ?a) req"
       "vote \<longrightarrow> p' = (M ?a, Some (req_op req))"
       "p = (M ?a, Some (req_op req)) \<longrightarrow> p' = p" by blast
  have "p' \<in> S ?a" using 1(4) S by simp
  have in': "within S R P0 (P(?a \<mapsto> p'))" by (rule within_upd [OF Suc.prems(2) \<open>?a \<in> R\<close> \<open>p' \<in> S ?a\<close>])
  have c': "c \<and> vote \<longrightarrow> (\<forall>j < v + 1. (P(?a \<mapsto> p')) (replica ms i j)
      = Some (M (replica ms i j), Some (req_op req)))"
    using Suc.prems(4) 1(5,6) p(2) by (auto simp: less_Suc_eq)
  have "v + 1 \<le> red" using v by simp
  from Suc.hyps(1) [OF n 1(2) in' this c'] obtain w' c' P' where
    2: "vote_loop net h red req w1 (xs ! ((i + (v + 1)) mod length xs)) (v + 1) (c \<and> vote)
       = Some (w', c')" "rel w' P'" "within S R P0 P'" "faults w' \<le> faults w1"
    "c' \<longrightarrow> (\<forall>a \<in> R. P' a = Some (M a, Some (req_op req)))" by blast
  have "vote_loop net h red req w (xs ! ?i) v c = Some (w', c')"
    using 1(1) 2(1) f(1,3) v unfolding succ by (subst vote_loop.simps) simp
  moreover have "faults w' \<le> faults w" using 1(3) 2(4) by simp
  ultimately show ?case using 2(2,3,5) by blast
qed


text \<open>Without faults, a vote of which every participant approves ends with COMMIT.\<close>

lemma vote_loop_progress:
  assumes at: "ring_at h leader xs ms" "xs \<noteq> []"
    and req: "request_ok req" "request_complete req" "req_type req \<in> {PUTREQ, DELREQ}"
    and fits: "fits req"
    and inj: "inj_on (replica ms i) {0..<red}"
    and approve: "\<forall>j < red. op_verdict (M (replica ms i j)) req = 0"
    and "rel w P" "faults w = 0" "v \<le> red"
    and "\<forall>j < red. v \<le> j \<longrightarrow> P (replica ms i j) = Some (M (replica ms i j), None)"
  shows "\<exists>w'. vote_loop net h red req w (xs ! ((i + v) mod length xs)) v True = Some (w', True)
     \<and> faults w' = 0"
  using assms(9-)
proof (induction "red - v" arbitrary: v w P)
  case 0
  then show ?case by (subst vote_loop.simps) simp
next
  case (Suc n)
  let ?i = "(i + v) mod length xs" and ?a = "replica ms i v"
  have v: "v < red" and n: "n = red - (v + 1)" and v1: "v + 1 \<le> red"
    using Suc.hyps(2) by simp_all
  have "?i < length xs" using at(2) by simp
  from ring_at_node [OF at(1) this] obtain f where f: "h (xs ! ?i) = Some f"
    "?a = (fl_host f, fl_port f)"
    "tpcleader_get_successor h (xs ! ?i) = Some (xs ! ((?i + 1) mod length xs))"
    using ring_at_length [OF at(1)] by (metis replica_def)
  have succ: "(?i + 1) mod length xs = (i + (v + 1)) mod length xs" by (simp add: mod_simps)
  have p: "P ?a = Some (M ?a, None)" "op_verdict (M ?a) req = 0"
    using Suc.prems(4) approve v by simp_all
  then have "(M ?a, None) \<in> vote_states (M ?a) req" by (simp add: vote_states_def)
  from collect_vote_law [OF Suc.prems(1) f(2) p(1) req fits this] p(2) Suc.prems(2) obtain w1 p' where
    1: "collect_vote net w f req = Some (w1, True)" "rel w1 (P(?a \<mapsto> p'))" "faults w1 = 0"
    by auto
  have "replica ms i j \<noteq> ?a" if "j < red" "v + 1 \<le> j" for j
    using inj_onD [OF inj, of j v] that v by auto
  then have "\<forall>j < red. v + 1 \<le> j \<longrightarrow>
      (P(?a \<mapsto> p')) (replica ms i j) = Some (M (replica ms i j), None)"
    using Suc.prems(4) by simp
  from Suc.hyps(1) [OF n 1(2,3) v1 this] 1(1) f(1,3) v show ?case
    unfolding succ by (subst vote_loop.simps) auto
qed

text \<open>A pass of the second phase: every follower that acknowledges is in its final state.\<close>

lemma deliver_law:
  assumes rel: "rel w P" and a: "a = (host, port)" "P a = Some p"
    and msg: "msg = decision b" and step: "participant_step p msg = (q, mk_res ACK None)"
    and 1: "net_connect net w host port = (True, w1)"
    and 2: "net_exchange net w1 host port msg = Some (answer, w2)"
  shows "\<exists>p'. rel w2 (P(a \<mapsto> p')) \<and> p' \<in> {p, q} \<and> faults w2 \<le> faults w
     \<and> (case answer of None \<Rightarrow> faults w2 < faults w
        | Some r \<Rightarrow> res_type r = ACK \<and> p' = q)"
proof -
  have w1: "linked w1 P" "faults w1 \<le> faults w" using connect_law [OF rel _ 1] a by auto
  have P: "P (host, port) = Some p" using a by simp
  have msg': "request_ok msg" "request_complete msg"
    "req_type msg \<in> {GETREQ, PUTREQ, DELREQ, COMMIT, ABORT}"
    using msg decision_ok by simp_all
  have same: "P(a \<mapsto> p) = P" using a(2) by auto
  have "fits msg" using msg decision_fits by simp
  note law = exchange_law [OF w1(1) P this msg' 2]
  show ?thesis
  proof (cases answer)
    case None
    then have "faults w2 < faults w1" "rel w2 (P(a \<mapsto> p)) \<or> rel w2 (P(a \<mapsto> q))"
      using law same step a(1) by simp_all
    then show ?thesis using None w1(2) by fastforce
  next
    case (Some r)
    then have "faults w2 \<le> faults w1" "r = wire (mk_res ACK None)" "rel w2 (P(a \<mapsto> q))"
      using law step a(1) by simp_all
    then show ?thesis using Some w1(2)
      by (intro exI [of _ q]) (simp add: wire_def)
  qed
qed

lemma ack_loop_law:
  assumes at: "ring_at h leader xs ms" "xs \<noteq> []"
    and msg: "msg = decision b" and R: "R = replica ms i ` {0..<red}"
    and step: "\<And>a p. a \<in> R \<Longrightarrow> p \<in> S a \<Longrightarrow> participant_step p msg = (fin a, mk_res ACK None)"
    and fin: "\<And>a. a \<in> R \<Longrightarrow> fin a \<in> S a"
    and "rel w P" "within S R P0 P" "v \<le> red"
    and "c \<longrightarrow> (\<forall>j < v. P (replica ms i j) = Some (fin (replica ms i j)))"
  shows "\<exists>w' c' P'. ack_loop net h red msg w (xs ! ((i + v) mod length xs)) v c = Some (w', c')
     \<and> rel w' P' \<and> within S R P0 P' \<and> faults w' \<le> faults w
     \<and> (c' \<longrightarrow> (\<forall>a \<in> R. P' a = Some (fin a))) \<and> (c \<and> \<not> c' \<longrightarrow> faults w' < faults w)"
  using assms(7-)
proof (induction "red - v" arbitrary: v w P c)
  case 0
  have "ack_loop net h red msg w (xs ! ((i + v) mod length xs)) v c = Some (w, c)"
    using 0 by (subst ack_loop.simps) simp
  moreover have "c \<longrightarrow> (\<forall>a \<in> R. P a = Some (fin a))" using 0 R by auto
  ultimately show ?case using 0 by blast
next
  case (Suc n)
  let ?i = "(i + v) mod length xs" and ?a = "replica ms i v"
  have v: "v < red" and n: "n = red - (v + 1)" and v1: "v + 1 \<le> red"
    using Suc.hyps(2) by simp_all
  have "?i < length xs" using at(2) by simp
  from ring_at_node [OF at(1) this] obtain f where f: "h (xs ! ?i) = Some f"
    "?a = (fl_host f, fl_port f)"
    "tpcleader_get_successor h (xs ! ?i) = Some (xs ! ((?i + 1) mod length xs))"
    using ring_at_length [OF at(1)] by (metis replica_def)
  have succ: "(?i + 1) mod length xs = (i + (v + 1)) mod length xs" by (simp add: mod_simps)
  have aR: "?a \<in> R" using R v by simp
  with Suc.prems(2) obtain p where p: "p \<in> S ?a" "P ?a = Some p" by (rule withinE)
  note st = step [OF aR p(1)]
  obtain connected w1 where 1: "net_connect net w (fl_host f) (fl_port f) = (connected, w1)"
    by (cases "net_connect net w (fl_host f) (fl_port f)")
  show ?case
  proof (cases connected)
    case False
    have "rel w1 P" "faults w1 < faults w"
      using connect_law [OF Suc.prems(1) _ 1] p(2) f(2) False by auto
    moreover have "ack_loop net h red msg w (xs ! ?i) v c = Some (w1, False)"
      using 1 f(1) v False by (subst ack_loop.simps) simp
    ultimately show ?thesis using Suc.prems(2) by fastforce
  next
    case True
    have P: "P (fl_host f, fl_port f) = Some p" using p(2) f(2) by simp
    have w1: "linked w1 P" using connect_law [OF Suc.prems(1) _ 1] P True by auto
    obtain ans w2 where 2: "net_exchange net w1 (fl_host f) (fl_port f) msg = Some (ans, w2)"
      using exchange_defined [OF w1 P decision_fits [of b]] decision_ok [of b] unfolding msg by auto
    let ?ack = "case ans of None \<Rightarrow> False | Some r \<Rightarrow> res_type r = ACK"
    have "net_connect net w (fl_host f) (fl_port f) = (True, w1)" using 1 True by simp
    from deliver_law [OF Suc.prems(1) f(2) p(2) msg st this 2]
    obtain p' where p': "rel w2 (P(?a \<mapsto> p'))" "p' \<in> {p, fin ?a}" "faults w2 \<le> faults w"
      and cs: "case ans of None \<Rightarrow> faults w2 < faults w | Some r \<Rightarrow> res_type r = ACK \<and> p' = fin ?a"
      by blast
    have none: "ans = None \<Longrightarrow> faults w2 < faults w" using cs by simp
    have some: "ans \<noteq> None \<Longrightarrow> ?ack \<and> p' = fin ?a" using cs by (cases ans) auto
    have "p' \<in> S ?a" using p'(2) p(1) fin [OF aR] by blast
    then have in': "within S R P0 (P(?a \<mapsto> p'))" by (rule within_upd [OF Suc.prems(2) aR])
    have "p = fin ?a \<Longrightarrow> p' = fin ?a" using p'(2) by blast
    then have c': "c \<and> ?ack \<longrightarrow> (\<forall>j < v + 1. (P(?a \<mapsto> p')) (replica ms i j)
        = Some (fin (replica ms i j)))"
      using Suc.prems(4) some p(2) by (auto simp: less_Suc_eq split: option.splits)
    from Suc.hyps(1) [OF n p'(1) in' v1 c'] obtain w' c'' P' where
      3: "ack_loop net h red msg w2 (xs ! ((i + (v + 1)) mod length xs)) (v + 1) (c \<and> ?ack)
         = Some (w', c'')" "rel w' P'" "within S R P0 P'" "faults w' \<le> faults w2"
      "c'' \<longrightarrow> (\<forall>a \<in> R. P' a = Some (fin a))" "c \<and> ?ack \<and> \<not> c'' \<longrightarrow> faults w' < faults w2"
      by blast
    have "ack_loop net h red msg w (xs ! ?i) v c = Some (w', c'')"
      using 1 2 3(1) f(1,3) v True unfolding succ by (subst ack_loop.simps) simp
    moreover have "faults w' \<le> faults w" using p'(3) 3(4) by simp
    moreover have "c \<and> \<not> c'' \<longrightarrow> faults w' < faults w"
      using p'(3) none some 3(4,6) by (cases ans) auto
    ultimately show ?thesis using 3(2,3,5) by blast
  qed
qed


text \<open>The second phase ends, with every follower in its final state.\<close>

lemma second_phase_law:
  assumes leader: "leader_rel h leader ms" "ring_at h leader xs ms" "ms \<noteq> []"
    and full: "length ms = unat (follower_capacity leader)"
    and msg: "msg = decision b" and R: "R = replicas ms (unat (redundancy leader)) key"
    and step: "\<And>a p. a \<in> R \<Longrightarrow> p \<in> S a \<Longrightarrow> participant_step p msg = (fin a, mk_res ACK None)"
    and fin: "\<And>a. a \<in> R \<Longrightarrow> fin a \<in> S a"
    and "rel w P" "within S R P0 P"
  shows "\<exists>w' P'. second_phase net h leader key msg w = Some w' \<and> rel w' P' \<and> faults w' \<le> faults w
     \<and> (\<forall>a \<in> R. P' a = Some (fin a)) \<and> (\<forall>a. a \<notin> R \<longrightarrow> P' a = P0 a)"
  using assms(9-)
proof (induction "faults w" arbitrary: w P rule: less_induct)
  case less
  let ?i = "primary_index ms (strhash64 key)" and ?red = "unat (redundancy leader)"
  have xs: "xs \<noteq> []" "length xs = length ms" using ring_at_length [OF leader(2)] leader(3) by auto
  have "?i < length xs" using leader(3) xs(2) by (simp add: primary_index_def Let_def)
  then have i: "(?i + 0) mod length xs = ?i" by simp
  have pri: "tpcleader_get_primary h leader key = Some (Some (xs ! ?i))"
    using tpcleader_get_primary_spec [OF leader] full by simp
  have R': "R = replica ms ?i ` {0..<?red}" using R by (simp add: replicas_def)
  have "True \<longrightarrow> (\<forall>j < (0 :: nat). P (replica ms ?i j) = Some (fin (replica ms ?i j)))" by simp
  from ack_loop_law [OF leader(2) xs(1) msg R' step fin less.prems le0 this] obtain w' c' P' where
    1: "ack_loop net h ?red msg w (xs ! ?i) 0 True = Some (w', c')" "rel w' P'"
       "within S R P0 P'" "c' \<longrightarrow> (\<forall>a \<in> R. P' a = Some (fin a))" "\<not> c' \<longrightarrow> faults w' < faults w"
       "faults w' \<le> faults w"
    unfolding i by blast
  show ?case
  proof (cases c')
    case True
    then have "second_phase net h leader key msg w = Some w'"
      using pri 1(1) by (subst second_phase.simps) simp
    moreover have "\<forall>a. a \<notin> R \<longrightarrow> P' a = P0 a" using 1(3) by (simp add: within_def)
    ultimately show ?thesis using 1(2,4,6) True by blast
  next
    case False
    then have "second_phase net h leader key msg w = second_phase net h leader key msg w'"
      using pri 1(1) by (subst second_phase.simps) simp
    moreover have lt: "faults w' < faults w" using 1(5) False by simp
    ultimately show ?thesis using less.hyps [OF lt 1(2,3)] by fastforce
  qed
qed

text \<open>All replicas of the key apply the operation, or none does.\<close>

lemma atomic_commit:
  assumes leader: "leader_rel h leader ms" "ms \<noteq> []"
    and full: "length ms = unat (follower_capacity leader)"
    and req: "request_ok req" "request_complete req" "req_type req \<in> {PUTREQ, DELREQ}"
    and fits: "fits req"
    and key: "req_key req = Some key"
    and R: "R = replicas ms (unat (redundancy leader)) key"
    and rel: "rel w P" and idle: "\<forall>a \<in> R. P a = Some (M a, None)"
  shows "\<exists>w' P' res. tpcleader_handle_tpc net h leader w (Some req) res_calloc = Some (w', res)
     \<and> rel w' P' \<and> (\<forall>a. a \<notin> R \<longrightarrow> P' a = P a) \<and> faults w' \<le> faults w
     \<and> (faults w = 0 \<and> distinct (map snd ms) \<and> (\<forall>a \<in> R. op_verdict (M a) req = 0)
          \<longrightarrow> res = mk_res SUCCESS None)
     \<and> ((res = mk_res SUCCESS None \<and> (\<forall>a \<in> R. op_verdict (M a) req = 0
           \<and> P' a = Some (kv_apply (M a) (req_op req), None)))
      \<or> (res = mk_res ERROR (Some ''abort the command'') \<and> (\<forall>a \<in> R. P' a = Some (M a, None))))"
proof -
  let ?i = "primary_index ms (strhash64 key)" and ?red = "unat (redundancy leader)"
  let ?op = "req_op req"
  let ?V = "\<lambda>a. vote_states (M a) req"
  obtain xs where at: "ring_at h leader xs ms" and xs: "xs \<noteq> []" and i: "(?i + 0) mod length xs = ?i"
    and pri: "tpcleader_get_primary h leader key = Some (Some (xs ! ?i))"
    and count: "follower_count leader = follower_capacity leader"
    using leader_primaryE [OF leader full refl] by metis
  have R': "R = replica ms ?i ` {0..<?red}" using R by (simp add: replicas_def)
  have start: "within ?V R P P" using idle by (auto simp: within_def vote_states_def)
  have "True \<longrightarrow> (\<forall>j < (0 :: nat). P (replica ms ?i j)
      = Some (M (replica ms ?i j), Some ?op))" by simp
  from vote_loop_law [OF at xs req fits R' refl rel start le0 this] obtain w1 c P1 where
    1: "vote_loop net h ?red req w (xs ! ?i) 0 True = Some (w1, c)" "rel w1 P1"
       "within ?V R P P1" "c \<longrightarrow> (\<forall>a \<in> R. P1 a = Some (M a, Some ?op))"
       "faults w1 \<le> faults w"
    unfolding i by blast
  have progress: c if "faults w = 0" "distinct (map snd ms)" "\<forall>a \<in> R. op_verdict (M a) req = 0"
  proof -
    have "?red \<le> length ms"
      using leader(1) full by (simp add: leader_rel_def word_le_nat_alt)
    note inj = inj_replica [OF that(2) this, of ?i]
    have "\<forall>j < ?red. op_verdict (M (replica ms ?i j)) req = 0" using that(3) R' by simp
    moreover have "\<forall>j < ?red. 0 \<le> j \<longrightarrow> P (replica ms ?i j) = Some (M (replica ms ?i j), None)"
      using idle R' by simp
    ultimately show c
      using vote_loop_progress [OF at xs req fits inj _ rel that(1) le0] 1(1) i by fastforce
  qed
  have agreed: "c \<Longrightarrow> \<forall>a \<in> R. op_verdict (M a) req = 0"
    using 1(3,4) by (auto simp: within_def vote_states_def split: if_splits)
  let ?S = "\<lambda>a. if c then {(M a, Some ?op), (kv_apply (M a) ?op, None)} else ?V a"
  let ?fin = "\<lambda>a. (if c then kv_apply (M a) ?op else M a, None) :: participant"
  have in': "within ?S R P P1"
    using 1(3,4) by (auto simp: within_def)
  have step: "participant_step p (decision c) = (?fin a, mk_res ACK None)" if "p \<in> ?S a" for a p
    using that by (cases c) (auto simp: decision_step vote_states_def split: if_splits)
  have fin: "?fin a \<in> ?S a" for a by (cases c) (auto simp: vote_states_def)
  from second_phase_law [OF leader(1) at leader(2) full refl R step fin 1(2) in'] obtain w2 P2 where
    2: "second_phase net h leader key (decision c) w1 = Some w2" "rel w2 P2"
       "\<forall>a \<in> R. P2 a = Some (?fin a)" "\<forall>a. a \<notin> R \<longrightarrow> P2 a = P a" "faults w2 \<le> faults w1"
    by blast
  let ?res = "if c then mk_res SUCCESS None else mk_res ERROR (Some ''abort the command'')"
  have "tpcleader_handle_tpc net h leader w (Some req) res_calloc = Some (w2, ?res)"
    using count req(3) key pri 1(1) 2(1) by (auto simp: tpcleader_handle_tpc_def)
  moreover have "faults w2 \<le> faults w" using 1(5) 2(5) by simp
  ultimately show ?thesis using 2(2-4) agreed progress by (cases c) auto
qed


text \<open>A GET on a network without faults, when the replicas agree on the key.\<close>

lemma get_loop_law:
  assumes at: "ring_at h leader xs ms" "xs \<noteq> []"
    and req: "request_ok req" "req_type req = GETREQ" "req_key req = Some key"
    and fits: "fits req"
    and R: "R = replica ms i ` {0..<red}"
    and agree: "\<forall>a \<in> R. \<exists>m p. P a = Some (m, p) \<and> m key = value"
    and "rel w P" "faults w = 0" "v \<le> red"
  shows "\<exists>w'. get_loop net h red req w (xs ! ((i + v) mod length xs)) v
       = Some (w', if v = red \<or> MAX_KEYLEN < length key then None
                   else map_option (\<lambda>b. mk_res GETRESP (Some b)) value)
     \<and> rel w' P \<and> faults w' = 0"
  using assms(9-)
proof (induction "red - v" arbitrary: v w)
  case 0
  then show ?case by (subst get_loop.simps) simp
next
  case (Suc n)
  let ?i = "(i + v) mod length xs" and ?a = "replica ms i v"
  have v: "v < red" and n: "n = red - (v + 1)" and v1: "v + 1 \<le> red"
    using Suc.hyps(2) by simp_all
  have "?i < length xs" using at(2) by simp
  from ring_at_node [OF at(1) this] obtain f where f: "h (xs ! ?i) = Some f"
    "?a = (fl_host f, fl_port f)"
    "tpcleader_get_successor h (xs ! ?i) = Some (xs ! ((?i + 1) mod length xs))"
    using ring_at_length [OF at(1)] by (metis replica_def)
  have succ: "(?i + 1) mod length xs = (i + (v + 1)) mod length xs" by (simp add: mod_simps)
  have "?a \<in> R" using R v by simp
  then obtain m p where p: "P ?a = Some (m, p)" "m key = value" using agree by blast
  obtain connected w1 where 1: "net_connect net w (fl_host f) (fl_port f) = (connected, w1)"
    by (cases "net_connect net w (fl_host f) (fl_port f)")
  have w1: "linked w1 P" "faults w1 = 0" "connected"
    using connect_law [OF Suc.prems(1) _ 1] p(1) f(2) Suc.prems(2) by (auto split: if_splits)
  have complete: "request_complete req" using req by (simp add: request_complete_def)
  have P: "P (fl_host f, fl_port f) = Some (m, p)" using p(1) f(2) by simp
  obtain ans w2 where 2: "net_exchange net w1 (fl_host f) (fl_port f) req = Some (ans, w2)"
    using exchange_defined [OF w1(1) P fits req(1) complete] req(2) by auto
  let ?r = "snd (participant_step (m, p) req)"
  have same: "P((fl_host f, fl_port f) \<mapsto> fst (participant_step (m, p) req)) = P"
    using P by (auto simp: get_step [OF req(2,3)])
  have w2: "ans = Some (wire ?r)" "rel w2 P" "faults w2 = 0"
    using exchange_law [OF w1(1) P fits req(1) complete _ 2] req(2) w1(2) same
    by (auto split: if_splits)
  show ?case
  proof (cases "MAX_KEYLEN < length key \<or> value = None")
    case True
    then have "res_type (wire ?r) = ERROR"
      using p(2) by (auto simp: get_step [OF req(2,3)] wire_def)
    then have "get_loop net h red req w (xs ! ?i) v
        = get_loop net h red req w2 (xs ! ((i + (v + 1)) mod length xs)) (v + 1)"
      using 1 2 w1(3) w2(1) f v unfolding succ by (subst get_loop.simps) simp
    with Suc.hyps(1) [OF n w2(2,3) v1] True show ?thesis by auto
  next
    case False
    then obtain b where b: "value = Some b" by auto
    then have "wire ?r = mk_res GETRESP (Some b)"
      using p(2) False by (simp add: get_step [OF req(2,3)] wire_def)
    then have "get_loop net h red req w (xs ! ?i) v = Some (w2, Some (mk_res GETRESP (Some b)))"
      using 1 2 w1(3) w2(1) f v by (subst get_loop.simps) simp
    then show ?thesis using b False v w2(2,3) by simp
  qed
qed

lemma handle_get_law:
  assumes leader: "leader_rel h leader ms" "ms \<noteq> []"
    and full: "length ms = unat (follower_capacity leader)"
    and req: "request_ok req" "req_type req = GETREQ" "req_key req = Some key"
    and fits: "fits req"
    and red: "redundancy leader \<noteq> 0"
    and agree: "\<forall>a \<in> replicas ms (unat (redundancy leader)) key.
       \<exists>m p. P a = Some (m, p) \<and> m key = value"
    and rel: "rel w P" "faults w = 0"
  shows "\<exists>w'. tpcleader_handle_get net h leader w (Some req) res_calloc
       = Some (w', case value of None \<Rightarrow> mk_res ERROR (Some ERRMSG_NO_KEY)
                   | Some b \<Rightarrow> if MAX_KEYLEN < length key
                       then mk_res ERROR (Some ERRMSG_NO_KEY) else mk_res GETRESP (Some b))
     \<and> rel w' P \<and> faults w' = 0"
proof -
  let ?i = "primary_index ms (strhash64 key)" and ?red = "unat (redundancy leader)"
  obtain xs where at: "ring_at h leader xs ms" and xs: "xs \<noteq> []" and i: "(?i + 0) mod length xs = ?i"
    and pri: "tpcleader_get_primary h leader key = Some (Some (xs ! ?i))"
    using leader_primaryE [OF leader full refl] by metis
  have "0 < ?red" using red by (simp add: unat_gt_0)
  with get_loop_law [OF at xs req fits refl agree [unfolded replicas_def] rel le0]
  obtain w' where "get_loop net h ?red req w (xs ! ?i) 0
      = Some (w', if MAX_KEYLEN < length key then None
                  else map_option (\<lambda>b. mk_res GETRESP (Some b)) value)" "rel w' P" "faults w' = 0"
    unfolding i by auto
  then show ?thesis using req pri
    by (cases "value") (auto simp: tpcleader_handle_get_def)
qed

text \<open>One request of a client, on the map all replicas agree on.\<close>

lemma view_kv_apply:
  assumes view: "\<forall>k. \<forall>a \<in> replicas ms red k. \<exists>M. P a = Some (M, None) \<and> M k = m k"
    and key: "req_key req = Some key" and R: "R = replicas ms red key"
    and upd: "\<forall>a \<in> R. P' a = Some (kv_apply (fst (the (P a))) (req_op req), None)"
    and rest: "\<forall>a. a \<notin> R \<longrightarrow> P' a = P a"
  shows "\<forall>k. \<forall>a \<in> replicas ms red k. \<exists>M. P' a = Some (M, None) \<and> M k = kv_apply m (req_op req) k"
proof (intro allI ballI)
  fix k a
  assume a: "a \<in> replicas ms red k"
  then obtain M where M: "P a = Some (M, None)" "M k = m k" using view by blast
  show "\<exists>M. P' a = Some (M, None) \<and> M k = kv_apply m (req_op req) k"
  proof (cases "a \<in> R")
    case True
    then show ?thesis using upd M key by (auto simp: kv_apply_req_op)
  next
    case False
    then have "k \<noteq> key" using a R by blast
    moreover have "P' a = P a" using False rest by blast
    ultimately show ?thesis using M key by (auto simp: kv_apply_req_op)
  qed
qed

lemma commit_view:
  assumes leader: "leader_rel h leader ms" "ms \<noteq> []"
    and full: "length ms = unat (follower_capacity leader)" and red: "redundancy leader \<noteq> 0"
    and req: "request_ok req" "request_complete req" "req_type req \<in> {PUTREQ, DELREQ}"
    and fits: "fits req"
    and view: "cluster_view rel ms (unat (redundancy leader)) w m"
  shows "\<exists>w' res. tpcleader_handle_tpc net h leader w (Some req) res_calloc = Some (w', res)
     \<and> faults w' \<le> faults w
     \<and> (faults w = 0 \<and> distinct (map snd ms) \<and> op_verdict m req = 0 \<longrightarrow> res = mk_res SUCCESS None)
     \<and> (res = mk_res SUCCESS None \<and> op_verdict m req = 0
          \<and> cluster_view rel ms (unat (redundancy leader)) w' (kv_apply m (req_op req))
      \<or> res = mk_res ERROR (Some ''abort the command'')
          \<and> cluster_view rel ms (unat (redundancy leader)) w' m)"
proof -
  let ?red = "unat (redundancy leader)"
  obtain key where key: "req_key req = Some key" using req by (auto simp: request_complete_def)
  obtain P where P: "rel w P"
    "\<forall>k. \<forall>a \<in> replicas ms ?red k. \<exists>M. P a = Some (M, None) \<and> M k = m k"
    using view by (auto simp: cluster_view_def)
  let ?R = "replicas ms ?red key" and ?M = "\<lambda>a. fst (the (P a))"
  have idle: "\<forall>a \<in> ?R. P a = Some (?M a, None)"
    and agree: "\<forall>a \<in> ?R. ?M a key = m key" using P(2) by fastforce+
  from atomic_commit [OF leader full req fits key refl P(1) idle] obtain w' P' res where
    1: "tpcleader_handle_tpc net h leader w (Some req) res_calloc = Some (w', res)" "rel w' P'"
    and rest: "\<forall>a. a \<notin> ?R \<longrightarrow> P' a = P a" and faults: "faults w' \<le> faults w"
    and progress: "faults w = 0 \<and> distinct (map snd ms) \<and> (\<forall>a \<in> ?R. op_verdict (?M a) req = 0)
      \<longrightarrow> res = mk_res SUCCESS None"
    and cases: "(res = mk_res SUCCESS None \<and> (\<forall>a \<in> ?R. op_verdict (?M a) req = 0
          \<and> P' a = Some (kv_apply (?M a) (req_op req), None)))
      \<or> (res = mk_res ERROR (Some ''abort the command'') \<and> (\<forall>a \<in> ?R. P' a = Some (?M a, None)))"
    by blast
  have "\<forall>a \<in> ?R. op_verdict (?M a) req = op_verdict m req"
    using agree key op_verdict_cong by (metis option.sel)
  then have outcome: "faults w' \<le> faults w"
    "faults w = 0 \<and> distinct (map snd ms) \<and> op_verdict m req = 0 \<longrightarrow> res = mk_res SUCCESS None"
    using progress faults by auto
  from cases show ?thesis
  proof
    assume yes: "res = mk_res SUCCESS None \<and> (\<forall>a \<in> ?R. op_verdict (?M a) req = 0
          \<and> P' a = Some (kv_apply (?M a) (req_op req), None))"
    have "replica ms (primary_index ms (strhash64 key)) 0 \<in> ?R"
      using red by (auto simp: replicas_def unat_gt_0)
    then have "op_verdict m req = 0"
      using yes agree key op_verdict_cong [of m req "?M _"] by (metis option.sel)
    moreover have "cluster_view rel ms ?red w' (kv_apply m (req_op req))"
      using view_kv_apply [OF P(2) key refl _ rest] yes 1(2) by (auto simp: cluster_view_def)
    ultimately show ?thesis using yes 1(1) outcome by blast
  next
    assume no: "res = mk_res ERROR (Some ''abort the command'') \<and> (\<forall>a \<in> ?R. P' a = Some (?M a, None))"
    then have "P' = P" using rest idle by (intro ext) metis
    then have "cluster_view rel ms ?red w' m" using 1(2) P(2) by (auto simp: cluster_view_def)
    then show ?thesis using no 1(1) outcome by blast
  qed
qed

text \<open>Without faults the leader answers as a single map does.\<close>

lemma leader_step_law:
  assumes leader: "leader_rel h leader ms" "ms \<noteq> []" "distinct (map snd ms)"
    and full: "length ms = unat (follower_capacity leader)" and red: "redundancy leader \<noteq> 0"
    and req: "client_ok req" "fits req"
    and view: "cluster_view rel ms (unat (redundancy leader)) w m" "faults w = 0"
  shows "\<exists>w'. tpcleader_handle net room new h leader w (Some req)
       = Some (h, leader, w', SendResponse (snd (client_step m req)))
     \<and> cluster_view rel ms (unat (redundancy leader)) w' (fst (client_step m req))
     \<and> faults w' = 0"
proof (cases "req_type req = GETREQ")
  case True
  obtain key where key: "req_key req = Some key"
    using req True by (auto simp: client_ok_def request_complete_def)
  obtain P where P: "rel w P" "\<forall>k. \<forall>a \<in> replicas ms (unat (redundancy leader)) k.
      \<exists>M. P a = Some (M, None) \<and> M k = m k"
    using view by (auto simp: cluster_view_def)
  have agree: "\<forall>a \<in> replicas ms (unat (redundancy leader)) key. \<exists>M p. P a = Some (M, p) \<and> M key = m key"
    using P(2) by blast
  from handle_get_law [OF leader(1,2) full _ True key req(2) red agree P(1) view(2)] req(1)
  obtain w' where 1: "tpcleader_handle_get net h leader w (Some req) res_calloc
       = Some (w', snd (client_step m req))" "rel w' P" "faults w' = 0"
    using True key by (auto simp: client_ok_def client_step_def split: option.splits if_splits)
  moreover have "cluster_view rel ms (unat (redundancy leader)) w' (fst (client_step m req))"
    using True 1(2) P(2) by (auto simp: cluster_view_def client_step_def)
  ultimately show ?thesis using True by (simp add: tpcleader_handle_def)
next
  case False
  then have r: "request_ok req" "request_complete req" "req_type req \<in> {PUTREQ, DELREQ}"
    using req by (auto simp: client_ok_def)
  from commit_view [OF leader(1,2) full red r req(2) view(1)] obtain w' res where
    1: "tpcleader_handle_tpc net h leader w (Some req) res_calloc = Some (w', res)"
      "faults w' \<le> faults w"
      "faults w = 0 \<and> distinct (map snd ms) \<and> op_verdict m req = 0 \<longrightarrow> res = mk_res SUCCESS None"
      "res = mk_res SUCCESS None \<and> op_verdict m req = 0
          \<and> cluster_view rel ms (unat (redundancy leader)) w' (kv_apply m (req_op req))
       \<or> res = mk_res ERROR (Some ''abort the command'')
          \<and> cluster_view rel ms (unat (redundancy leader)) w' m" by blast
  have "mk_res SUCCESS None \<noteq> mk_res ERROR (Some ''abort the command'')" by (simp add: mk_res_def)
  then have "res = snd (client_step m req)"
    "cluster_view rel ms (unat (redundancy leader)) w' (fst (client_step m req))"
    using 1(3,4) view(2) leader(3) False by (auto simp: client_step_def)
  with 1(1,2) view(2) have "tpcleader_handle_tpc net h leader w (Some req) res_calloc
      = Some (w', snd (client_step m req))"
    "cluster_view rel ms (unat (redundancy leader)) w' (fst (client_step m req))" "faults w' = 0"
    by simp_all
  then show ?thesis using r(3) by (auto simp: tpcleader_handle_def)
qed

lemma leader_run_law:
  assumes leader: "leader_rel h leader ms" "ms \<noteq> []" "distinct (map snd ms)"
    and full: "length ms = unat (follower_capacity leader)" and red: "redundancy leader \<noteq> 0"
    and "list_all client_ok reqs" "list_all fits reqs"
    and "cluster_view rel ms (unat (redundancy leader)) w m" "faults w = 0"
  shows "\<exists>w'. leader_run net room h leader w reqs = Some (w', snd (client_run m reqs))
     \<and> cluster_view rel ms (unat (redundancy leader)) w' (fst (client_run m reqs))"
  using assms(6-)
proof (induction reqs arbitrary: w m)
  case Nil
  then show ?case by simp
next
  case (Cons req reqs)
  have ok: "client_ok req" "fits req" "list_all client_ok reqs" "list_all fits reqs"
    using Cons.prems(1,2) by simp_all
  from leader_step_law [OF leader full red ok(1,2) Cons.prems(3,4), of room 0] obtain w1 where
    1: "tpcleader_handle net room 0 h leader w (Some req)
       = Some (h, leader, w1, SendResponse (snd (client_step m req)))"
      "cluster_view rel ms (unat (redundancy leader)) w1 (fst (client_step m req))" "faults w1 = 0"
    by blast
  from Cons.IH [OF ok(3,4) 1(2,3)] 1(1) show ?case
    by (auto simp: case_prod_beta Let_def)
qed

end

subsection \<open>A leader that never answers\<close>

text \<open>When connecting to a follower fails for good, in every world \<open>J\<close> holds of, and leads to such
  a world again, the loop of \<open>tpcleader_handle_get\<close> does not end.\<close>

lemma get_loop_diverges:
  assumes f: "h pri = Some f" and v: "visited < red" and J: "J w"
    and fails: "\<And>w. J w \<Longrightarrow> \<exists>w'. net_connect net w (fl_host f) (fl_port f) = (False, w') \<and> J w'"
  shows "get_loop net h red req w pri visited = None"
proof (rule ccontr)
  let ?stuck = "\<lambda>net' h' (red' :: nat) (req' :: kvrequest_t) w pri' visited' (y :: 'a \<times> kvresponse_t option).
      net' = net \<longrightarrow> h' = h \<longrightarrow> red' = red \<longrightarrow> pri' = pri \<longrightarrow> visited' = visited \<longrightarrow> \<not> J w"
  assume "get_loop net h red req w pri visited \<noteq> None"
  then obtain y where y: "get_loop net h red req w pri visited = Some y" by blast
  have "?stuck net h red req w pri visited y"
  proof (rule get_loop.raw_induct [of ?stuck, OF _ y], goal_cases)
    case (1 rec net' h' red' req' w pri' visited' y)
    show ?case
    proof (intro impI notI)
      assume same: "net' = net" "h' = h" "red' = red" "pri' = pri" "visited' = visited" and "J w"
      obtain w1 where w1: "net_connect net w (fl_host f) (fl_port f) = (False, w1)" "J w1"
        using fails [OF \<open>J w\<close>] by blast
      then have "rec net h red req' w1 pri visited = Some y" using 1(2) f v by (simp add: same)
      from 1(1) [OF this] w1(2) show False by simp
    qed
  qed
  then show False using J by simp
qed

text \<open>
  Nor does two-phase commit, when every connection fails in every world \<open>J\<close> holds of, and leads
  to such a world again.
\<close>

lemma vote_loop_fails:
  assumes fails: "\<And>w host port. J w \<Longrightarrow> \<exists>w'. net_connect net w host port = (False, w') \<and> J w'"
    and "J w" "vote_loop net h red req w pri visited c = Some (w', c')"
  shows "J w'"
  using assms(2-)
proof (induction "red - visited" arbitrary: w pri visited c)
  case 0
  then show ?case by (simp add: vote_loop.simps)
next
  case (Suc n)
  then have v: "visited < red" and n: "n = red - (visited + 1)" by simp_all
  from Suc.prems(2) v obtain f w1 vote pri' where
    1: "collect_vote net w f req = Some (w1, vote)"
      "vote_loop net h red req w1 pri' (visited + 1) (c \<and> vote) = Some (w', c')"
    by (subst (asm) vote_loop.simps) (auto split: bind_splits)
  obtain w2 where "net_connect net w (fl_host f) (fl_port f) = (False, w2)" "J w2"
    using fails [OF Suc.prems(1)] by blast
  then have "J w1" using 1(1) by (simp add: collect_vote_def)
  from Suc.hyps(1) [OF n this 1(2)] show ?case .
qed

lemma second_phase_diverges:
  assumes fails: "\<And>w host port. J w \<Longrightarrow> \<exists>w'. net_connect net w host port = (False, w') \<and> J w'"
    and pri: "tpcleader_get_primary h leader key = Some (Some p)" "h p = Some f"
    and red: "redundancy leader \<noteq> 0" and J: "J w"
  shows "second_phase net h leader key msg w = None"
proof (rule ccontr)
  let ?stuck = "\<lambda>net' h' leader' key' msg' w (y :: 'a). net' = net \<longrightarrow> h' = h \<longrightarrow> leader' = leader \<longrightarrow>
      key' = key \<longrightarrow> msg' = msg \<longrightarrow> \<not> J w"
  assume "second_phase net h leader key msg w \<noteq> None"
  then obtain y where y: "second_phase net h leader key msg w = Some y" by blast
  have red': "0 < unat (redundancy leader)" using red by (simp add: unat_gt_0)
  have "?stuck net h leader key msg w y"
  proof (rule second_phase.raw_induct [of ?stuck, OF _ y], goal_cases)
    case (1 rec net' h' leader' key' msg' w y)
    show ?case
    proof (intro impI notI)
      assume same: "net' = net" "h' = h" "leader' = leader" "key' = key" "msg' = msg" and "J w"
      obtain w1 where w1: "net_connect net w (fl_host f) (fl_port f) = (False, w1)" "J w1"
        using fails [OF \<open>J w\<close>] by blast
      have "ack_loop net h (unat (redundancy leader)) msg w p 0 True = Some (w1, False)"
        using w1(1) pri(2) red' by (subst ack_loop.simps) simp
      then have "rec net h leader key msg w1 = Some y" using 1(2) pri(1) by (simp add: same)
      from 1(1) [OF this] w1(2) show False by simp
    qed
  qed
  then show False using J by simp
qed

lemma handle_tpc_diverges:
  assumes fails: "\<And>w host port. J w \<Longrightarrow> \<exists>w'. net_connect net w host port = (False, w') \<and> J w'"
    and leader: "leader_rel h leader ms" "ms \<noteq> []"
    and full: "length ms = unat (follower_capacity leader)" and red: "redundancy leader \<noteq> 0"
    and req: "req_type req \<in> {PUTREQ, DELREQ}" "req_key req = Some key" and J: "J w"
  shows "tpcleader_handle_tpc net h leader w (Some req) res = None"
proof -
  let ?i = "primary_index ms (strhash64 key)"
  obtain xs where at: "ring_at h leader xs ms" and i: "?i < length xs"
    and pri: "tpcleader_get_primary h leader key = Some (Some (xs ! ?i))"
    and count: "follower_count leader = follower_capacity leader"
    using leader_primaryE [OF leader full refl] by metis
  obtain f where f: "h (xs ! ?i) = Some f" using ring_at_node [OF at i] by blast
  show ?thesis
  proof (cases "vote_loop net h (unat (redundancy leader)) req w (xs ! ?i) 0 True")
    case None
    then show ?thesis using count req pri by (auto simp: tpcleader_handle_tpc_def)
  next
    case (Some r)
    obtain w1 c where r: "r = (w1, c)" by (cases r)
    have "J w1" using vote_loop_fails [where J = J, OF fails J] Some r by blast
    from second_phase_diverges [where J = J, OF fails pri f red this]
    have "second_phase net h leader key (decision c) w1 = None" .
    then show ?thesis using Some r count req pri by (auto simp: tpcleader_handle_tpc_def)
  qed
qed

end
