(* ===== verification/CText.thy ===== *)
theory CText
  imports CPrelude
begin

text \<open>
  The string functions of the C library the parsers use, on C strings: a pointer into a string
  is the rest of the string from there on, a found position is an index.
\<close>

definition strchr :: "string \<Rightarrow> char \<Rightarrow> nat option" where
  "strchr s c = (let n = length (takeWhile (\<lambda>x. x \<noteq> c) s) in if n < length s then Some n else None)"

lemma strchr_append [simp]: "c \<notin> set xs \<Longrightarrow> strchr (xs @ c # ys) c = Some (length xs)"
  by (induction xs) (auto simp: strchr_def Let_def split: if_splits)

lemma strchr_Cons [simp]: "strchr (c # ys) c = Some 0"
  by (simp add: strchr_def)

lemma strchr_None [simp]: "c \<notin> set s \<Longrightarrow> strchr s c = None"
proof -
  assume "c \<notin> set s"
  then have "takeWhile (\<lambda>x. x \<noteq> c) s = s" by (auto simp: takeWhile_eq_all_conv)
  then show ?thesis unfolding strchr_def by (simp only: Let_def less_irrefl if_False)
qed

lemma strchr_SomeD:
  assumes "strchr s c = Some n"
  shows "n < length s" "s ! n = c" "c \<notin> set (take n s)"
proof -
  have n: "n = length (takeWhile (\<lambda>x. x \<noteq> c) s)" "n < length s"
    using assms by (simp_all add: strchr_def Let_def split: if_splits)
  then show "n < length s" "s ! n = c" using nth_length_takeWhile [of "\<lambda>x. x \<noteq> c" s] by simp_all
  have "take n s = takeWhile (\<lambda>x. x \<noteq> c) s" unfolding n(1) by (rule takeWhile_eq_take [symmetric])
  then show "c \<notin> set (take n s)" by (auto dest: set_takeWhileD)
qed

text \<open>\<open>strncmp(s, t, n) == 0\<close> and \<open>strcmp\<close> as equality.\<close>

fun strncmp_eq :: "string \<Rightarrow> string \<Rightarrow> nat \<Rightarrow> bool" where
  "strncmp_eq s t 0 \<longleftrightarrow> True"
| "strncmp_eq [] [] (Suc n) \<longleftrightarrow> True"
| "strncmp_eq (x # s) (y # t) (Suc n) \<longleftrightarrow> x = y \<and> strncmp_eq s t n"
| "strncmp_eq s t (Suc n) \<longleftrightarrow> False"

lemma strncmp_eq_take: "strncmp_eq s t n \<longleftrightarrow> take n s = take n t"
  by (induction s t n rule: strncmp_eq.induct) auto

text \<open>\<open>strstr\<close>: the first place where \<open>t\<close> stands in \<open>s\<close>.\<close>

fun strstr :: "string \<Rightarrow> string \<Rightarrow> nat option" where
  "strstr s t =
     (if take (length t) s = t then Some 0
      else case s of [] \<Rightarrow> None | _ # r \<Rightarrow> map_option Suc (strstr r t))"

declare strstr.simps [simp del]

lemma strstr_here: "strstr (t @ s) t = Some 0"
  by (simp add: strstr.simps)

text \<open>A string is found behind a text that does not have its first character.\<close>

lemma strstr_first:
  assumes "c \<notin> set xs"
  shows "strstr (xs @ (c # t) @ ys) (c # t) = Some (length xs)"
  using assms
proof (induction xs)
  case Nil
  then show ?case using strstr_here [of "c # t" ys] by simp
next
  case (Cons x xs)
  then show ?case by (subst strstr.simps) auto
qed

lemma strstr_SomeD: "strstr s t = Some n \<Longrightarrow> take (length t) (drop n s) = t"
proof (induction s arbitrary: n)
  case Nil
  then show ?case by (simp add: strstr.simps split: if_splits)
next
  case (Cons x s)
  then show ?case by (subst (asm) (2) strstr.simps) (auto split: if_splits)
qed

text \<open>Where \<open>strtol\<close> stops: behind the digits, or at the start when there are none.\<close>

definition strtol_rest :: "string \<Rightarrow> string" where
  "strtol_rest s =
     (let t = dropWhile is_space s;
          u = (case t of c # r \<Rightarrow> if c = CHR ''-'' \<or> c = CHR ''+'' then r else t | [] \<Rightarrow> [])
      in if takeWhile is_digit u = [] then s else dropWhile is_digit u)"

lemma strtol_rest_dec:
  assumes "t = [] \<or> \<not> is_digit (hd t)"
  shows "strtol_rest (dec n @ t) = t"
proof -
  have d: "list_all is_digit (dec n)" by (rule dec_digits)
  obtain c r where cr: "dec n = c # r" by (cases "dec n") auto
  then have c: "is_digit c" using d by simp
  have "dropWhile is_digit (dec n @ t) = t"
    using d assms by (cases t) (simp_all add: list_all_iff dropWhile_append)
  moreover have "takeWhile is_digit (dec n @ t) \<noteq> []" using cr c by simp
  moreover have "dropWhile is_space (dec n @ t) = dec n @ t"
    using digit_not_space [OF c] cr by simp
  moreover have "c \<noteq> CHR ''-''" "c \<noteq> CHR ''+''" using c by auto
  then have "(case dec n @ t of c # r \<Rightarrow> if c = CHR ''-'' \<or> c = CHR ''+'' then r else dec n @ t
      | [] \<Rightarrow> []) = dec n @ t" using cr by simp
  ultimately show ?thesis by (simp only: strtol_rest_def Let_def if_False)
qed

subsection \<open>The pieces of a text between separators\<close>

fun pieces :: "(char \<Rightarrow> bool) \<Rightarrow> string \<Rightarrow> string list" where
  "pieces P [] = [[]]"
| "pieces P (c # s) = (if P c then [] # pieces P s else (c # hd (pieces P s)) # tl (pieces P s))"

lemma pieces_not_Nil [simp]: "pieces P s \<noteq> []"
  by (cases s) auto

lemma pieces_word: "list_all (\<lambda>c. \<not> P c) w \<Longrightarrow> P d \<Longrightarrow> pieces P (w @ d # s) = w # pieces P s"
  by (induction w) auto

lemma pieces_last: "list_all (\<lambda>c. \<not> P c) w \<Longrightarrow> pieces P w = [w]"
  by (induction w) auto

lemma takeWhile_all: "list_all P xs \<Longrightarrow> takeWhile P xs = xs"
  by (induction xs) auto

lemma takeWhile_stop: "list_all P xs \<Longrightarrow> ys = [] \<or> \<not> P (hd ys) \<Longrightarrow> takeWhile P (xs @ ys) = xs"
  by (induction xs) (cases ys, auto)

end
