(* ===== verification/LibURL.thy ===== *)
theory LibURL
  imports CText
begin

text \<open>
  The URLs of hw4 (hw4/src/liburl.c): \<open>url_decode\<close> takes a path and the parameters \<open>key\<close> and
  \<open>val\<close> out of a URL, \<open>url_encode\<close> builds a URL from them in a buffer of 128 bytes. Decoding
  undoes encoding for what has no separator in it and fits the buffer.
\<close>

record url_params =
  url_path :: "string option"
  key_param :: "string option"
  val_param :: "string option"

text \<open>\<open>param_ptr\<close>: which field of the struct a name stands for.\<close>

datatype param = KeyParam | ValParam

definition param_ptr :: "string \<Rightarrow> nat \<Rightarrow> param option" where
  "param_ptr key keylen =
     (if strncmp_eq key ''key'' keylen then Some KeyParam
      else if strncmp_eq key ''val'' keylen then Some ValParam else None)"

fun set_param :: "param \<Rightarrow> string \<Rightarrow> url_params \<Rightarrow> url_params" where
  "set_param KeyParam v params = params\<lparr>key_param := Some v\<rparr>"
| "set_param ValParam v params = params\<lparr>val_param := Some v\<rparr>"

text \<open>The loop over the parameters; \<open>key_end\<close> and \<open>read_end\<close> are indices into \<open>url\<close>.\<close>

function param_loop :: "string \<Rightarrow> url_params \<Rightarrow> url_params" where
  "param_loop url params =
     (case strchr url CHR ''='' of
        None \<Rightarrow> params
      | Some key_end \<Rightarrow>
          let read_end = (case strchr url CHR ''&'' of None \<Rightarrow> length url | Some n \<Rightarrow> n);
              params' = (case param_ptr url key_end of
                 None \<Rightarrow> params
               | Some f \<Rightarrow> set_param f (take (read_end - key_end - 1) (drop (key_end + 1) url)) params)
          in if read_end = length url then params' else param_loop (drop (read_end + 1) url) params')"
  by pat_completeness auto
termination
  by (relation "measure (length \<circ> fst)") (auto dest!: strchr_SomeD(1) split: option.splits)

declare param_loop.simps [simp del]

definition url_decode :: "string \<Rightarrow> url_params" where
  "url_decode url =
     (let params = \<lparr>url_path = None, key_param = None, val_param = None\<rparr> in
      case strchr url CHR ''?'' of
        None \<Rightarrow> (if 1 < length url then params\<lparr>url_path := Some (drop 1 url)\<rparr> else params)
      | Some pathlen \<Rightarrow>
          param_loop (drop (pathlen + 1) url)
            (if 1 < pathlen then params\<lparr>url_path := Some (drop 1 (take pathlen url))\<rparr> else params))"

text \<open>\<open>sprintf\<close> into the 128 bytes of \<open>buf\<close>, which also holds the terminator.\<close>

definition url_encode :: "url_params \<Rightarrow> string option" where
  "url_encode params =
     (let p = (case url_path params of Some p \<Rightarrow> ''/'' @ p @ ''?'' | None \<Rightarrow> ''/?'');
          k = (case key_param params of Some k \<Rightarrow> ''key='' @ k @ ''&'' | None \<Rightarrow> []);
          v = (case val_param params of Some v \<Rightarrow> ''val='' @ v @ ''&'' | None \<Rightarrow> []);
          buf = p @ k @ v
      in if 128 < length buf + 1 then None else Some (butlast buf))"

subsection \<open>A matched name ends before the next separator\<close>

lemma param_ptr_name:
  assumes "param_ptr url n = Some f" "n < length url"
  shows "n \<le> 3" "CHR ''&'' \<notin> set (take n url)"
proof -
  from assms(1) have t: "take n url = take n ''key'' \<or> take n url = take n ''val''"
    by (auto simp: param_ptr_def strncmp_eq_take split: if_splits)
  then have "length (take n url) \<le> 3" by (elim disjE) simp_all
  then show "n \<le> 3" using assms(2) by simp
  have "set (take n ''key'') \<subseteq> set ''key''" "set (take n ''val'') \<subseteq> set ''val''"
    by (rule set_take_subset)+
  then show "CHR ''&'' \<notin> set (take n url)" using t by auto
qed

lemma param_value_start:
  assumes "strchr url CHR ''='' = Some k" "param_ptr url k = Some f" "strchr url CHR ''&'' = Some r"
  shows "k < r"
proof (rule ccontr)
  note e = strchr_SomeD [OF assms(1)] and a = strchr_SomeD [OF assms(3)]
  assume "\<not> k < r"
  moreover have "r \<noteq> k" using e a by auto
  ultimately have "r < k" by simp
  then have "CHR ''&'' \<in> set (take k url)" using a e by (auto simp: in_set_conv_nth intro!: exI [of _ r])
  then show False using param_ptr_name(2) [OF assms(2)] e by blast
qed

subsection \<open>Decoding what was encoded\<close>

lemma decode_last:
  assumes "param_ptr (n @ ''='' @ v) (length n) = Some f" "CHR ''='' \<notin> set n" "CHR ''&'' \<notin> set (n @ v)"
  shows "param_loop (n @ ''='' @ v) params = set_param f v params"
  using assms by (subst param_loop.simps) (simp add: Let_def)

lemma decode_more:
  assumes "param_ptr (n @ ''='' @ v @ ''&'' @ u) (length n) = Some f" "CHR ''='' \<notin> set n"
    "CHR ''&'' \<notin> set (n @ v)"
  shows "param_loop (n @ ''='' @ v @ ''&'' @ u) params = param_loop u (set_param f v params)"
proof -
  have "strchr ((n @ ''='' @ v) @ CHR ''&'' # u) CHR ''&'' = Some (length (n @ ''='' @ v))"
    using assms(3) by (intro strchr_append) auto
  then have "strchr (n @ ''='' @ v @ ''&'' @ u) CHR ''&'' = Some (length n + 1 + length v)" by simp
  then show ?thesis using assms(1,2) by (subst param_loop.simps) (simp add: Let_def)
qed


text \<open>
  What survives the way through a URL: a path with a character and without \<open>?\<close>, and parameters
  without \<open>&\<close>. Nothing is escaped.
\<close>

definition url_safe :: "url_params \<Rightarrow> bool" where
  "url_safe params \<longleftrightarrow>
     (case url_path params of None \<Rightarrow> True | Some p \<Rightarrow> p \<noteq> [] \<and> CHR ''?'' \<notin> set p)
     \<and> (case key_param params of None \<Rightarrow> True | Some k \<Rightarrow> CHR ''&'' \<notin> set k)
     \<and> (case val_param params of None \<Rightarrow> True | Some v \<Rightarrow> CHR ''&'' \<notin> set v)"

lemma decode_key:
  assumes "CHR ''&'' \<notin> set x"
  shows "param_loop (''key='' @ x) params = params\<lparr>key_param := Some x\<rparr>"
    and "param_loop (''key='' @ x @ ''&'' @ u) params = param_loop u (params\<lparr>key_param := Some x\<rparr>)"
  using decode_last [of "''key''" x KeyParam] decode_more [of "''key''" x u KeyParam] assms
  by (simp_all add: param_ptr_def)

lemma decode_val:
  assumes "CHR ''&'' \<notin> set x"
  shows "param_loop (''val='' @ x) params = params\<lparr>val_param := Some x\<rparr>"
    and "param_loop (''val='' @ x @ ''&'' @ u) params = param_loop u (params\<lparr>val_param := Some x\<rparr>)"
  using decode_last [of "''val''" x ValParam] decode_more [of "''val''" x u ValParam] assms
  by (simp_all add: param_ptr_def)

lemma decode_no_query:
  assumes "CHR ''?'' \<notin> set p"
  shows "url_decode (''/'' @ p) = \<lparr>url_path = (if p = [] then None else Some p), key_param = None, val_param = None\<rparr>"
  using assms by (cases p) (simp_all add: url_decode_def)

lemma decode_query:
  assumes "CHR ''?'' \<notin> set p"
  shows "url_decode (''/'' @ p @ ''?'' @ u) =
     param_loop u \<lparr>url_path = (if p = [] then None else Some p), key_param = None, val_param = None\<rparr>"
proof -
  have "strchr ((''/'' @ p) @ CHR ''?'' # u) CHR ''?'' = Some (length (''/'' @ p))"
    using assms by (intro strchr_append) auto
  then show ?thesis by (cases p) (simp_all add: url_decode_def)
qed

lemma url_roundtrip_law:
  assumes "url_encode params = Some url" and "url_safe params"
  shows "url_decode url = params"
proof -
  obtain p k v where P: "params = \<lparr>url_path = p, key_param = k, val_param = v\<rparr>" by (cases params) auto
  let ?p = "case p of None \<Rightarrow> [] | Some p \<Rightarrow> p"
  have p: "CHR ''?'' \<notin> set ?p" "(if ?p = [] then None else Some ?p) = p"
    using assms(2) P by (auto simp: url_safe_def split: option.splits)
  have path: "(case p of Some p \<Rightarrow> ''/'' @ p @ ''?'' | None \<Rightarrow> ''/?'') = ''/'' @ ?p @ ''?''"
    by (cases p) simp_all
  show ?thesis
  proof (cases k)
    case None
    note k = None
    show ?thesis
    proof (cases v)
      case None
      then have "url = ''/'' @ ?p"
        using assms(1) P k path by (auto simp: url_encode_def Let_def butlast_append split: if_splits)
      then show ?thesis using decode_no_query [OF p(1)] p(2) P k None by simp
    next
      case (Some y)
      then have "url = ''/'' @ ?p @ ''?'' @ ''val='' @ y"
        using assms(1) P k path by (auto simp: url_encode_def Let_def butlast_append split: if_splits)
      moreover have "CHR ''&'' \<notin> set y" using assms(2) P Some by (simp add: url_safe_def)
      ultimately show ?thesis using decode_query [OF p(1)] p(2) P k Some decode_val by simp
    qed
  next
    case (Some x)
    note k = Some
    have x: "CHR ''&'' \<notin> set x" using assms(2) P Some by (simp add: url_safe_def)
    show ?thesis
    proof (cases v)
      case None
      then have "url = ''/'' @ ?p @ ''?'' @ ''key='' @ x"
        using assms(1) P k path by (auto simp: url_encode_def Let_def butlast_append split: if_splits)
      then show ?thesis using decode_query [OF p(1)] p(2) P k None x decode_key by simp
    next
      case (Some y)
      then have "url = ''/'' @ ?p @ ''?'' @ ''key='' @ x @ ''&'' @ ''val='' @ y"
        using assms(1) P k path by (auto simp: url_encode_def Let_def butlast_append split: if_splits)
      moreover have "CHR ''&'' \<notin> set y" using assms(2) P Some by (simp add: url_safe_def)
      ultimately show ?thesis using decode_query [OF p(1)] p(2) P k Some x decode_key decode_val by simp
    qed
  qed
qed

end
