(* ===== verification/LibHTTP.thy ===== *)
theory LibHTTP
  imports CText
begin

text \<open>
  The HTTP messages of hw4 (hw4/src/libhttp.c). A parser works on what one \<open>read\<close> of the
  socket returned; a message under construction is its bytes so far. \<open>write\<close> may take fewer
  bytes than it is given: its results are an argument of the loop that sends.

  A parser that returns NULL has the result \<open>Some None\<close> (or \<open>None\<close>, where it has no undefined
  behaviour); \<open>None\<close> of the outer option is an access outside the buffer, as elsewhere.
\<close>

definition LIBHTTP_MESSAGE_MAX_SIZE :: nat where "LIBHTTP_MESSAGE_MAX_SIZE = 8192"

record http_request =
  http_method :: string
  http_path :: string

record http_response =
  http_status :: int
  http_body :: string

text \<open>The buffer after \<open>read\<close>, seen as a C string: it stops at the first NUL.\<close>

definition read_string :: "string \<Rightarrow> string" where
  "read_string bytes = takeWhile (\<lambda>c. c \<noteq> NUL) (take LIBHTTP_MESSAGE_MAX_SIZE bytes)"

definition CR :: char where "CR = CHR 0x0D"
definition LF :: char where "LF = CHR 0x0A"

subsection \<open>Receiving\<close>

definition http_is_valid_method :: "string \<Rightarrow> nat \<Rightarrow> bool" where
  "http_is_valid_method method len \<longleftrightarrow>
     strncmp_eq method ''GET'' len \<or> strncmp_eq method ''PUT'' len
     \<or> strncmp_eq method ''DELETE'' len \<or> strncmp_eq method ''POST'' len"

fun path_scan :: "string \<Rightarrow> nat option" where
  "path_scan [] = None"
| "path_scan (c # r) = (if c = CHR '' '' \<or> c = LF then Some 0 else map_option Suc (path_scan r))"

definition http_request_parse :: "string \<Rightarrow> http_request option" where
  "http_request_parse bytes =
     (if bytes = [] then None
      else let buf = read_string bytes in
        case strchr buf CHR '' '' of
          None \<Rightarrow> None
        | Some n \<Rightarrow>
            if \<not> http_is_valid_method buf n then None
            else (case drop (n + 1) buf of
                [] \<Rightarrow> None
              | c # r \<Rightarrow>
                  if c \<noteq> CHR ''/'' then None
                  else (case path_scan r of
                      None \<Rightarrow> None
                    | Some m \<Rightarrow> Some \<lparr>http_method = take n buf, http_path = c # take m r\<rparr>)))"

definition http_get_response_message :: "int \<Rightarrow> string option" where
  "http_get_response_message status_code =
     (if status_code = 100 then Some ''Continue''
      else if status_code = 200 then Some ''OK''
      else if status_code = 201 then Some ''Created''
      else if status_code = 202 then Some ''Accepted''
      else if status_code = 204 then Some ''No Content''
      else if status_code = 301 then Some ''Moved Permanently''
      else if status_code = 302 then Some ''Found''
      else if status_code = 304 then Some ''Not Modified''
      else if status_code = 400 then Some ''Bad Request''
      else if status_code = 401 then Some ''Unauthorized''
      else if status_code = 403 then Some ''Forbidden''
      else if status_code = 404 then Some ''Not Found''
      else if status_code = 405 then Some ''Method Not Allowed''
      else if status_code = 500 then Some ''Internal Server Error''
      else None)"

text \<open>\<open>read_limit\<close>: the next CR LF, or the next LF when there is none.\<close>

definition line_end :: "string \<Rightarrow> nat option" where
  "line_end s = (case strstr s [CR, LF] of Some n \<Rightarrow> Some n | None \<Rightarrow> strstr s [LF])"

text \<open>The loop over the headers. Its result is where it stopped and \<open>content_length\<close>.\<close>

function header_loop :: "string \<Rightarrow> int \<Rightarrow> (string \<times> int) option option" where
  "header_loop read_end content_length =
     (if strncmp_eq read_end [LF, LF] 2 \<or> strncmp_eq read_end [CR, LF, CR, LF] 4
      then Some (Some (read_end, content_length))
      else if length read_end < 2 then None
      else let read_start = drop 2 read_end in
        case line_end read_start of
          None \<Rightarrow> Some None
        | Some read_limit \<Rightarrow>
            (case strstr read_start '': '' of
               None \<Rightarrow> Some None
             | Some n \<Rightarrow>
                 if read_limit < n then Some None
                 else if strncmp_eq read_start ''Content-Length'' n then
                   let value = drop (n + 2) read_start;
                       content_length = sint (word_of_int (strtol value) :: 32 word);
                       rest = dropWhile (\<lambda>c. c = CHR '' '') (strtol_rest value)
                   in if length rest \<noteq> length (drop read_limit read_start) then Some None
                      else header_loop (drop read_limit read_start) content_length
                 else header_loop (drop read_limit read_start) content_length))"
  by pat_completeness auto
termination
  by (relation "measure (length \<circ> fst)") auto

declare header_loop.simps [simp del]

text \<open>The body goes into \<open>malloc(content_length + 1)\<close> by \<open>strcpy\<close>.\<close>

definition http_response_parse :: "string \<Rightarrow> http_response option option" where
  "http_response_parse bytes =
     (if bytes = [] then Some None
      else let buf = read_string bytes in
        case strchr buf CHR '' '' of
          None \<Rightarrow> Some None
        | Some n \<Rightarrow>
            if n \<noteq> 8 then Some None
            else if \<not> strncmp_eq buf ''HTTP/1.1'' 8 \<and> \<not> strncmp_eq buf ''HTTP/1.0'' 8 then Some None
            else
              let s = drop 9 buf;
                  status = sint (word_of_int (strtol s) :: 16 word);
                  r = strtol_rest s
              in if status = 0 \<or> length s \<noteq> length r + 3 \<or> take 1 r \<noteq> '' '' then Some None
                 else let t = drop 1 r in
                   case line_end t of
                     None \<Rightarrow> Some None
                   | Some m \<Rightarrow>
                       (case http_get_response_message status of
                          None \<Rightarrow> None
                        | Some msg \<Rightarrow>
                            if \<not> strncmp_eq t msg m then Some None
                            else do {
                              found \<leftarrow> header_loop (drop m t) (- 1);
                              case found of
                                None \<Rightarrow> Some None
                              | Some (read_end, content_length) \<Rightarrow>
                                  if length read_end < 4 then None
                                  else if content_length < int (length (drop 4 read_end))
                                    \<or> 2 ^ 31 - 1 \<le> content_length then None
                                  else Some (Some \<lparr>http_status = status, http_body = drop 4 read_end\<rparr>)
                            }))"

subsection \<open>Sending\<close>

fun valid_method_from :: "string \<Rightarrow> string list \<Rightarrow> bool" where
  "valid_method_from method [] \<longleftrightarrow> False"
| "valid_method_from method (m # ms) \<longleftrightarrow> method = m \<or> valid_method_from method ms"

definition valid_methods :: "string list" where
  "valid_methods = [''GET'', ''PUT'', ''DELETE'', ''POST'']"

definition is_valid_method :: "string \<Rightarrow> bool" where
  "is_valid_method method \<longleftrightarrow> valid_method_from method valid_methods"

record http_outbound =
  out_fd :: int
  out_body :: string

text \<open>\<open>sprintf\<close> at the end of the message also writes the terminator.\<close>

definition out_print :: "http_outbound \<Rightarrow> string \<Rightarrow> http_outbound option" where
  "out_print msg s =
     (if LIBHTTP_MESSAGE_MAX_SIZE < length (out_body msg) + length s then None
      else Some (msg\<lparr>out_body := out_body msg @ s\<rparr>))"

definition http_start_request :: "int \<Rightarrow> string \<Rightarrow> string \<Rightarrow> http_outbound option option" where
  "http_start_request fd method url =
     (if \<not> is_valid_method method then Some None
      else map_option Some (out_print \<lparr>out_fd = fd, out_body = []\<rparr>
             (method @ '' '' @ url @ '' HTTP/1.1'' @ [CR, LF])))"

definition http_start_response :: "int \<Rightarrow> int \<Rightarrow> http_outbound option option" where
  "http_start_response fd status_code =
     (case http_get_response_message status_code of
        None \<Rightarrow> Some None
      | Some status \<Rightarrow>
          map_option Some (out_print \<lparr>out_fd = fd, out_body = []\<rparr>
             (''HTTP/1.1 '' @ dec (nat status_code) @ '' '' @ status @ [CR, LF])))"

definition http_add_header :: "http_outbound \<Rightarrow> string \<Rightarrow> string \<Rightarrow> http_outbound option" where
  "http_add_header msg key value = out_print msg (key @ '': '' @ value @ [CR, LF])"

definition http_end_headers :: "http_outbound \<Rightarrow> http_outbound option" where
  "http_end_headers msg = out_print msg [CR, LF]"

text \<open>\<open>http_add_data\<close> copies without a terminator, so one byte more fits.\<close>

definition http_add_data :: "http_outbound \<Rightarrow> string \<Rightarrow> http_outbound option" where
  "http_add_data msg data =
     (if LIBHTTP_MESSAGE_MAX_SIZE + 1 < length (out_body msg) + length data then None
      else Some (msg\<lparr>out_body := out_body msg @ data\<rparr>))"

definition http_add_string :: "http_outbound \<Rightarrow> string option \<Rightarrow> http_outbound option" where
  "http_add_string msg data = (case data of None \<Rightarrow> Some msg | Some d \<Rightarrow> http_add_data msg d)"

text \<open>
  The loop around \<open>write\<close>, with the results of its calls: what went out, and the error that
  ended it. It does not come to an end when the results do not suffice.
\<close>

fun write_loop :: "int list \<Rightarrow> string \<Rightarrow> (string \<times> int option) option" where
  "write_loop ws [] = Some ([], None)"
| "write_loop [] (c # cs) = None"
| "write_loop (w # ws) (c # cs) =
     (if w < 0 then Some ([], Some w)
      else do { (out, r) \<leftarrow> write_loop ws (drop (nat w) (c # cs));
                Some (take (nat w) (c # cs) @ out, r) })"

definition http_send_and_free :: "int list \<Rightarrow> http_outbound \<Rightarrow> (string \<times> int) option" where
  "http_send_and_free ws msg =
     (if LIBHTTP_MESSAGE_MAX_SIZE < length (out_body msg) then None
      else do { (out, r) \<leftarrow> write_loop ws (out_body msg);
                Some (out, case r of None \<Rightarrow> int (length (out_body msg)) | Some e \<Rightarrow> e) })"


subsection \<open>Reading back\<close>

lemma read_string_id: "NUL \<notin> set s \<Longrightarrow> length s \<le> LIBHTTP_MESSAGE_MAX_SIZE \<Longrightarrow> read_string s = s"
  by (auto simp: read_string_def takeWhile_eq_all_conv)

lemma path_scan_stop:
  assumes "CHR '' '' \<notin> set u" "LF \<notin> set u" "c = CHR '' '' \<or> c = LF"
  shows "path_scan (u @ c # t) = Some (length u)"
  using assms by (induction u) auto

lemma path_scan_SomeD:
  "path_scan s = Some m \<Longrightarrow> \<exists>c t. s = take m s @ c # t \<and> (c = CHR '' '' \<or> c = LF)
     \<and> CHR '' '' \<notin> set (take m s) \<and> LF \<notin> set (take m s)"
proof (induction s arbitrary: m)
  case (Cons x s)
  then show ?case by (cases m) (auto split: if_splits)
qed simp

lemma strncmp_eq_self: "strncmp_eq (s @ t) s (length s)"
  by (simp add: strncmp_eq_take)

lemma http_request_parse_line:
  assumes m: "is_valid_method m" and u: "CHR '' '' \<notin> set u" "LF \<notin> set u" "NUL \<notin> set u"
    and c: "c = CHR '' '' \<or> c = LF" and t: "NUL \<notin> set t"
    and len: "length m + length u + length t + 3 \<le> LIBHTTP_MESSAGE_MAX_SIZE"
  shows "http_request_parse (m @ CHR '' '' # CHR ''/'' # u @ c # t)
     = Some \<lparr>http_method = m, http_path = CHR ''/'' # u\<rparr>"
proof -
  let ?s = "m @ CHR '' '' # CHR ''/'' # u @ c # t"
  have ms: "m \<in> set valid_methods" using m by (auto simp: is_valid_method_def valid_methods_def)
  then have sp: "CHR '' '' \<notin> set m" "NUL \<notin> set m" by (auto simp: valid_methods_def NUL_def)
  have "NUL \<notin> set ?s" using sp u c t by (auto simp: NUL_def LF_def)
  then have buf: "read_string ?s = ?s" using len by (intro read_string_id) auto
  have "http_is_valid_method ?s (length m)"
    using ms strncmp_eq_self [of m] by (auto simp: http_is_valid_method_def valid_methods_def)
  then show ?thesis
    using buf sp path_scan_stop [OF u(1,2) c] by (simp add: http_request_parse_def Let_def)
qed

lemma line_end_CR:
  assumes "CR \<notin> set s"
  shows "line_end (s @ CR # LF # t) = Some (length s)"
  using strstr_first [OF assms, of "[LF]" t] by (simp add: line_end_def)

lemma colon:
  assumes "CHR '':'' \<notin> set s"
  shows "strstr (s @ CHR '':'' # CHR '' '' # t) '': '' = Some (length s)"
  using strstr_first [OF assms, of "'' ''" t] by simp

lemma CR_LF_dec [simp]: "CR \<notin> set (dec n)" "LF \<notin> set (dec n)" "NUL \<notin> set (dec n)" "CHR '' '' \<notin> set (dec n)"
  using dec_digits [of n] by (auto simp: list_all_iff is_digit_def CR_def LF_def NUL_def)

lemma status_range: "http_get_response_message c = Some m \<Longrightarrow> c \<in> {100..500}"
  by (auto simp: http_get_response_message_def split: if_splits)

lemma message_chars:
  assumes "http_get_response_message c = Some m"
  shows "CR \<notin> set m" "NUL \<notin> set m" "length m \<le> 21"
proof -
  have "m \<in> {''Continue'', ''OK'', ''Created'', ''Accepted'', ''No Content'', ''Moved Permanently'', ''Found'',
      ''Not Modified'', ''Bad Request'', ''Unauthorized'', ''Forbidden'', ''Not Found'',
      ''Method Not Allowed'', ''Internal Server Error''}"
    using assms by (auto simp: http_get_response_message_def split: if_splits)
  then show "CR \<notin> set m" "NUL \<notin> set m" "length m \<le> 21"
    by (elim insertE emptyE; simp add: CR_def NUL_def)+
qed

lemma sint_small: "n < 2 ^ 31 \<Longrightarrow> sint (word_of_int (int n) :: 32 word) = int n"
  using sint_of_small_nat [of n] by simp

lemma header_loop_step:
  assumes "\<not> strncmp_eq e [LF, LF] 2" "\<not> strncmp_eq e [CR, LF, CR, LF] 4" "2 \<le> length e"
    and "line_end (drop 2 e) = Some l" "strstr (drop 2 e) '': '' = Some n" "n \<le> l"
    and "strncmp_eq (drop 2 e) ''Content-Length'' n"
    and "dropWhile (\<lambda>c. c = CHR '' '') (strtol_rest (drop (n + 2) (drop 2 e))) = drop l (drop 2 e)"
  shows "header_loop e cl =
     header_loop (drop l (drop 2 e)) (sint (word_of_int (strtol (drop (n + 2) (drop 2 e))) :: 32 word))"
  using assms by (subst header_loop.simps) (simp add: Let_def del: drop_drop)

lemma header_loop_length:
  assumes "n < 2 ^ 31"
  shows "header_loop (CR # LF # ''Content-Length: '' @ dec n @ [CR, LF, CR, LF] @ body) cl
     = Some (Some ([CR, LF, CR, LF] @ body, int n))"
proof -
  let ?t = "[CR, LF, CR, LF] @ body"
  let ?s = "''Content-Length: '' @ dec n @ ?t"
  have stop: "header_loop ?t (int n) = Some (Some (?t, int n))"
    by (subst header_loop.simps) (simp add: strncmp_eq_take)
  have c: "CHR ''C'' \<noteq> CR" "CHR ''C'' \<noteq> LF" "CR \<noteq> LF" "CR \<noteq> CHR '' ''" by (simp_all add: CR_def LF_def)
  have "CR \<notin> set (''Content-Length: '' @ dec n)" by (simp add: CR_def [symmetric]) (simp add: CR_def)
  from line_end_CR [OF this, of "[CR, LF] @ body"]
  have le: "line_end ?s = Some (16 + length (dec n))" by simp
  have co: "strstr ?s '': '' = Some 14" using colon [of "''Content-Length''" "dec n @ ?t"] by simp
  have v: "drop (14 + 2) ?s = dec n @ ?t" by simp
  have nd: "?t = [] \<or> \<not> is_digit (hd ?t)" by (simp add: CR_def is_digit_def)
  have num: "sint (word_of_int (strtol (dec n @ ?t)) :: 32 word) = int n"
    using strtol_dec [OF _ nd, of n] assms sint_small [OF assms] by simp
  have rest: "dropWhile (\<lambda>c. c = CHR '' '') (strtol_rest (dec n @ ?t)) = ?t"
    using strtol_rest_dec [OF nd, of n] c by simp
  have lim: "drop (16 + length (dec n)) ?s = ?t"
    unfolding add.commute [of 16] drop_drop [symmetric] by simp
  have eq: "strncmp_eq ?s ''Content-Length'' 14" by (simp add: strncmp_eq_take)
  have first: "\<not> strncmp_eq (CR # LF # ?s) [LF, LF] 2" "\<not> strncmp_eq (CR # LF # ?s) [CR, LF, CR, LF] 4"
    using c by (simp_all add: strncmp_eq_take numeral_2_eq_2 numeral_eq_Suc)
  have "header_loop (CR # LF # ?s) cl = header_loop (drop (16 + length (dec n)) ?s) (int n)"
    using header_loop_step [of "CR # LF # ?s" "16 + length (dec n)" 14 cl] first le co eq v num rest lim by simp
  then show ?thesis using stop lim by simp
qed


lemma length_dec3:
  assumes "100 \<le> n" "n \<le> 500"
  shows "length (dec n) = 3"
proof -
  have "\<not> n < 10" "\<not> n div 10 < 10" "n div 10 div 10 < 10" using assms by linarith+
  then show ?thesis by (subst dec.simps, subst dec.simps, subst dec.simps) simp
qed

text \<open>A status line as \<open>http_start_response\<close> prints it leads to the loop over the headers.\<close>

lemma http_response_parse_status:
  assumes m: "http_get_response_message (int code) = Some msg" and u: "NUL \<notin> set u"
    and s: "s = ''HTTP/1.1 '' @ dec code @ '' '' @ msg @ CR # LF # u"
    and len: "length s \<le> LIBHTTP_MESSAGE_MAX_SIZE"
  shows "http_response_parse s = do {
     found \<leftarrow> header_loop (CR # LF # u) (- 1);
     case found of
       None \<Rightarrow> Some None
     | Some (read_end, content_length) \<Rightarrow>
         if length read_end < 4 then None
         else if content_length < int (length (drop 4 read_end)) \<or> 2 ^ 31 - 1 \<le> content_length then None
         else Some (Some \<lparr>http_status = int code, http_body = drop 4 read_end\<rparr>) }"
proof -
  let ?t = "msg @ CR # LF # u"
  let ?r = "CHR '' '' # ?t"
  note mc = message_chars [OF m]
  have code: "100 \<le> code" "code \<le> 500" using status_range [OF m] by auto
  have "NUL \<notin> set s" using u mc unfolding s by (simp add: CR_def [symmetric] LF_def [symmetric])
      (auto simp: NUL_def CR_def LF_def)
  then have buf: "read_string s = s" using len by (rule read_string_id)
  have s9: "s = ''HTTP/1.1 '' @ dec code @ ?r" using s by simp
  have nd: "?r = [] \<or> \<not> is_digit (hd ?r)" by simp
  have st: "sint (word_of_int (strtol (dec code @ ?r)) :: 16 word) = int code"
    using strtol_dec [OF _ nd, of code] code
    by (simp add: signed_of_nat signed_take_bit_int_eq_self)
  have rest: "strtol_rest (dec code @ ?r) = ?r" using strtol_rest_dec [OF nd] .
  have le: "line_end ?t = Some (length msg)" using line_end_CR [OF mc(1)] by simp
  have sp: "strchr s CHR '' '' = Some 8"
    using strchr_append [of "CHR '' ''" "''HTTP/1.1''" "dec code @ ?r"] unfolding s9 by simp
  have d9: "drop 9 s = dec code @ ?r" unfolding s9 by simp
  have eq: "strncmp_eq s ''HTTP/1.1'' 8" unfolding s9 by (simp add: strncmp_eq_take)
  have msg: "strncmp_eq ?t msg (length msg)" using strncmp_eq_self .
  have "s \<noteq> []" unfolding s9 by simp
  then show ?thesis
    unfolding http_response_parse_def buf Let_def sp d9 st rest
    using eq length_dec3 [OF code] code m le msg by simp
qed

lemma http_response_parse_built:
  assumes m: "http_get_response_message (int code) = Some msg" and b: "NUL \<notin> set body"
    and s: "s = ''HTTP/1.1 '' @ dec code @ '' '' @ msg @ [CR, LF] @ ''Content-Length: ''
        @ dec (length body) @ [CR, LF, CR, LF] @ body"
    and len: "length s \<le> LIBHTTP_MESSAGE_MAX_SIZE"
  shows "http_response_parse s = Some (Some \<lparr>http_status = int code, http_body = body\<rparr>)"
proof -
  let ?u = "''Content-Length: '' @ dec (length body) @ [CR, LF, CR, LF] @ body"
  have "NUL \<notin> set ?u" using b by (simp add: CR_def LF_def NUL_def) (simp add: NUL_def [symmetric])
  moreover have "s = ''HTTP/1.1 '' @ dec code @ '' '' @ msg @ CR # LF # ?u" using s by simp
  moreover have "length body < 2 ^ 31 - 1" using len s by (simp add: LIBHTTP_MESSAGE_MAX_SIZE_def)
  moreover have "header_loop (CR # LF # ?u) (- 1) = Some (Some ([CR, LF, CR, LF] @ body, int (length body)))"
    using header_loop_length [of "length body" body "- 1"] calculation(3) by simp
  ultimately show ?thesis using http_response_parse_status [OF m _ _ len, of ?u] by simp
qed

subsection \<open>Sending everything\<close>

lemma write_loop_done: "write_loop ws data = Some (out, None) \<Longrightarrow> out = data"
  by (induction ws data arbitrary: out rule: write_loop.induct) (auto split: if_splits bind_splits)

lemma write_loop_error:
  "write_loop ws data = Some (out, Some e) \<Longrightarrow> e < 0 \<and> (\<exists>rest. data = out @ rest \<and> rest \<noteq> [])"
proof (induction ws data arbitrary: out rule: write_loop.induct)
  case (3 w ws c cs)
  show ?case
  proof (cases "w < 0")
    case True
    then show ?thesis using "3.prems" by simp
  next
    case False
    then obtain out' where o: "write_loop ws (drop (nat w) (c # cs)) = Some (out', Some e)"
      "out = take (nat w) (c # cs) @ out'" using "3.prems" by (auto split: bind_splits)
    from "3.IH" [OF False o(1)] obtain rest where "e < 0" "drop (nat w) (c # cs) = out' @ rest" "rest \<noteq> []"
      by blast
    then show ?thesis using append_take_drop_id [of "nat w" "c # cs"] o(2) by (metis append.assoc)
  qed
qed simp_all

lemma write_loop_no_error:
  "\<forall>w \<in> set ws. 0 \<le> w \<Longrightarrow> write_loop ws data = Some (out, res) \<Longrightarrow> res = None"
  by (induction ws data arbitrary: out rule: write_loop.induct) (auto split: if_splits bind_splits)

lemma send_succeeds:
  assumes "\<forall>w \<in> set ws. 0 \<le> w" "http_send_and_free ws msg = Some (out, r)"
  shows "0 \<le> r"
  using write_loop_no_error [OF assms(1)] assms(2)
  by (force simp: http_send_and_free_def split: if_splits bind_splits)

lemma write_loop_enough:
  assumes "\<forall>w \<in> set ws. 0 \<le> w" "int (length data) \<le> sum_list ws"
  shows "write_loop ws data = Some (data, None)"
  using assms
proof (induction ws data rule: write_loop.induct)
  case (3 w ws c cs)
  have "int (length (drop (nat w) (c # cs))) \<le> sum_list ws"
  proof (cases "nat w \<le> length (c # cs)")
    case False
    then show ?thesis using "3.prems" by (simp add: sum_list_nonneg)
  qed (use "3.prems" in auto)
  then have "write_loop ws (drop (nat w) (c # cs)) = Some (drop (nat w) (c # cs), None)"
    using 3 by simp
  then show ?case using "3.prems" append_take_drop_id [of "nat w" "c # cs"] by simp
qed simp_all


subsection \<open>Properties\<close>

text \<open>C27: the parser of requests is sound. What it returns stands at the start of what was read:
  a prefix of one of the four methods, one space, a path that starts with a slash and has no
  space and no line feed, and a space or line feed behind it.\<close>

theorem request_parse_sound:
  assumes "http_request_parse bytes = Some req"
  shows "\<exists>c rest. read_string bytes = http_method req @ CHR '' '' # http_path req @ c # rest
     \<and> (c = CHR '' '' \<or> c = LF) \<and> (\<exists>u. http_path req = CHR ''/'' # u)
     \<and> CHR '' '' \<notin> set (http_path req) \<and> LF \<notin> set (http_path req)
     \<and> (\<exists>m \<in> set valid_methods. \<exists>n. http_method req = take n m)"
proof -
  let ?buf = "read_string bytes"
  from assms obtain n c r m where 1: "strchr ?buf CHR '' '' = Some n" "http_is_valid_method ?buf n"
    "drop (n + 1) ?buf = c # r" "c = CHR ''/''" "path_scan r = Some m"
    "req = \<lparr>http_method = take n ?buf, http_path = c # take m r\<rparr>"
    by (auto simp: http_request_parse_def Let_def split: if_splits option.splits list.splits)
  note sp = strchr_SomeD [OF 1(1)]
  have "?buf = take n ?buf @ ?buf ! n # drop (n + 1) ?buf" using sp(1) by (simp add: id_take_nth_drop)
  then have b: "?buf = take n ?buf @ CHR '' '' # c # r" unfolding sp(2) 1(3) .
  obtain d t where d: "r = take m r @ d # t" "d = CHR '' '' \<or> d = LF" "CHR '' '' \<notin> set (take m r)" "LF \<notin> set (take m r)"
    using path_scan_SomeD [OF 1(5)] by blast
  have "\<exists>k \<in> set valid_methods. take n ?buf = take n k"
    using 1(2) by (auto simp: http_is_valid_method_def strncmp_eq_take valid_methods_def)
  moreover have "?buf = take n ?buf @ CHR '' '' # (c # take m r) @ d # t" using b d(1) by simp
  ultimately show ?thesis using 1(4,6) d(2-4) by (intro exI [of _ d] exI [of _ t]) (auto simp: LF_def)
qed

lemma request_parse_sound_witness:
  "\<exists>req. http_request_parse (''GE /a HTTP'') = Some req \<and> (\<exists>m \<in> set valid_methods. \<exists>n. http_method req = take n m)"
proof -
  have "http_request_parse (''GE /a HTTP'') = Some \<lparr>http_method = ''GE'', http_path = ''/a''\<rparr>"
    by code_simp
  from request_parse_sound [OF this] this show ?thesis by blast
qed

text \<open>Whatever portions \<open>write\<close> takes, a message goes out whole and in order when no call fails.\<close>

lemma http_send_complete:
  assumes "\<forall>w \<in> set ws. 0 \<le> w" and "int (length (out_body msg)) \<le> sum_list ws"
    and "length (out_body msg) \<le> LIBHTTP_MESSAGE_MAX_SIZE"
  shows "http_send_and_free ws msg = Some (out_body msg, int (length (out_body msg)))"
  using assms write_loop_enough [of ws "out_body msg"] by (simp add: http_send_and_free_def)

text \<open>A response without a Content-Length header has no defined result, whatever its body: the
  body is copied into a buffer of no bytes.\<close>

lemma no_length_overflows:
  assumes "http_get_response_message (int code) = Some msg" and "NUL \<notin> set body"
    and "length body \<le> 8000"
  shows "http_response_parse (''HTTP/1.1 '' @ dec code @ '' '' @ msg @ [CR, LF, CR, LF] @ body) = None"
proof -
  let ?s = "''HTTP/1.1 '' @ dec code @ '' '' @ msg @ [CR, LF, CR, LF] @ body"
  have hl: "header_loop (CR # LF # CR # LF # body) (- 1) = Some (Some (CR # LF # CR # LF # body, - 1))"
    by (subst header_loop.simps) (simp add: strncmp_eq_take)
  have "length (dec code) = 3" using status_range [OF assms(1)] by (intro length_dec3) auto
  then have "length ?s \<le> LIBHTTP_MESSAGE_MAX_SIZE"
    using assms(3) message_chars(3) [OF assms(1)] by (simp add: LIBHTTP_MESSAGE_MAX_SIZE_def)
  moreover have "NUL \<notin> set (CR # LF # body)" using assms(2) by (auto simp: CR_def LF_def NUL_def)
  ultimately show ?thesis using http_response_parse_status [OF assms(1), of "CR # LF # body"] hl by simp
qed

lemma no_length_overflows_witness:
  "http_response_parse (''HTTP/1.1 204 No Content'' @ [CR, LF, CR, LF]) = None"
proof -
  have "dec 204 = ''204''" by code_simp
  then show ?thesis using no_length_overflows [of 204 "''No Content''" "[]"]
    by (simp add: http_get_response_message_def)
qed

end
