(* ===== verification/KVMessage.thy ===== *)
theory KVMessage
  imports KVTypes LibURL LibHTTP
begin

text \<open>
  Requests and responses of the store as HTTP messages (hw4/src/kvmessage.c). A message that was
  sent is received as the same message, within the limits of the buffers and when no string
  holds a separator.
\<close>

subsection \<open>Requests\<close>

text \<open>The type of a request; \<open>EMPTY\<close> where the code jumps to \<open>error\<close>.\<close>

definition request_type :: "string \<Rightarrow> url_params \<Rightarrow> msgtype_t" where
  "request_type method params =
     (if method = ''GET'' then (if key_param params = None then INDEX else GETREQ)
      else if method = ''PUT'' then
        (if key_param params = None \<or> val_param params = None then EMPTY else PUTREQ)
      else if method = ''DELETE'' then (if key_param params = None then EMPTY else DELREQ)
      else if method = ''POST'' then
        (case url_path params of
           None \<Rightarrow> EMPTY
         | Some p \<Rightarrow>
             if p = REGISTER_PATH then
               (if key_param params = None \<or> val_param params = None then EMPTY else REGISTER)
             else if p = COMMIT_PATH then COMMIT
             else if p = ABORT_PATH then ABORT
             else EMPTY)
      else EMPTY)"

definition kvrequest_recieve :: "string \<Rightarrow> kvrequest_t option" where
  "kvrequest_recieve bytes =
     do { req \<leftarrow> http_request_parse bytes;
          let params = url_decode (http_path req);
              t = request_type (http_method req) params
          in if t = EMPTY then None
             else Some \<lparr>req_type = t, req_key = key_param params, req_val = val_param params\<rparr> }"

fun http_method_for_request_type :: "msgtype_t \<Rightarrow> string option" where
  "http_method_for_request_type GETREQ = Some ''GET''"
| "http_method_for_request_type PUTREQ = Some ''PUT''"
| "http_method_for_request_type DELREQ = Some ''DELETE''"
| "http_method_for_request_type REGISTER = Some ''POST''"
| "http_method_for_request_type COMMIT = Some ''POST''"
| "http_method_for_request_type ABORT = Some ''POST''"
| "http_method_for_request_type _ = None"

fun path_for_request_type :: "msgtype_t \<Rightarrow> string option" where
  "path_for_request_type REGISTER = Some ''register''"
| "path_for_request_type COMMIT = Some ''commit''"
| "path_for_request_type ABORT = Some ''abort''"
| "path_for_request_type _ = None"

text \<open>What went out on the socket, and the value returned.\<close>

definition kvrequest_send :: "int list \<Rightarrow> kvrequest_t \<Rightarrow> int \<Rightarrow> (string \<times> int) option" where
  "kvrequest_send ws kvreq sockfd =
     (case http_method_for_request_type (req_type kvreq) of
        None \<Rightarrow> Some ([], - 1)
      | Some method \<Rightarrow>
          do { url \<leftarrow> url_encode \<lparr>url_path = path_for_request_type (req_type kvreq),
                        key_param = req_key kvreq, val_param = req_val kvreq\<rparr>;
               started \<leftarrow> http_start_request sockfd method url;
               case started of
                 None \<Rightarrow> Some ([], - 1)
               | Some msg \<Rightarrow> do { msg \<leftarrow> http_end_headers msg; http_send_and_free ws msg } })"

subsection \<open>Responses\<close>

definition kvresponse_get_status_code :: "int \<Rightarrow> msgtype_t" where
  "kvresponse_get_status_code status =
     (if status = 200 then GETRESP else if status = 201 then SUCCESS else if status = 500 then ERROR
      else if status = 202 then VOTE else if status = 204 then ACK else EMPTY)"

definition kvresponse_recieve :: "string \<Rightarrow> kvresponse_t option option" where
  "kvresponse_recieve bytes =
     map_option (\<lambda>r. case r of
        None \<Rightarrow> None
      | Some res \<Rightarrow>
          let t = kvresponse_get_status_code (http_status res)
          in if t = EMPTY then None else Some \<lparr>res_type = t, res_body = Some (http_body res)\<rparr>)
       (http_response_parse bytes)"

fun http_code_for_response_type :: "msgtype_t \<Rightarrow> int" where
  "http_code_for_response_type GETRESP = 200"
| "http_code_for_response_type SUCCESS = 201"
| "http_code_for_response_type ERROR = 500"
| "http_code_for_response_type VOTE = 202"
| "http_code_for_response_type ACK = 204"
| "http_code_for_response_type _ = - 1"

text \<open>\<open>lenbuf\<close> holds ten bytes.\<close>

definition lenbuf :: "string option \<Rightarrow> string option" where
  "lenbuf body = (case body of
      None \<Rightarrow> Some ''0''
    | Some b \<Rightarrow> if 10 < length (dec (length b)) + 1 then None else Some (dec (length b)))"

definition kvresponse_send :: "int list \<Rightarrow> kvresponse_t \<Rightarrow> int \<Rightarrow> (string \<times> int) option" where
  "kvresponse_send ws kvres sockfd =
     (let code = http_code_for_response_type (res_type kvres) in
      if code < 0 then Some ([], - 1)
      else do {
        started \<leftarrow> http_start_response sockfd code;
        case started of
          None \<Rightarrow> Some ([], - 1)
        | Some msg \<Rightarrow>
            do { len \<leftarrow> lenbuf (res_body kvres);
                 msg \<leftarrow> http_add_header msg ''Content-Length'' len;
                 msg \<leftarrow> http_end_headers msg;
                 msg \<leftarrow> http_add_string msg (res_body kvres);
                 http_send_and_free ws msg } })"

subsection \<open>The bytes of a message\<close>

lemma valid_methods_simps [simp]:
  "is_valid_method ''GET''" "is_valid_method ''PUT''" "is_valid_method ''DELETE''" "is_valid_method ''POST''"
  by (simp_all add: is_valid_method_def valid_methods_def)

lemma method_valid: "http_method_for_request_type t = Some m \<Longrightarrow> is_valid_method m \<and> length m \<le> 6"
  by (cases t) auto

definition request_url :: "kvrequest_t \<Rightarrow> string option" where
  "request_url kvreq = url_encode \<lparr>url_path = path_for_request_type (req_type kvreq),
     key_param = req_key kvreq, val_param = req_val kvreq\<rparr>"

lemma url_encode_length: "url_encode params = Some url \<Longrightarrow> length url < 128"
  by (auto simp: url_encode_def Let_def split: if_splits)

lemma kvrequest_send_bytes:
  assumes m: "http_method_for_request_type (req_type kvreq) = Some m" and u: "request_url kvreq = Some url"
  shows "kvrequest_send ws kvreq fd =
     http_send_and_free ws \<lparr>out_fd = fd, out_body = m @ '' '' @ url @ '' HTTP/1.1'' @ [CR, LF, CR, LF]\<rparr>"
  using m u method_valid [OF m] url_encode_length [OF u [unfolded request_url_def]]
  by (simp add: kvrequest_send_def request_url_def http_start_request_def http_end_headers_def
      out_print_def LIBHTTP_MESSAGE_MAX_SIZE_def)

lemma send_positive:
  assumes "http_send_and_free ws msg = Some (wire, r)" "0 \<le> r"
  shows "wire = out_body msg \<and> length wire \<le> LIBHTTP_MESSAGE_MAX_SIZE"
proof -
  from assms(1) obtain res where w: "write_loop ws (out_body msg) = Some (wire, res)"
    "r = (case res of None \<Rightarrow> int (length (out_body msg)) | Some e \<Rightarrow> e)"
    "length (out_body msg) \<le> LIBHTTP_MESSAGE_MAX_SIZE"
    by (auto simp: http_send_and_free_def split: if_splits bind_splits)
  then have "res = None" using assms(2) write_loop_error by (cases res) force+
  then show ?thesis using w write_loop_done by auto
qed


subsection \<open>Round trips\<close>

text \<open>A string that survives the request line: no separator of the URL or the line in it.\<close>

definition plain :: "string \<Rightarrow> bool" where
  "plain s \<longleftrightarrow> CHR '' '' \<notin> set s \<and> CHR ''&'' \<notin> set s \<and> LF \<notin> set s \<and> NUL \<notin> set s"

lemma url_encode_chars:
  assumes "url_encode params = Some url" "pred_option (\<lambda>p. c \<notin> set p) (url_path params)"
    "pred_option (\<lambda>k. c \<notin> set k) (key_param params)" "pred_option (\<lambda>v. c \<notin> set v) (val_param params)"
    "c \<notin> set ''/?key=&val=''"
  shows "\<exists>u. url = CHR ''/'' # u \<and> c \<notin> set u"
proof -
  obtain p k v where P: "params = \<lparr>url_path = p, key_param = k, val_param = v\<rparr>" by (cases params) auto
  show ?thesis using assms unfolding P
    by (cases p; cases k; cases v) (auto simp: url_encode_def Let_def butlast_append split: if_splits)
qed

lemma path_chars: "c \<notin> set ''registercommitabort'' \<Longrightarrow> pred_option (\<lambda>p. c \<notin> set p) (path_for_request_type t)"
  by (cases t) auto

lemma request_url_chars:
  assumes "request_url req = Some url" "pred_option (\<lambda>k. c \<notin> set k) (req_key req)"
    "pred_option (\<lambda>v. c \<notin> set v) (req_val req)" "c \<notin> set ''/?key=&val=registercommitabort''"
  shows "\<exists>u. url = CHR ''/'' # u \<and> c \<notin> set u"
  using url_encode_chars [OF assms(1) [unfolded request_url_def], of c] path_chars [of c "req_type req"] assms
  by simp

lemma request_url_plain:
  assumes u: "request_url req = Some url" and k: "pred_option plain (req_key req)" and v: "pred_option plain (req_val req)"
  shows "\<exists>u. url = CHR ''/'' # u \<and> CHR '' '' \<notin> set u \<and> LF \<notin> set u \<and> NUL \<notin> set u"
proof -
  have "pred_option (\<lambda>k. c \<notin> set k) (req_key req)" "pred_option (\<lambda>v. c \<notin> set v) (req_val req)"
    if "c \<in> {CHR '' '', LF, NUL}" for c
    using k v that by (auto simp: option.pred_set plain_def)
  then show ?thesis
    using request_url_chars [OF u, of "CHR '' ''"] request_url_chars [OF u, of LF] request_url_chars [OF u, of NUL]
    by (auto simp: LF_def NUL_def)
qed

lemma request_url_safe:
  assumes "pred_option plain (req_key req)" "pred_option plain (req_val req)"
  shows "url_safe \<lparr>url_path = path_for_request_type (req_type req), key_param = req_key req, val_param = req_val req\<rparr>"
  using assms by (cases "req_type req") (auto simp: url_safe_def plain_def split: option.splits)

lemma request_url_decode:
  assumes u: "request_url req = Some url" and "pred_option plain (req_key req)" "pred_option plain (req_val req)"
  shows "url_decode url = \<lparr>url_path = path_for_request_type (req_type req), key_param = req_key req, val_param = req_val req\<rparr>"
  by (rule url_roundtrip_law [OF u [unfolded request_url_def] request_url_safe [OF assms(2,3)]])

lemma request_type_complete:
  assumes "http_method_for_request_type (req_type req) = Some m" "request_complete req"
  shows "request_type m \<lparr>url_path = path_for_request_type (req_type req), key_param = req_key req, val_param = req_val req\<rparr>
     = req_type req"
  using assms
  by (cases "req_type req")
    (auto simp: request_type_def request_complete_def REGISTER_PATH_def COMMIT_PATH_def MSG_COMMIT_def ABORT_PATH_def)

lemma sent_request_parses:
  assumes m: "http_method_for_request_type (req_type req) = Some m" and u: "request_url req = Some url"
    and k: "pred_option plain (req_key req)" and v: "pred_option plain (req_val req)"
    and s: "kvrequest_send ws req fd = Some (bytes, r)" "0 \<le> r"
  shows "http_request_parse bytes = Some \<lparr>http_method = m, http_path = url\<rparr>"
proof -
  note sent = send_positive [OF s(1) [unfolded kvrequest_send_bytes [OF m u]] s(2)]
  have w: "bytes = m @ '' '' @ url @ '' HTTP/1.1'' @ [CR, LF, CR, LF]" using sent by simp
  have len: "length m + length url + 14 \<le> LIBHTTP_MESSAGE_MAX_SIZE" using sent unfolding w by simp
  from request_url_plain [OF u k v] obtain p where
    p: "url = CHR ''/'' # p" "CHR '' '' \<notin> set p" "LF \<notin> set p" "NUL \<notin> set p" by blast
  let ?t = "''HTTP/1.1'' @ [CR, LF, CR, LF]"
  show ?thesis
    using http_request_parse_line [of m p "CHR '' ''" ?t] method_valid [OF m] p w len
    by (simp add: CR_def LF_def NUL_def)
qed

text \<open>A request that was sent whole is received as the same request, when its strings are plain.\<close>

lemma request_roundtrip_law:
  assumes m: "http_method_for_request_type (req_type req) \<noteq> None" and c: "request_complete req"
    and k: "pred_option plain (req_key req)" and v: "pred_option plain (req_val req)"
    and s: "kvrequest_send ws req fd = Some (wire, r)" "0 \<le> r"
  shows "kvrequest_recieve wire = Some req"
proof -
  obtain m where m: "http_method_for_request_type (req_type req) = Some m" using m by blast
  obtain url where u: "request_url req = Some url"
    using s(1) m by (auto simp: kvrequest_send_def request_url_def split: bind_splits)
  show ?thesis
    using sent_request_parses [OF m u k v s] request_url_decode [OF u k v] request_type_complete [OF m c] m
    by (cases req) (auto simp: kvrequest_recieve_def Let_def)
qed

lemma dec_0: "dec 0 = ''0''"
  by code_simp

lemma response_roundtrip_law:
  assumes c: "0 \<le> http_code_for_response_type (res_type res)" and b: "pred_option (\<lambda>b. NUL \<notin> set b) (res_body res)"
    and s: "kvresponse_send ws res fd = Some (wire, r)" "0 \<le> r"
  shows "kvresponse_recieve wire = Some (Some \<lparr>res_type = res_type res,
     res_body = Some (case res_body res of None \<Rightarrow> [] | Some b \<Rightarrow> b)\<rparr>)"
proof -
  let ?b = "case res_body res of None \<Rightarrow> [] | Some b \<Rightarrow> b"
  let ?c = "nat (http_code_for_response_type (res_type res))"
  obtain msg where m: "http_get_response_message (int ?c) = Some msg"
    using c by (cases "res_type res") (auto simp: http_get_response_message_def)
  have ic: "int ?c = http_code_for_response_type (res_type res)" using c by simp
  have ne: "\<not> http_code_for_response_type (res_type res) < 0" using c by simp
  have lb: "lenbuf (res_body res) = Some l \<Longrightarrow> l = dec (length ?b)" for l
    by (auto simp: lenbuf_def dec_0 split: option.splits if_splits)
  let ?w = "''HTTP/1.1 '' @ dec ?c @ '' '' @ msg @ [CR, LF] @ ''Content-Length: ''
        @ dec (length ?b) @ [CR, LF, CR, LF] @ ?b"
  have "\<exists>ob. http_send_and_free ws ob = Some (wire, r) \<and> out_body ob = ?w"
    using s(1) m lb ne ic
    by (auto simp: kvresponse_send_def Let_def http_start_response_def out_print_def http_add_header_def
        http_end_headers_def http_add_string_def http_add_data_def split: if_splits bind_splits option.splits)
  then have w: "wire = ?w" "length wire \<le> LIBHTTP_MESSAGE_MAX_SIZE" using send_positive s(2) by metis+
  have "NUL \<notin> set ?b" using b by (cases "res_body res") simp_all
  from http_response_parse_built [OF m this w] ic c show ?thesis
    by (cases "res_type res") (simp_all add: kvresponse_recieve_def kvresponse_get_status_code_def)
qed


lemma request_roundtrip_witness:
  "kvrequest_recieve (''PUT /?key=k&val=v HTTP/1.1'' @ [CR, LF, CR, LF])
     = Some \<lparr>req_type = PUTREQ, req_key = Some ''k'', req_val = Some ''v''\<rparr>"
proof (rule request_roundtrip_law)
  show "kvrequest_send [10, 90] \<lparr>req_type = PUTREQ, req_key = Some ''k'', req_val = Some ''v''\<rparr> 3
    = Some (''PUT /?key=k&val=v HTTP/1.1'' @ [CR, LF, CR, LF], 30)"
    by (simp add: kvrequest_send_def url_encode_def http_start_request_def http_end_headers_def
        out_print_def http_send_and_free_def LIBHTTP_MESSAGE_MAX_SIZE_def)
qed (simp_all add: request_complete_def plain_def LF_def NUL_def)

subsection \<open>Limits\<close>

text \<open>C28: a PUT request is sent exactly when its key and value have at most 115 bytes together.
  A longer one overflows the 128 bytes of \<open>url_encode\<close>, although the store takes keys and values
  of up to 1024 bytes each.\<close>

theorem put_fits_the_buffer:
  assumes "\<forall>w \<in> set ws. 0 \<le> w" and "8192 \<le> sum_list ws"
  shows "kvrequest_send ws \<lparr>req_type = PUTREQ, req_key = Some k, req_val = Some v\<rparr> fd \<noteq> None
     \<longleftrightarrow> length k + length v \<le> 115"
proof (cases "length k + length v \<le> 115")
  case True
  then obtain url where u: "request_url \<lparr>req_type = PUTREQ, req_key = Some k, req_val = Some v\<rparr> = Some url"
    by (simp add: request_url_def url_encode_def)
  then have "length url < 128" unfolding request_url_def by (rule url_encode_length)
  then show ?thesis
    using True write_loop_enough [OF assms(1), of "''PUT '' @ url @ '' HTTP/1.1'' @ [CR, LF, CR, LF]"] assms(2) u
      kvrequest_send_bytes [OF _ u, of "''PUT''" ws fd]
    by (simp add: http_send_and_free_def LIBHTTP_MESSAGE_MAX_SIZE_def)
next
  case False
  then show ?thesis by (simp add: kvrequest_send_def url_encode_def)
qed

lemma put_fits_the_buffer_witness:
  "kvrequest_send [8192] \<lparr>req_type = PUTREQ, req_key = Some (replicate 100 CHR ''k''),
     req_val = Some (replicate 16 CHR ''v'')\<rparr> 3 = None"
  using put_fits_the_buffer [of "[8192]" "replicate 100 CHR ''k''" "replicate 16 CHR ''v''" 3]
  by (simp del: not_None_eq)

text \<open>Nothing is escaped. A key with a space is cut there, so the store answers for another key.\<close>

lemma key_is_cut_at_space:
  assumes x: "plain x" and y: "NUL \<notin> set y"
    and s: "kvrequest_send ws \<lparr>req_type = GETREQ, req_key = Some (x @ CHR '' '' # y), req_val = None\<rparr> fd = Some (wire, r)"
    and r: "0 \<le> r"
  shows "kvrequest_recieve wire = Some \<lparr>req_type = GETREQ, req_key = Some x, req_val = None\<rparr>"
proof -
  let ?req = "\<lparr>req_type = GETREQ, req_key = Some (x @ CHR '' '' # y), req_val = None\<rparr>"
  have u: "request_url ?req = Some (''/?key='' @ x @ CHR '' '' # y)"
    using s by (auto simp: kvrequest_send_def request_url_def url_encode_def Let_def butlast_append split: if_splits)
  note sent = send_positive [OF s [unfolded kvrequest_send_bytes [OF refl [THEN trans] u, of "''GET''", simplified]] r]
  have w: "wire = ''GET'' @ CHR '' '' # CHR ''/'' # (''?key='' @ x) @ CHR '' '' # y @ '' HTTP/1.1'' @ [CR, LF, CR, LF]"
    using sent by simp
  have len: "length x + length y + 24 \<le> LIBHTTP_MESSAGE_MAX_SIZE" using sent unfolding w by simp
  have "http_request_parse wire = Some \<lparr>http_method = ''GET'', http_path = ''/?key='' @ x\<rparr>"
    unfolding w
    by (subst http_request_parse_line) (use x y len in \<open>auto simp: plain_def LF_def NUL_def CR_def\<close>)
  moreover have "url_decode (''/?key='' @ x) = \<lparr>url_path = None, key_param = Some x, val_param = None\<rparr>"
    using x decode_query [of "[]" "''key='' @ x"] decode_key(1) [of x] by (simp add: plain_def)
  ultimately show ?thesis by (simp add: kvrequest_recieve_def request_type_def)
qed

end
