(* ===== verification/KVWire.thy ===== *)
theory KVWire
  imports TPCLeader KVMessage
begin

text \<open>
  The store on the wire: a follower's process with its directory (\<open>kvnode\<close>), the handlers of a follower's and of the leader's socket from the bytes
  they read to the bytes they write (\<open>kvserver_handle\<close> in hw4/src/kvserver.c, \<open>tpcleader_handle\<close> in
  tpcleader.c), \<open>index_send\<close> of index.h, and an exchange of the leader with a follower
  (\<open>kvrequest_send\<close>, \<open>kvresponse_recieve\<close>). For a request that can be
  put into a message the leader reads what the abstract participant of \<open>KVServer\<close> answers.

  \<open>io_payload\<close> is \<open>index_payload\<close>, a file that is linked into the program; the other fields are the
  results of \<open>write\<close>: in the loop around a request, in the one around a response or the page, and
  for the line behind the page.
\<close>

record kvnode =
  nd_dir :: string
  nd_fs :: fs
  nd_srv :: kvserver_t

record wire_io =
  io_payload :: string
  io_request :: "int list"
  io_answer :: "int list"
  io_line :: int

definition index_send :: "wire_io \<Rightarrow> bool \<Rightarrow> string option" where
  "index_send io leader =
     do { (out, _) \<leftarrow> write_loop (io_answer io) (io_payload io);
          let line = (if leader then ''<script>setServerType('leader');</script>''
                      else ''<script>setServerType('follower');</script>'');
          Some (out @ take (nat (io_line io)) line) }"

text \<open>The end of both handlers.\<close>

definition reply_send :: "wire_io \<Rightarrow> bool \<Rightarrow> int \<Rightarrow> reply \<Rightarrow> string option" where
  "reply_send io leader sockfd r =
     (case r of
        SendIndex \<Rightarrow> index_send io leader
      | SendResponse res \<Rightarrow> map_option fst (kvresponse_send (io_answer io) res sockfd))"

definition follower_socket :: "wire_io \<Rightarrow> kvnode \<Rightarrow> string \<Rightarrow> int \<Rightarrow> (kvnode \<times> string) option" where
  "follower_socket io nd bytes sockfd =
     do { (fs', s', r) \<leftarrow> kvserver_handle (nd_fs nd) (nd_srv nd) (kvrequest_recieve bytes);
          out \<leftarrow> reply_send io False sockfd r;
          Some (nd\<lparr>nd_fs := fs', nd_srv := s'\<rparr>, out) }"

definition leader_socket ::
  "wire_io \<Rightarrow> 'w network \<Rightarrow> (nat \<Rightarrow> nat) \<Rightarrow> nat \<Rightarrow> fheap \<Rightarrow> tpcleader_t \<Rightarrow> 'w \<Rightarrow> string \<Rightarrow> int
     \<Rightarrow> (fheap \<times> tpcleader_t \<times> 'w \<times> string) option" where
  "leader_socket io net room new h leader w bytes sockfd =
     do { (h, leader, w, r) \<leftarrow> tpcleader_handle net room new h leader w (kvrequest_recieve bytes);
          out \<leftarrow> reply_send io True sockfd r;
          Some (h, leader, w, out) }"

definition byte_exchange ::
  "wire_io \<Rightarrow> kvnode \<Rightarrow> kvrequest_t \<Rightarrow> int \<Rightarrow> int \<Rightarrow> (kvnode \<times> kvresponse_t option) option" where
  "byte_exchange io nd req fd1 fd2 =
     do { (bytes, _) \<leftarrow> kvrequest_send (io_request io) req fd1;
          (nd', answer) \<leftarrow> follower_socket io nd bytes fd2;
          r \<leftarrow> kvresponse_recieve answer;
          Some (nd', r) }"

text \<open>Calls of \<open>write\<close> that do not fail and take enough.\<close>

definition io_ok :: "wire_io \<Rightarrow> bool" where
  "io_ok io \<longleftrightarrow> (\<forall>w \<in> set (io_request io) \<union> set (io_answer io). 0 \<le> w)
     \<and> 8192 \<le> sum_list (io_request io) \<and> 8192 \<le> sum_list (io_answer io)"

lemma kvresponse_send_whole:
  assumes c: "0 \<le> http_code_for_response_type (res_type res)"
    and b: "pred_option (\<lambda>b. length b \<le> 8000) (res_body res)"
    and ws: "\<forall>w \<in> set ws. 0 \<le> w" "8192 \<le> sum_list ws"
  shows "\<exists>out. kvresponse_send ws res fd = Some (out, int (length out))"
proof -
  let ?c = "nat (http_code_for_response_type (res_type res))"
  obtain msg where m: "http_get_response_message (http_code_for_response_type (res_type res)) = Some msg"
    using c by (cases "res_type res") (auto simp: http_get_response_message_def)
  then have lm: "length msg \<le> 21" "length (dec ?c) = 3"
    using message_chars(3) [OF m] status_range [OF m] by (auto intro!: length_dec3)
  let ?b = "case res_body res of None \<Rightarrow> [] | Some b \<Rightarrow> b"
  have lb: "length ?b \<le> 8000" using b by (cases "res_body res") simp_all
  obtain l where l: "lenbuf (res_body res) = Some l" "length l \<le> 4"
  proof (cases "res_body res")
    case (Some x)
    then have "length (dec (length x)) \<le> 4" using lb by (intro length_dec_le) simp_all
    then show ?thesis using Some that by (simp add: lenbuf_def)
  qed (use that in \<open>simp add: lenbuf_def\<close>)
  let ?o = "''HTTP/1.1 '' @ dec ?c @ '' '' @ msg @ [CR, LF] @ ''Content-Length: '' @ l @ [CR, LF, CR, LF] @ ?b"
  have lo: "length ?o \<le> 8192" using lm l lb by simp
  have "write_loop ws ?o = Some (?o, None)" using write_loop_enough [OF ws(1)] lo ws(2) by auto
  then have "http_send_and_free ws \<lparr>out_fd = fd, out_body = ?o\<rparr> = Some (?o, int (length ?o))"
    using lo by (simp add: http_send_and_free_def LIBHTTP_MESSAGE_MAX_SIZE_def)
  moreover have "kvresponse_send ws res fd = http_send_and_free ws \<lparr>out_fd = fd, out_body = ?o\<rparr>"
    using c m l lm lb
    by (cases "res_body res") (simp_all add: kvresponse_send_def http_start_response_def out_print_def
        http_add_header_def http_end_headers_def http_add_string_def http_add_data_def LIBHTTP_MESSAGE_MAX_SIZE_def)
  ultimately have "kvresponse_send ws res fd = Some (?o, int (length ?o))" by (rule trans [rotated])
  then show ?thesis by (rule exI)
qed

lemma request_send_whole:
  assumes m: "http_method_for_request_type (req_type req) = Some m" and u: "request_url req = Some url"
    and ws: "\<forall>w \<in> set ws. 0 \<le> w" "8192 \<le> sum_list ws"
  shows "\<exists>out. kvrequest_send ws req fd = Some (out, int (length out))"
proof -
  let ?o = "m @ '' '' @ url @ '' HTTP/1.1'' @ [CR, LF, CR, LF]"
  have lo: "length ?o \<le> 8192"
    using method_valid [OF m] url_encode_length [OF u [unfolded request_url_def]] by simp
  have "write_loop ws ?o = Some (?o, None)" using write_loop_enough [OF ws(1)] lo ws(2) by auto
  then have "http_send_and_free ws \<lparr>out_fd = fd, out_body = ?o\<rparr> = Some (?o, int (length ?o))"
    using lo by (simp add: http_send_and_free_def LIBHTTP_MESSAGE_MAX_SIZE_def)
  then show ?thesis unfolding kvrequest_send_bytes [OF m u] by (rule exI)
qed

definition sendable :: "kvrequest_t \<Rightarrow> bool" where
  "sendable req \<longleftrightarrow> http_method_for_request_type (req_type req) \<noteq> None \<and> request_complete req
     \<and> pred_option plain (req_key req) \<and> pred_option plain (req_val req) \<and> request_url req \<noteq> None"

text \<open>A request that goes out is read back, and a response too.\<close>

lemma request_arrives:
  assumes s: "sendable req" and io: "io_ok io"
  shows "\<exists>bytes. kvrequest_send (io_request io) req fd = Some (bytes, int (length bytes))
     \<and> kvrequest_recieve bytes = Some req"
proof -
  obtain m url where mu: "http_method_for_request_type (req_type req) = Some m" "request_url req = Some url"
    using s by (auto simp: sendable_def)
  obtain bytes where out: "kvrequest_send (io_request io) req fd = Some (bytes, int (length bytes))"
    using request_send_whole [OF mu, of "io_request io" fd] io by (auto simp: io_ok_def)
  have "kvrequest_recieve bytes = Some req"
    by (rule request_roundtrip_law [OF _ _ _ _ out]) (use s in \<open>auto simp: sendable_def\<close>)
  with out show ?thesis by blast
qed

lemma response_arrives:
  assumes t: "res_type res \<in> {GETRESP, SUCCESS, ERROR, VOTE, ACK}" and io: "io_ok io"
    and b: "pred_option (\<lambda>b. NUL \<notin> set b \<and> length b \<le> 8000) (res_body res)"
  shows "\<exists>out. reply_send io leader fd (SendResponse res) = Some out
     \<and> kvresponse_recieve out = Some (Some (wire res))"
proof -
  have c: "0 \<le> http_code_for_response_type (res_type res)" using t by auto
  have B: "pred_option (\<lambda>b. length b \<le> 8000) (res_body res)" "pred_option (\<lambda>b. NUL \<notin> set b) (res_body res)"
    using b by (auto simp: option.pred_set)
  from kvresponse_send_whole [OF c B(1), of "io_answer io" fd] io obtain out where
    out: "kvresponse_send (io_answer io) res fd = Some (out, int (length out))" by (auto simp: io_ok_def)
  from response_roundtrip_law [OF c B(2) out] out show ?thesis
    by (simp add: reply_send_def wire_def mk_res_def)
qed

subsection \<open>Bodies fit\<close>

definition body_ok :: "string \<Rightarrow> bool" where
  "body_ok b \<longleftrightarrow> NUL \<notin> set b \<and> length b \<le> 8000"

lemma body_ok_eq: "body_ok = (\<lambda>b. NUL \<notin> set b \<and> length b \<le> 8000)"
  by (simp add: body_ok_def fun_eq_iff)

lemma messages_ok [simp]:
  "body_ok (GETMSG e)" "body_ok ERRMSG_INVALID_REQUEST" "body_ok MSG_COMMIT" "body_ok ERRMSG_NO_KEY"
  "body_ok ''abort the command''"
  by (simp_all add: body_ok_def GETMSG_def ERRMSG_INVALID_REQUEST_def MSG_COMMIT_def ERRMSG_KEY_LEN_def
      ERRMSG_VAL_LEN_def ERRMSG_NO_KEY_def ERRMSG_GENERIC_ERROR_def NUL_def)

lemma val_body: "val_ok b \<Longrightarrow> body_ok b"
  by (simp add: val_ok_def body_ok_def MAX_VALLEN_def cstr_def)

lemma stored_value_ok:
  assumes "kv_rel fs d m" "m k = Some b" shows "val_ok b"
proof -
  obtain es where "chain fs d (strhash64 k) es" "m k = map_of es k"
    using assms(1) unfolding kv_rel_def by blast
  with assms(2) show ?thesis by (fastforce simp: chain_def entry_ok_iff dest: map_of_SomeD)
qed

lemma participant_body:
  assumes "\<forall>k b. fst p k = Some b \<longrightarrow> val_ok b"
  shows "pred_option body_ok (res_body (snd (participant_step p req)))"
proof -
  obtain m op where p: "p = (m, op)" by (cases p)
  then have "m k = Some b \<Longrightarrow> body_ok b" for k b using assms val_body by simp
  then show ?thesis
    by (cases "req_type req") (auto simp: p participant_step.simps prepare_def Let_def mk_res_def split: option.splits)
qed

subsection \<open>A follower answers in bytes\<close>

definition node_rel :: "kvnode \<Rightarrow> participant \<Rightarrow> bool" where
  "node_rel nd p \<longleftrightarrow> srv_rel (nd_dir nd) (nd_fs nd) (nd_srv nd) p"

lemma participant_answer_type:
  assumes "req_type req \<in> {GETREQ, PUTREQ, DELREQ, COMMIT, ABORT}"
  shows "res_type (snd (participant_step p req)) \<in> {GETRESP, SUCCESS, ERROR, VOTE, ACK}"
proof (cases p)
  case (Pair m op)
  then show ?thesis using assms
    by (auto simp: participant_step.simps prepare_def Let_def split: option.splits if_splits)
qed

lemma node_handles:
  assumes rel: "node_rel nd p" and req: "request_ok req" "request_complete req"
    and type: "req_type req \<in> {GETREQ, PUTREQ, DELREQ, COMMIT, ABORT}"
  shows "\<exists>fs' s'. kvserver_handle (nd_fs nd) (nd_srv nd) (Some req)
        = Some (fs', s', SendResponse (snd (participant_step p req)))
     \<and> srv_rel (nd_dir nd) fs' s' (fst (participant_step p req))
     \<and> pred_option body_ok (res_body (snd (participant_step p req)))"
proof -
  have srv: "srv_rel (nd_dir nd) (nd_fs nd) (nd_srv nd) p" using rel by (simp add: node_rel_def)
  from kvserver_handle_tpc_refines [OF this req] obtain fs' s' where
    1: "kvserver_handle_tpc (nd_fs nd) (nd_srv nd) req res_calloc
        = Some (fs', s', snd (participant_step p req))"
       "srv_rel (nd_dir nd) fs' s' (fst (participant_step p req))" by blast
  obtain m op where p: "p = (m, op)" by (cases p)
  have "kv_rel (nd_fs nd) (nd_dir nd) m" using srv by (simp add: p)
  then have "\<forall>k b. fst p k = Some b \<longrightarrow> val_ok b" using stored_value_ok p by auto
  from participant_body [OF this, of req] 1 type show ?thesis by (auto simp: kvserver_handle_def)
qed

text \<open>A follower that reads a request of the leader goes where its participant goes, and the leader
  reads the response of the participant in the bytes it answers.\<close>

lemma follower_socket_law:
  assumes io: "io_ok io" and rel: "node_rel nd p" and bytes: "kvrequest_recieve bytes = Some req"
    and req: "request_ok req" "request_complete req"
    and type: "req_type req \<in> {GETREQ, PUTREQ, DELREQ, COMMIT, ABORT}"
  shows "\<exists>nd' out. follower_socket io nd bytes fd = Some (nd', out)
     \<and> node_rel nd' (fst (participant_step p req))
     \<and> kvresponse_recieve out = Some (Some (wire (snd (participant_step p req))))"
proof -
  let ?res = "snd (participant_step p req)"
  obtain fs' s' where h: "kvserver_handle (nd_fs nd) (nd_srv nd) (Some req) = Some (fs', s', SendResponse ?res)"
    "srv_rel (nd_dir nd) fs' s' (fst (participant_step p req))" "pred_option body_ok (res_body ?res)"
    using node_handles [OF rel req type] by blast
  obtain out where "reply_send io False fd (SendResponse ?res) = Some out"
    "kvresponse_recieve out = Some (Some (wire ?res))"
    using response_arrives [OF participant_answer_type [OF type] io h(3) [unfolded body_ok_eq]] by blast
  then show ?thesis using bytes h(1,2) by (simp add: follower_socket_def node_rel_def)
qed

lemma decision_sendable: "sendable (decision b)"
  by (simp add: sendable_def decision_def request_complete_def request_url_def url_encode_def)

text \<open>A request whose URL does not fit cannot be sent.\<close>

lemma request_does_not_fit:
  "\<lbrakk>http_method_for_request_type (req_type req) = Some m; request_url req = None\<rbrakk>
   \<Longrightarrow> kvrequest_send ws req fd = None"
  by (auto simp: kvrequest_send_def request_url_def)

end
