(* ===== verification/KVCluster.thy ===== *)
theory KVCluster
  imports KVWire
begin

text \<open>
  A leader with followers that are the servers of \<open>KVServer\<close>, each on a file system of its
  own. Requests and answers cross the network as bytes. What goes wrong is a list of network
  events fixed in advance, one per connection or exchange, after which nothing goes wrong any
  more: a connection is refused, a request or its answer is lost (the 2 seconds of \<open>TIMEOUT\<close>
  pass), or the follower's process dies and is started again. The cluster provides the contract
  of \<open>TPCLeader\<close>.
\<close>

datatype netevent = Fine | Refused | RequestLost | AnswerLost | Restarts kvserver_t nat string int

record cluster =
  cl_nodes :: "addr \<rightharpoonup> kvnode"
  cl_events :: "netevent list"

text \<open>The next event, and the cluster without it.\<close>

definition next_event :: "cluster \<Rightarrow> netevent \<times> cluster" where
  "next_event w =
     (case cl_events w of [] \<Rightarrow> (Fine, w) | e # es \<Rightarrow> (e, w\<lparr>cl_events := es\<rparr>))"

definition set_node :: "cluster \<Rightarrow> addr \<Rightarrow> kvnode \<Rightarrow> cluster" where
  "set_node w a nd = w\<lparr>cl_nodes := (cl_nodes w)(a \<mapsto> nd)\<rparr>"

text \<open>The process of a node starts again on what is in its directory.\<close>

definition restart_node :: "kvnode \<Rightarrow> kvserver_t \<Rightarrow> nat \<Rightarrow> string \<Rightarrow> int \<Rightarrow> kvnode" where
  "restart_node nd s0 mt host port =
     (case kvserver_init (nd_fs nd) s0 (nd_dir nd) mt host port of
        None \<Rightarrow> nd
      | Some (_, fs', s') \<Rightarrow> nd\<lparr>nd_fs := fs', nd_srv := s'\<rparr>)"

definition cluster_connect :: "cluster \<Rightarrow> string \<Rightarrow> 32 word \<Rightarrow> bool \<times> cluster" where
  "cluster_connect w host port =
     (case cl_nodes w (host, port) of
        None \<Rightarrow> (False, w)
      | Some nd \<Rightarrow>
          (case next_event w of
             (Refused, w') \<Rightarrow> (False, w')
           | (Restarts s0 mt h p, w') \<Rightarrow>
               (False, set_node w' (host, port) (restart_node nd s0 mt h p))
           | (_, w') \<Rightarrow> (True, w')))"

text \<open>
  An exchange: \<open>kvrequest_send\<close> to the follower at \<open>host\<close> and \<open>port\<close>, its answer, and
  \<open>kvresponse_recieve\<close>, to which a lost answer is the end of the stream.
\<close>

definition cluster_answer ::
  "wire_io \<Rightarrow> int \<Rightarrow> cluster \<Rightarrow> string \<Rightarrow> 32 word \<Rightarrow> string \<Rightarrow> (string \<times> cluster) option" where
  "cluster_answer io sockfd w host port bytes =
     (case cl_nodes w (host, port) of
        None \<Rightarrow> Some ([], w)
      | Some nd \<Rightarrow>
          (case next_event w of
             (Fine, w') \<Rightarrow>
               do { (nd', answer) \<leftarrow> follower_socket io nd bytes sockfd;
                    Some (answer, set_node w' (host, port) nd') }
           | (AnswerLost, w') \<Rightarrow>
               do { (nd', answer) \<leftarrow> follower_socket io nd bytes sockfd;
                    Some ([], set_node w' (host, port) nd') }
           | (Restarts s0 mt h p, w') \<Rightarrow>
               Some ([], set_node w' (host, port) (restart_node nd s0 mt h p))
           | (_, w') \<Rightarrow> Some ([], w')))"

definition cluster_exchange ::
  "wire_io \<Rightarrow> int \<Rightarrow> int \<Rightarrow> cluster \<Rightarrow> string \<Rightarrow> 32 word \<Rightarrow> kvrequest_t
     \<Rightarrow> (kvresponse_t option \<times> cluster) option" where
  "cluster_exchange io fd1 fd2 w host port req =
     do { (bytes, _) \<leftarrow> kvrequest_send (io_request io) req fd1;
          (answer, w') \<leftarrow> cluster_answer io fd2 w host port bytes;
          restmp \<leftarrow> kvresponse_recieve answer;
          Some (restmp, w') }"

definition cluster_net :: "wire_io \<Rightarrow> int \<Rightarrow> int \<Rightarrow> cluster network" where
  "cluster_net io fd1 fd2 =
     \<lparr>net_connect = cluster_connect, net_exchange = cluster_exchange io fd1 fd2\<rparr>"

subsection \<open>The cluster keeps the contract\<close>

definition cluster_rel :: "cluster \<Rightarrow> (addr \<rightharpoonup> participant) \<Rightarrow> bool" where
  "cluster_rel w P \<longleftrightarrow>
     (\<forall>a p. P a = Some p \<longrightarrow> (\<exists>nd. cl_nodes w a = Some nd \<and> node_rel nd p))"

definition cluster_faults :: "cluster \<Rightarrow> nat" where
  "cluster_faults w = length (cl_events w)"

lemma next_event_props:
  assumes "next_event w = (e, w')"
  shows "cl_nodes w' = cl_nodes w" "cluster_faults w' \<le> cluster_faults w"
    "e \<noteq> Fine \<Longrightarrow> cluster_faults w' < cluster_faults w"
  using assms by (auto simp: next_event_def cluster_faults_def split: list.splits)

lemma cluster_rel_set_node:
  "\<lbrakk>cluster_rel w P; node_rel nd p\<rbrakk> \<Longrightarrow> cluster_rel (set_node w a nd) (P(a \<mapsto> p))"
  by (auto simp: cluster_rel_def set_node_def)

lemma cluster_rel_keep_node:
  "\<lbrakk>cluster_rel w P; P a = Some p; node_rel nd p\<rbrakk> \<Longrightarrow> cluster_rel (set_node w a nd) P"
  using cluster_rel_set_node [of w P nd p a] by (simp add: fun_upd_idem)

lemma cluster_rel_node:
  assumes "cluster_rel w P" "P a = Some p"
  obtains nd where "cl_nodes w a = Some nd" "node_rel nd p"
  using assms unfolding cluster_rel_def by blast

lemma faults_set_node [simp]: "cluster_faults (set_node w a nd) = cluster_faults w"
  by (simp add: cluster_faults_def set_node_def)

lemma cluster_rel_nodes: "cl_nodes w' = cl_nodes w \<Longrightarrow> cluster_rel w' P = cluster_rel w P"
  by (simp add: cluster_rel_def)

lemma restart_node_rel: "node_rel nd p \<Longrightarrow> node_rel (restart_node nd s0 mt host port) p"
  using restart_at_rest [of "nd_dir nd" "nd_fs nd" "nd_srv nd" p s0 mt host port]
  by (auto simp: node_rel_def restart_node_def)

lemma cluster_connect_law:
  assumes rel: "cluster_rel w P" and node: "P (host, port) \<noteq> None"
    and c: "cluster_connect w host port = (connected, w')"
  shows "cluster_rel w' P \<and> cluster_faults w' \<le> cluster_faults w
     \<and> (\<not> connected \<longrightarrow> cluster_faults w' < cluster_faults w)"
proof -
  obtain p where p: "P (host, port) = Some p" using node by blast
  then obtain nd where nd: "cl_nodes w (host, port) = Some nd" "node_rel nd p"
    by (rule cluster_rel_node [OF rel])
  obtain e w1 where e: "next_event w = (e, w1)" by (cases "next_event w")
  note ev = next_event_props [OF e]
  have rel1: "cluster_rel w1 P" using rel cluster_rel_nodes [OF ev(1)] by simp
  show ?thesis
    using c nd e ev rel1 cluster_rel_keep_node [OF rel1 p restart_node_rel [OF nd(2)]]
    by (cases e) (auto simp: cluster_connect_def)
qed

lemma no_answer [simp]: "kvresponse_recieve [] = Some None"
  by (simp add: kvresponse_recieve_def http_response_parse_def)

text \<open>What a follower answers, and how the cluster goes on.\<close>

lemma cluster_answer_law:
  assumes io: "io_ok io" and rel: "cluster_rel w P" and p: "P (host, port) = Some p"
    and req: "kvrequest_recieve bytes = Some req" "request_ok req" "request_complete req"
      "req_type req \<in> {GETREQ, PUTREQ, DELREQ, COMMIT, ABORT}"
  shows "\<exists>answer r w'. cluster_answer io fd w host port bytes = Some (answer, w')
     \<and> kvresponse_recieve answer = Some r \<and> cluster_faults w' \<le> cluster_faults w
     \<and> (if r = None
        then cluster_faults w' < cluster_faults w
          \<and> (cluster_rel w' P \<or> cluster_rel w' (P((host, port) \<mapsto> fst (participant_step p req))))
        else r = Some (wire (snd (participant_step p req)))
          \<and> cluster_rel w' (P((host, port) \<mapsto> fst (participant_step p req))))"
proof -
  obtain nd where nd: "cl_nodes w (host, port) = Some nd" "node_rel nd p"
    by (rule cluster_rel_node [OF rel p])
  obtain e w1 where e: "next_event w = (e, w1)" by (cases "next_event w")
  note ev = next_event_props [OF e]
  have rel1: "cluster_rel w1 P" using rel cluster_rel_nodes [OF ev(1)] by simp
  obtain nd' out where f: "follower_socket io nd bytes fd = Some (nd', out)"
    "node_rel nd' (fst (participant_step p req))"
    "kvresponse_recieve out = Some (Some (wire (snd (participant_step p req))))"
    using follower_socket_law [OF io nd(2) req] by blast
  show ?thesis
    using nd e ev rel1 f cluster_rel_keep_node [OF rel1 p restart_node_rel [OF nd(2)]]
      cluster_rel_set_node [OF rel1 f(2)]
    by (cases e) (auto simp: cluster_answer_def)
qed

lemma cluster_exchange_law:
  assumes io: "io_ok io" and s: "sendable req" and rel: "cluster_rel w P" and p: "P (host, port) = Some p"
    and req: "request_ok req" "request_complete req"
      "req_type req \<in> {GETREQ, PUTREQ, DELREQ, COMMIT, ABORT}"
  shows "\<exists>r w'. cluster_exchange io fd1 fd2 w host port req = Some (r, w')
     \<and> cluster_faults w' \<le> cluster_faults w
     \<and> (if r = None
        then cluster_faults w' < cluster_faults w
          \<and> (cluster_rel w' P \<or> cluster_rel w' (P((host, port) \<mapsto> fst (participant_step p req))))
        else r = Some (wire (snd (participant_step p req)))
          \<and> cluster_rel w' (P((host, port) \<mapsto> fst (participant_step p req))))"
proof -
  obtain bytes where out: "kvrequest_send (io_request io) req fd1 = Some (bytes, int (length bytes))"
    "kvrequest_recieve bytes = Some req" using request_arrives [OF s io] by blast
  from cluster_answer_law [OF io rel p out(2) req, of fd2] obtain answer r w' where
    a: "cluster_answer io fd2 w host port bytes = Some (answer, w')" "kvresponse_recieve answer = Some r"
    and law: "cluster_faults w' \<le> cluster_faults w"
      "if r = None
       then cluster_faults w' < cluster_faults w
         \<and> (cluster_rel w' P \<or> cluster_rel w' (P((host, port) \<mapsto> fst (participant_step p req))))
       else r = Some (wire (snd (participant_step p req)))
         \<and> cluster_rel w' (P((host, port) \<mapsto> fst (participant_step p req)))" by blast
  have "cluster_exchange io fd1 fd2 w host port req = Some (r, w')"
    using out(1) a by (simp add: cluster_exchange_def)
  with law show ?thesis by blast
qed

definition wired_rel :: "wire_io \<Rightarrow> cluster \<Rightarrow> (addr \<rightharpoonup> participant) \<Rightarrow> bool" where
  "wired_rel io w P \<longleftrightarrow> io_ok io \<and> cluster_rel w P"

lemma wired_rel_ok: "io_ok io \<Longrightarrow> wired_rel io = cluster_rel"
  by (simp add: fun_eq_iff wired_rel_def)

interpretation cl: follower_network "cluster_net io fd1 fd2" "wired_rel io" "wired_rel io" cluster_faults sendable
  for io fd1 fd2
proof (unfold_locales, goal_cases)
  case (1 w P host port connected w')
  then show ?case using cluster_connect_law [of w P host port] by (simp add: cluster_net_def wired_rel_def)
next
  case (2 w P host port p req)
  from 2(1) have "io_ok io" "cluster_rel w P" by (simp_all add: wired_rel_def)
  from cluster_exchange_law [OF this(1) 2(3) this(2) 2(2,4,5,6), of fd1 fd2]
  show ?case by (auto simp: cluster_net_def)
next
  case (3 w P host port p req answer w')
  from 3(1) have io: "io_ok io" "cluster_rel w P" by (simp_all add: wired_rel_def)
  have "cluster_exchange io fd1 fd2 w host port req = Some (answer, w')" using 3(7) by (simp add: cluster_net_def)
  with cluster_exchange_law [OF io(1) 3(3) io(2) 3(2,4,5,6), of fd1 fd2] io(1)
  show ?case by (simp add: wired_rel_def)
next
  case (4 b)
  show ?case by (rule decision_sendable)
qed

subsection \<open>Requests that do not fit\<close>

text \<open>On a network without faults a request that overflows the buffer of \<open>url_encode\<close> leaves the
  leader without a result, at the first follower.\<close>

definition buffer_fits :: "kvrequest_t \<Rightarrow> bool" where
  "buffer_fits req \<longleftrightarrow> request_url req \<noteq> None"

lemma unfit_exchange:
  assumes "client_ok req" "\<not> buffer_fits req"
  shows "cluster_exchange io fd1 fd2 w host port req = None"
proof -
  obtain m where "http_method_for_request_type (req_type req) = Some m"
    using assms(1) by (cases "req_type req") (auto simp: client_ok_def)
  then show ?thesis
    using assms(2) request_does_not_fit by (simp add: cluster_exchange_def buffer_fits_def)
qed

lemma unfit_request:
  assumes leader: "leader_rel h leader ms" "ms \<noteq> []"
    and full: "length ms = unat (follower_capacity leader)" and red: "redundancy leader \<noteq> 0"
    and req: "client_ok req" "\<not> buffer_fits req"
    and view: "cluster_view cluster_rel ms (unat (redundancy leader)) w m" "cl_events w = []"
  shows "tpcleader_handle (cluster_net io fd1 fd2) room new h leader w (Some req) = None"
proof -
  obtain key where key: "req_key req = Some key"
    using req by (auto simp: client_ok_def request_complete_def)
  let ?i = "primary_index ms (strhash64 key)"
  obtain xs where at: "ring_at h leader xs ms" and i: "?i < length xs"
    and pri: "tpcleader_get_primary h leader key = Some (Some (xs ! ?i))"
    and count: "follower_count leader = follower_capacity leader"
    by (rule leader_primaryE [OF leader full refl, of key]) (rule that)
  obtain f where f: "h (xs ! ?i) = Some f" "(fl_host f, fl_port f) = snd (ms ! ?i)"
    by (rule ring_at_node [OF at i])
  have pos: "0 < unat (redundancy leader)" using red by (simp add: unat_gt_0)
  have "(?i + 0) mod length ms = ?i" using i ring_at_length [OF at] by simp
  then have "snd (ms ! ?i) = replica ms ?i 0" by (simp only: replica_def)
  then have "(fl_host f, fl_port f) \<in> replicas ms (unat (redundancy leader)) key"
    using f(2) pos by (auto simp: replicas_def)
  then obtain P M where "cluster_rel w P" "P (fl_host f, fl_port f) = Some (M, None)"
    using view(1) unfolding cluster_view_def by blast
  then obtain nd where "cl_nodes w (fl_host f, fl_port f) = Some nd" by (rule cluster_rel_node)
  then have connects: "cluster_connect w (fl_host f) (fl_port f) = (True, w)"
    using view(2) by (simp add: cluster_connect_def next_event_def)
  note unfit = unfit_exchange [OF req]
  show ?thesis
  proof (cases "req_type req = GETREQ")
    case True
    have "get_loop (cluster_net io fd1 fd2) h (unat (redundancy leader)) req w (xs ! ?i) 0 = None"
      using pos f(1) connects unfit by (subst get_loop.simps) (simp add: cluster_net_def)
    then show ?thesis using True key pri by (simp add: tpcleader_handle_def tpcleader_handle_get_def)
  next
    case False
    have "vote_loop (cluster_net io fd1 fd2) h (unat (redundancy leader)) req w (xs ! ?i) 0 True = None"
      using pos f(1) connects unfit by (subst vote_loop.simps) (simp add: cluster_net_def collect_vote_def)
    then show ?thesis
      using False req(1) key pri count by (auto simp: tpcleader_handle_def tpcleader_handle_tpc_def client_ok_def)
  qed
qed

text \<open>Keys and values without separators, and sequences of requests with them.\<close>

definition plain_request :: "kvrequest_t \<Rightarrow> bool" where
  "plain_request req \<longleftrightarrow> pred_option plain (req_key req) \<and> pred_option plain (req_val req)"

lemma fitting_sendable:
  "\<lbrakk>client_ok req; plain_request req; buffer_fits req\<rbrakk> \<Longrightarrow> sendable req"
  by (cases "req_type req") (auto simp: sendable_def client_ok_def plain_request_def buffer_fits_def)

lemma leader_step_fits:
  assumes leader: "leader_rel h leader ms" "ms \<noteq> []" "distinct (map snd ms)"
    and full: "length ms = unat (follower_capacity leader)" and red: "redundancy leader \<noteq> 0"
    and req: "client_ok req" "plain_request req" "buffer_fits req" and io: "io_ok io"
    and view: "cluster_view cluster_rel ms (unat (redundancy leader)) w m" "cl_events w = []"
  shows "\<exists>w'. tpcleader_handle (cluster_net io fd1 fd2) room new h leader w (Some req)
       = Some (h, leader, w', SendResponse (snd (client_step m req)))
     \<and> cluster_view cluster_rel ms (unat (redundancy leader)) w' (fst (client_step m req))
     \<and> cl_events w' = []"
  using cl.leader_step_law [OF leader full red req(1) fitting_sendable [OF req], of io w m fd1 fd2 room new] view
  by (simp add: wired_rel_ok [OF io] cluster_faults_def)

lemma leader_run_fits:
  assumes leader: "leader_rel h leader ms" "ms \<noteq> []" "distinct (map snd ms)"
    and full: "length ms = unat (follower_capacity leader)" and red: "redundancy leader \<noteq> 0"
    and reqs: "list_all client_ok reqs" "list_all plain_request reqs" and io: "io_ok io"
    and view: "cluster_view cluster_rel ms (unat (redundancy leader)) w m" "cl_events w = []"
    and fits: "list_all buffer_fits reqs"
  shows "\<exists>w'. leader_run (cluster_net io fd1 fd2) room h leader w reqs = Some (w', snd (client_run m reqs))
     \<and> cluster_view cluster_rel ms (unat (redundancy leader)) w' (fst (client_run m reqs))"
proof -
  have "list_all sendable reqs"
    using reqs fits fitting_sendable by (simp add: list_all_iff)
  from cl.leader_run_law [OF leader full red reqs(1) this, of io w m fd1 fd2 room] view
  show ?thesis by (simp add: wired_rel_ok [OF io] cluster_faults_def)
qed

lemma leader_run_overflow:
  assumes leader: "leader_rel h leader ms" "ms \<noteq> []" "distinct (map snd ms)"
    and full: "length ms = unat (follower_capacity leader)" and red: "redundancy leader \<noteq> 0"
    and reqs: "list_all client_ok reqs" "list_all plain_request reqs" and io: "io_ok io"
    and view: "cluster_view cluster_rel ms (unat (redundancy leader)) w m" "cl_events w = []"
    and overflow: "\<not> list_all buffer_fits reqs"
  shows "leader_run (cluster_net io fd1 fd2) room h leader w reqs = None"
  using reqs view overflow
proof (induction reqs arbitrary: w m)
  case (Cons req reqs)
  have ok: "client_ok req" "plain_request req" using Cons.prems(1,2) by simp_all
  show ?case
  proof (cases "buffer_fits req")
    case True
    from leader_step_fits [OF leader full red ok True io Cons.prems(3,4), of fd1 fd2 room 0] obtain w' where
      "tpcleader_handle (cluster_net io fd1 fd2) room 0 h leader w (Some req)
        = Some (h, leader, w', SendResponse (snd (client_step m req)))"
      "cluster_view cluster_rel ms (unat (redundancy leader)) w' (fst (client_step m req))" "cl_events w' = []"
      by blast
    then show ?thesis using Cons.IH [of w'] Cons.prems True by simp
  next
    case False
    then show ?thesis
      using unfit_request [OF leader(1,2) full red ok(1) False Cons.prems(3,4), of io fd1 fd2 room 0] by simp
  qed
qed simp

end
