(* ===== verification/KVScenario.thy ===== *)
theory KVScenario
  imports KVRecovery KVCluster
begin

text \<open>
  Concrete states the examples of the root theory start from: an empty directory, a server
  on it at rest or with a prepared operation, the log a crash leaves, a leader with two
  followers and a cluster on a bad network.
\<close>

subsection \<open>Directories\<close>

definition fs0 :: fs where
  "fs0 = \<lparr>fs_files = Map.empty, fs_dirs = [''.'' \<mapsto> True, ''d'' \<mapsto> True], fs_root = False\<rparr>"

definition log0 :: tpclog_t where
  "log0 = \<lparr>log_dirname = ''d'', log_nextid = 0, log_iterpos = 0\<rparr>"

definition log_file :: "log_rec \<Rightarrow> fs_file" where
  "log_file r = \<lparr>fcontents = rec_bytes r, freadable = True, fwritable = False\<rparr>"

definition fs_prepared :: fs where
  "fs_prepared = fs0\<lparr>fs_files := [log_path ''d'' 0 \<mapsto> log_file (LPut ''k'' ''v'')]\<rparr>"

definition fs_committed :: fs where
  "fs_committed = fs0\<lparr>fs_files :=
     [log_path ''d'' 0 \<mapsto> log_file (LDel ''k''), log_path ''d'' 1 \<mapsto> log_file LCommit]\<rparr>"

definition fs_readonly :: fs where
  "fs_readonly = \<lparr>fs_files = Map.empty, fs_dirs = [''.'' \<mapsto> True, ''d'' \<mapsto> False], fs_root = False\<rparr>"

lemma path_not_dir [simp]:
  "entry_path ''d'' h i \<noteq> ''.''" "entry_path ''d'' h i \<noteq> ''d''"
  "log_path ''d'' i \<noteq> ''.''" "log_path ''d'' i \<noteq> ''d''"
  by (simp_all add: entry_path_def log_path_def in_dir_def)

lemma no_entries:
  assumes "\<And>h i. fs_files fs (entry_path d h i) = None" "\<And>h i. fs_dirs fs (entry_path d h i) = None"
    and "fs_dirs fs d = Some True"
  shows "kv_rel fs d Map.empty"
proof -
  have "chain fs d h []" for h using assms(1,2) by (simp add: chain_def)
  then show ?thesis using assms(3) by (auto simp: kv_rel_def intro!: exI [of _ "[]"])
qed

lemma fs0_store: "kv_rel fs0 ''d'' Map.empty"
  by (rule no_entries) (simp_all add: fs0_def)

lemma fs0_log: "log_files fs0 ''d'' []"
  by (auto simp: fs0_def log_files_def)

lemma fs_prepared_store: "kv_rel fs_prepared ''d'' Map.empty"
  by (rule no_entries) (simp_all add: fs_prepared_def fs0_def)

lemma fs_prepared_log: "log_files fs_prepared ''d'' [LPut ''k'' ''v'']"
  using log_files_append [OF fs0_log, of "LPut ''k'' ''v''" "log_file (LPut ''k'' ''v'')"]
  by (simp add: fs_prepared_def log_file_def fs0_def NUL_def MAX_KEYLEN_def MAX_VALLEN_def)

lemma fs_committed_store: "kv_rel fs_committed ''d'' Map.empty"
  by (rule no_entries) (simp_all add: fs_committed_def fs0_def)

lemma fs_committed_log: "log_files fs_committed ''d'' [LDel ''k'', LCommit]"
  by (auto simp: log_files_def fs_committed_def fs0_def log_file_def file_readable_def
      less_Suc_eq NUL_def MAX_KEYLEN_def)

subsection \<open>Servers\<close>

definition store0 :: kvstore_t where "store0 = \<lparr>store_dirname = ''d''\<rparr>"

definition srv0 :: kvserver_t where
  "srv0 = \<lparr>srv_store = store0, srv_log = log0, srv_state = TPC_INIT, srv_max_threads = 2,
     srv_port = 16201, srv_hostname = ''a''\<rparr>"

definition srv_prepared :: kvserver_t where
  "srv_prepared = srv0\<lparr>srv_log := log0\<lparr>log_nextid := 1\<rparr>, srv_state := TPC_READY\<rparr>"

definition put_req :: "string \<Rightarrow> string \<Rightarrow> kvrequest_t" where
  "put_req k v = \<lparr>req_type = PUTREQ, req_key = Some k, req_val = Some v\<rparr>"

definition get_req :: "string \<Rightarrow> kvrequest_t" where
  "get_req k = \<lparr>req_type = GETREQ, req_key = Some k, req_val = None\<rparr>"

lemma op_kv_ok: "op_ok (KPut ''k'' ''v'')"
  by (simp add: key_ok_def val_ok_def NUL_def MAX_KEYLEN_def MAX_VALLEN_def)

lemma srv0_rel: "srv_rel ''d'' fs0 srv0 (Map.empty, None)"
  using fs0_store fs0_log
  by (simp add: srv0_def store0_def srv_on_def log0_def log_rel_def pending_log_def)

lemma srv_prepared_rel: "srv_rel ''d'' fs_prepared srv_prepared (Map.empty, Some (KPut ''k'' ''v''))"
  using fs_prepared_store fs_prepared_log op_kv_ok
  by (simp add: srv_prepared_def srv0_def store0_def srv_on_def log0_def log_rel_def pending_log_def)

lemma put_kv_ok: "request_ok (put_req ''k'' ''v'')" "request_complete (put_req ''k'' ''v'')"
  by (simp_all add: put_req_def request_ok_def request_complete_def NUL_def)

lemma get_k_ok: "request_ok (get_req ''k'')" "request_complete (get_req ''k'')"
  by (simp_all add: get_req_def request_ok_def request_complete_def NUL_def)

subsection \<open>A leader with two followers\<close>

definition heap2 :: fheap where
  "heap2 = [1 \<mapsto> \<lparr>fl_id = 10, fl_host = ''a'', fl_port = 16201, fl_next = 2, fl_prev = 2\<rparr>,
            2 \<mapsto> \<lparr>fl_id = 20, fl_host = ''b'', fl_port = 16202, fl_next = 1, fl_prev = 1\<rparr>]"

definition leader2 :: tpcleader_t where
  "leader2 = \<lparr>follower_capacity = 2, follower_count = 2, redundancy = 2, followers_head = Some 1\<rparr>"

definition members2 :: "member list" where
  "members2 = [(10, ''a'', 16201), (20, ''b'', 16202)]"

definition leader_with_room :: tpcleader_t where
  "leader_with_room = leader2\<lparr>follower_capacity := 3\<rparr>"

lemma heap2_ring: "ring heap2 [1, 2]"
  by (simp add: ring_def heap2_def)

lemma ring_at2: "ring_at heap2 leader2 [1, 2] members2"
  using heap2_ring by (simp add: ring_at_def leader2_def members2_def contents_def fdata_def heap2_def)

lemma leader2_rel: "leader_rel heap2 leader2 members2"
  using ring_at2 by (auto simp: leader_rel_def leader2_def members2_def)

lemma leader_with_room_rel: "leader_rel heap2 leader_with_room members2"
proof -
  have "ring_at heap2 leader_with_room [1, 2] members2"
    using ring_at2 by (simp add: ring_at_def leader_with_room_def leader2_def)
  then show ?thesis by (auto simp: leader_rel_def leader_with_room_def leader2_def members2_def)
qed

definition node0 :: kvnode where
  "node0 = \<lparr>nd_dir = ''d'', nd_fs = fs0, nd_srv = srv0\<rparr>"

definition cluster2 :: "netevent list \<Rightarrow> cluster" where
  "cluster2 events = \<lparr>cl_nodes = [(''a'', 16201) \<mapsto> node0, (''b'', 16202) \<mapsto> node0],
     cl_events = events\<rparr>"

definition participants2 :: "addr \<rightharpoonup> participant" where
  "participants2 = [(''a'', 16201) \<mapsto> (Map.empty, None), (''b'', 16202) \<mapsto> (Map.empty, None)]"

definition io0 :: wire_io where
  "io0 = \<lparr>io_payload = [], io_request = [1, 8191], io_answer = [8192], io_line = 0\<rparr>"

lemma io0_ok: "io_ok io0"
  by (simp add: io0_def io_ok_def)

lemma put_kv_sendable: "sendable (put_req ''k'' ''v'')" "sendable (put_req ''k'' ''u'')"
  and get_k_sendable: "sendable (get_req ''k'')"
  by (simp_all add: sendable_def put_req_def get_req_def request_complete_def request_url_def url_encode_def
      plain_def NUL_def LF_def)

lemma cluster2_rel: "cluster_rel (cluster2 events) participants2"
  using srv0_rel by (auto simp: cluster_rel_def cluster2_def participants2_def node_rel_def node0_def
      split: if_splits)

lemma cluster2_wired: "wired_rel io0 (cluster2 events) participants2"
  using cluster2_rel io0_ok by (simp add: wired_rel_def)

lemma replicas_members:
  assumes "ms \<noteq> []" shows "replicas ms red key \<subseteq> snd ` set ms"
  using assms by (auto simp: replicas_def replica_def)

lemma replicas2_idle: "\<forall>a \<in> replicas members2 2 key. participants2 a = Some (Map.empty, None)"
  using replicas_members [of members2 2 key] by (auto simp: members2_def participants2_def)

lemma cluster2_view: "cluster_view cluster_rel members2 2 (cluster2 events) Map.empty"
  using cluster2_rel replicas2_idle unfolding cluster_view_def by fastforce

end
