(* ===== verification/WireSystem.thy ===== *)
theory WireSystem
  imports KVScenario
begin

text \<open>
  The whole store in bytes: clients, and followers that register, send and read bytes, the
  leader's socket handler runs on them, and in it the exchanges of \<open>KVCluster\<close> with the followers.
\<close>

subsection \<open>Clients\<close>

text \<open>A client's request, in bytes, to the leader's socket, and the answer it reads.\<close>

definition client_exchange ::
  "wire_io \<Rightarrow> 'w network \<Rightarrow> (nat \<Rightarrow> nat) \<Rightarrow> nat \<Rightarrow> fheap \<Rightarrow> tpcleader_t \<Rightarrow> 'w \<Rightarrow> kvrequest_t \<Rightarrow> int \<Rightarrow> int
     \<Rightarrow> (fheap \<times> tpcleader_t \<times> 'w \<times> kvresponse_t option) option" where
  "client_exchange io net room new h leader w req fd1 fd2 =
     do { (bytes, _) \<leftarrow> kvrequest_send (io_request io) req fd1;
          (h, leader, w, answer) \<leftarrow> leader_socket io net room new h leader w bytes fd2;
          r \<leftarrow> kvresponse_recieve answer;
          Some (h, leader, w, r) }"

fun wire_run ::
  "wire_io \<Rightarrow> 'w network \<Rightarrow> (nat \<Rightarrow> nat) \<Rightarrow> fheap \<Rightarrow> tpcleader_t \<Rightarrow> int \<Rightarrow> int \<Rightarrow> 'w \<Rightarrow> kvrequest_t list
     \<Rightarrow> ('w \<times> kvresponse_t option list) option" where
  "wire_run io net room h leader fd1 fd2 w [] = Some (w, [])"
| "wire_run io net room h leader fd1 fd2 w (req # reqs) =
     do { (_, _, w, r) \<leftarrow> client_exchange io net room 0 h leader w req fd1 fd2;
          (w, rs) \<leftarrow> wire_run io net room h leader fd1 fd2 w reqs;
          Some (w, r # rs) }"

text \<open>What a client reads when the leader replies.\<close>

fun wire_reply :: "reply \<Rightarrow> kvresponse_t option" where
  "wire_reply (SendResponse res) = Some (wire res)"
| "wire_reply SendIndex = None"

subsection \<open>One map, in bytes\<close>

lemma client_step_answer:
  assumes "\<forall>k b. m k = Some b \<longrightarrow> val_ok b"
  shows "res_type (snd (client_step m req)) \<in> {GETRESP, SUCCESS, ERROR, VOTE, ACK}"
    "pred_option body_ok (res_body (snd (client_step m req)))"
  using assms val_body by (auto simp: client_step_def mk_res_def split: option.splits)

lemma client_step_values:
  assumes "client_ok req" "\<forall>k b. m k = Some b \<longrightarrow> val_ok b"
  shows "\<forall>k b. fst (client_step m req) k = Some b \<longrightarrow> val_ok b"
proof (cases "req_type req = PUTREQ \<and> op_verdict m req = 0")
  case True
  obtain v where v: "req_val req = Some v" "cstr v"
    using assms(1) True by (auto simp: client_ok_def request_ok_def request_complete_def)
  then have "val_ok v" using True by (auto simp: op_verdict_def put_verdict_def val_ok_def error_codes split: if_splits)
  then show ?thesis using assms(2) True v by (auto simp: client_step_def kv_apply_req_op)
next
  case False
  then show ?thesis using assms by (auto simp: client_step_def kv_apply_req_op client_ok_def split: if_splits)
qed

text \<open>A request that can be sent is handled as the message it stands for.\<close>

lemma client_exchange_law:
  assumes s: "sendable req" and io: "io_ok io"
    and h: "tpcleader_handle net room new h leader w (Some req) = Some (h', leader', w', SendResponse res)"
    and res: "res_type res \<in> {GETRESP, SUCCESS, ERROR, VOTE, ACK}" "pred_option body_ok (res_body res)"
  shows "client_exchange io net room new h leader w req fd1 fd2 = Some (h', leader', w', Some (wire res))"
proof -
  obtain bytes where 1: "kvrequest_send (io_request io) req fd1 = Some (bytes, int (length bytes))"
    "kvrequest_recieve bytes = Some req" using request_arrives [OF s io] by blast
  obtain out where 2: "reply_send io True fd2 (SendResponse res) = Some out"
    "kvresponse_recieve out = Some (Some (wire res))"
    using response_arrives [OF res(1) io res(2) [unfolded body_ok_eq]] by blast
  show ?thesis using h 1 2 by (simp add: client_exchange_def leader_socket_def)
qed

lemma wire_run_law:
  assumes leader: "leader_rel h leader ms" "ms \<noteq> []" "distinct (map snd ms)"
    and full: "length ms = unat (follower_capacity leader)" and red: "redundancy leader \<noteq> 0"
    and io: "io_ok io" and "list_all client_ok reqs" "list_all sendable reqs"
    and "cluster_view (wired_rel io) ms (unat (redundancy leader)) w m" "cl_events w = []"
    and "\<forall>k b. m k = Some b \<longrightarrow> val_ok b"
  shows "\<exists>w'. wire_run io (cluster_net io fd3 fd4) room h leader fd1 fd2 w reqs
       = Some (w', map wire_reply (snd (client_run m reqs)))
     \<and> cluster_view (wired_rel io) ms (unat (redundancy leader)) w' (fst (client_run m reqs))"
  using assms(7-)
proof (induction reqs arbitrary: w m)
  case Nil
  then show ?case by simp
next
  case (Cons req reqs)
  have ok: "client_ok req" "sendable req" "list_all client_ok reqs" "list_all sendable reqs"
    using Cons.prems(1,2) by simp_all
  have "cluster_faults w = 0" using Cons.prems(4) by (simp add: cluster_faults_def)
  from cl.leader_step_law [OF leader full red ok(1,2) Cons.prems(3) this, of fd3 fd4 room 0] obtain w1 where
    1: "tpcleader_handle (cluster_net io fd3 fd4) room 0 h leader w (Some req)
       = Some (h, leader, w1, SendResponse (snd (client_step m req)))"
      "cluster_view (wired_rel io) ms (unat (redundancy leader)) w1 (fst (client_step m req))" "cluster_faults w1 = 0"
    by blast
  have step: "client_exchange io (cluster_net io fd3 fd4) room 0 h leader w req fd1 fd2
      = Some (h, leader, w1, Some (wire (snd (client_step m req))))"
    by (rule client_exchange_law [OF ok(2) io 1(1) client_step_answer [OF Cons.prems(5)]])
  have "cl_events w1 = []" using 1(3) by (simp add: cluster_faults_def)
  from Cons.IH [OF ok(3,4) 1(2) this client_step_values [OF ok(1) Cons.prems(5)]] step show ?case
    by (auto simp: case_prod_beta Let_def)
qed

text \<open>C5: the store in bytes is one map. Clients whose requests can be put into a message read, from
  the leader's socket, the answers of a single map to their requests, in the form a message gives
  them, when every exchange of the leader with its followers goes over the wire too, whatever
  portions \<open>write\<close> takes; all replicas agree with the map afterwards.\<close>

theorem store_in_bytes_is_one_map:
  assumes "leader_rel h leader ms" "ms \<noteq> []" "distinct (map snd ms)"
    and "length ms = unat (follower_capacity leader)" "redundancy leader \<noteq> 0"
    and "io_ok io" and "list_all client_ok reqs" "list_all sendable reqs"
    and "cluster_view cluster_rel ms (unat (redundancy leader)) w m" "cl_events w = []"
    and "\<forall>k b. m k = Some b \<longrightarrow> val_ok b"
  shows "\<exists>w'. wire_run io (cluster_net io fd3 fd4) room h leader fd1 fd2 w reqs
       = Some (w', map wire_reply (snd (client_run m reqs)))
     \<and> cluster_view cluster_rel ms (unat (redundancy leader)) w' (fst (client_run m reqs))"
proof -
  show ?thesis
    using wire_run_law [OF assms(1-8), of w m fd3 fd4 room fd1 fd2] assms(9-) wired_rel_ok [OF assms(6)] by simp
qed

lemma store_in_bytes_is_one_map_witness:
  "\<exists>w'. wire_run io0 (cluster_net io0 5 6) (\<lambda>n. n) heap2 leader2 3 4 (cluster2 [])
       [get_req ''k'', put_req ''k'' ''v'', get_req ''k'']
     = Some (w', [Some (mk_res ERROR (Some ERRMSG_NO_KEY)), Some (mk_res SUCCESS (Some [])),
                  Some (mk_res GETRESP (Some ''v''))])"
proof -
  have red: "unat (redundancy leader2) = 2" by (simp add: leader2_def)
  have run: "snd (client_run Map.empty [get_req ''k'', put_req ''k'' ''v'', get_req ''k''])
     = [SendResponse (mk_res ERROR (Some ERRMSG_NO_KEY)),
        SendResponse (mk_res SUCCESS None), SendResponse (mk_res GETRESP (Some ''v''))]"
    by (simp add: client_step_def get_req_def put_req_def op_verdict_def put_verdict_def
        req_op.simps MAX_KEYLEN_def MAX_VALLEN_def)
  have ok: "list_all client_ok [get_req ''k'', put_req ''k'' ''v'', get_req ''k'']"
    using put_kv_ok get_k_ok by (simp add: client_ok_def) (simp add: get_req_def put_req_def)
  have send: "list_all sendable [get_req ''k'', put_req ''k'' ''v'', get_req ''k'']"
    using put_kv_sendable get_k_sendable by simp
  from store_in_bytes_is_one_map [OF leader2_rel _ _ _ _ _ ok send _, of io0 "cluster2 []" Map.empty 5 6 "\<lambda>n. n" 3 4] run red
    cluster2_view io0_ok
  show ?thesis
    by (fastforce simp: members2_def leader2_def cluster2_def wire_def mk_res_def)
qed

end
