(* ===== verification/KVMain.thy ===== *)
theory KVMain
  imports WireSystem
begin

text \<open>
  The main programs of hw4 (hw4/src/main/tpcleader.c, hw4/src/main/kvfollower.c): the command
  line, and the start of a follower up to its registration. \<open>start_followers\<close> lets followers
  start one after the other against a running leader, as hw4/src/main/kvsystem does; what they
  and the leader say is bytes. The address of a new entry of the leader's list is part of the
  argument.
\<close>

subsection \<open>Command lines\<close>

text \<open>\<open>argv[i][0] != '-'\<close>\<close>

definition dash :: "string \<Rightarrow> bool" where
  "dash a \<longleftrightarrow> take 1 a = ''-''"

text \<open>The two ports; \<open>None\<close> is the end with the usage text.\<close>

definition follower_args :: "string list \<Rightarrow> (32 word \<times> 32 word) option" where
  "follower_args argv =
     (if length argv = 2 then
        (if dash (argv ! 1) then None else Some (atoi (argv ! 1), 16200))
      else if length argv = 3 then
        (if dash (argv ! 1) \<or> dash (argv ! 2) then None else Some (atoi (argv ! 1), atoi (argv ! 2)))
      else Some (16201, 16200))"

definition leader_args :: "string list \<Rightarrow> (32 word \<times> 32 word \<times> 32 word) option" where
  "leader_args argv =
     (if 4 < length argv then None
      else Some (if 1 < length argv then atoi (argv ! 1) else 16200,
                 if 2 < length argv then atoi (argv ! 2) else 1,
                 if 3 < length argv then atoi (argv ! 3) else 1))"

subsection \<open>Start\<close>

definition LOCALHOST :: string where "LOCALHOST = ''127.0.0.1''"

definition leader_main :: "string list \<Rightarrow> (32 word \<times> tpcleader_t) option" where
  "leader_main argv =
     (case leader_args argv of
        None \<Rightarrow> None
      | Some (port, followers, red) \<Rightarrow> Some (port, tpcleader_init followers red))"

text \<open>The directory; the buffer has 20 bytes.\<close>

definition follower_name :: "32 word \<Rightarrow> string option" where
  "follower_name port =
     (let s = ''follower-port'' @ sdec (sint port) in if length s < 20 then Some s else None)"

text \<open>
  A follower up to its registration: its directory, file system and server and the request it
  sends; \<open>Some None\<close> is the end with the usage text. The result of \<open>kvserver_init\<close> is ignored.
\<close>

definition follower_main :: "fs \<Rightarrow> kvserver_t \<Rightarrow> string list \<Rightarrow> (kvnode \<times> kvrequest_t) option option" where
  "follower_main fs s0 argv =
     (case follower_args argv of
        None \<Rightarrow> Some None
      | Some (follower_port, leader_port) \<Rightarrow>
          do { name \<leftarrow> follower_name follower_port;
               (ret, fs', follower) \<leftarrow> kvserver_init fs s0 name 2 LOCALHOST (sint follower_port);
               req \<leftarrow> register_request follower;
               Some (Some (\<lparr>nd_dir = name, nd_fs = fs', nd_srv = follower\<rparr>, req)) })"

text \<open>Does the follower go on to \<open>server_run\<close>? \<open>sockfd\<close> is the result of \<open>connect_to\<close>.\<close>

definition follower_serves :: "int \<Rightarrow> kvresponse_t option \<Rightarrow> bool" where
  "follower_serves sockfd res \<longleftrightarrow> \<not> sockfd < 0 \<and> \<not> register_result res < 0"

fun start_followers ::
  "wire_io \<Rightarrow> cluster network \<Rightarrow> (nat \<Rightarrow> nat) \<Rightarrow> int \<Rightarrow> int
     \<Rightarrow> (nat \<times> fs \<times> kvserver_t \<times> string list) list \<Rightarrow> fheap \<Rightarrow> tpcleader_t \<Rightarrow> cluster
     \<Rightarrow> (fheap \<times> tpcleader_t \<times> cluster) option" where
  "start_followers io net room fd1 fd2 [] h leader w = Some (h, leader, w)"
| "start_followers io net room fd1 fd2 ((new, fs, s0, argv) # fls) h leader w =
     do { started \<leftarrow> follower_main fs s0 argv;
          case started of
            None \<Rightarrow> start_followers io net room fd1 fd2 fls h leader w
          | Some (nd, req) \<Rightarrow>
              do { (h', leader', w', res) \<leftarrow> client_exchange io net room new h leader w req fd1 fd2;
                   start_followers io net room fd1 fd2 fls h' leader'
                     (if follower_serves fd1 res
                      then set_node w' (srv_hostname (nd_srv nd), word_of_int (srv_port (nd_srv nd))) nd
                      else w') } }"

text \<open>A refused registration goes unnoticed: its result is 0 or 1, and the program tests for a
  negative one.\<close>

lemma follower_always_serves: "0 \<le> sockfd \<Longrightarrow> follower_serves sockfd res"
  by (simp add: follower_serves_def register_result_def split: option.splits)

subsection \<open>The memory of the leader\<close>

lemma set_next_dom: "set_next h a v = Some h' \<Longrightarrow> dom h' = dom h"
  by (clarsimp simp: set_next_def insert_absorb domI split: bind_splits)

lemma set_prev_dom: "set_prev h a v = Some h' \<Longrightarrow> dom h' = dom h"
  by (clarsimp simp: set_prev_def insert_absorb domI split: bind_splits)

lemma link_before_dom: "link_before h new cur = Some h' \<Longrightarrow> dom h' = dom h"
  by (clarsimp simp: link_before_def dest!: set_next_dom set_prev_dom split: bind_splits)

lemma register_loop_dom:
  assumes "register_loop h leader new i first cur = Some r"
  shows "dom (fst r) = dom h"
proof (rule register_loop.raw_induct
    [of "\<lambda>h leader new i first cur r. dom (fst r) = dom h", OF _ assms], goal_cases)
  case (1 rec h leader new i first cur r)
  show ?case
  proof (cases "h cur")
    case (Some c)
    consider "i < fl_id c" | "\<not> i < fl_id c" "fl_id c = i" | "\<not> i < fl_id c" "fl_id c \<noteq> i" "fl_next c \<noteq> first"
      | "\<not> i < fl_id c" "fl_id c \<noteq> i" "fl_next c = first" by blast
    then show ?thesis
    proof cases
      case 3
      then show ?thesis using 1 Some by simp
    qed (use 1(2) Some in \<open>clarsimp simp: link_before_dom split: bind_splits\<close>)+
  qed (use 1(2) in simp)
qed

lemma register_locked_dom:
  "register_locked h leader new i = Some (h', leader') \<Longrightarrow> dom h' = dom h"
  using register_loop_dom by (force simp: register_locked_def split: option.splits)

lemma tpcleader_register_dom:
  "tpcleader_register room new h leader req res = Some (h', leader', res') \<Longrightarrow> dom h' \<subseteq> insert new (dom h)"
  by (clarsimp simp: tpcleader_register_def Let_def dest!: register_locked_dom split: if_splits bind_splits)
    blast

subsection \<open>A fresh directory\<close>

definition fresh_dir :: "fs \<Rightarrow> string \<Rightarrow> bool" where
  "fresh_dir fs d \<longleftrightarrow>
     \<not> fs_stat fs d \<and> fs_dirs fs (parent_dir d) \<noteq> None \<and> dir_writable fs d
     \<and> (\<forall>h i. fs_files fs (entry_path d h i) = None \<and> fs_dirs fs (entry_path d h i) = None)
     \<and> (\<forall>i. fs_files fs (log_path d i) = None \<and> fs_dirs fs (log_path d i) = None)"

lemma path_below:
  "entry_path d h i \<noteq> d" "log_path d i \<noteq> d"
  by (simp_all add: entry_path_def log_path_def in_dir_def)

lemma recovered_rest: "recovered m [] = (m, None)"
  by (simp add: recovered_def)

lemma init_fresh:
  assumes "fresh_dir fs d"
  shows "\<exists>fs' s'. kvserver_init fs s0 d mt host port = Some (0, fs', s')
     \<and> srv_rel d fs' s' (Map.empty, None) \<and> srv_hostname s' = host \<and> srv_port s' = port"
proof -
  let ?fs = "fs\<lparr>fs_dirs := (fs_dirs fs)(d \<mapsto> True)\<rparr>"
  have mk: "fs_mkdir fs d = Inr ?fs" "\<not> fs_stat fs d" using assms by (auto simp: fs_mkdir_def fresh_dir_def)
  have kv: "kv_rel ?fs d Map.empty"
    by (rule no_entries) (use assms path_below in \<open>auto simp: fresh_dir_def\<close>)
  have log: "log_files ?fs d []" using assms path_below by (auto simp: log_files_def fresh_dir_def)
  have no_log: "\<not> fs_stat ?fs (log_path d 0)"
    using assms path_below(2) [of d 0] by (auto simp: fs_stat_def fresh_dir_def)
  obtain fs' s' where i: "kvserver_init ?fs s0 d mt host port = Some (0, fs', s')" "srv_rel d fs' s' (Map.empty, None)"
    using kvserver_init_spec [OF kv log, of s0 mt host port] recovered_rest by auto
  have ks: "kvstore_init fs st d = (0, ?fs, st\<lparr>store_dirname := d\<rparr>)"
    "kvstore_init ?fs st d = (0, ?fs, st\<lparr>store_dirname := d\<rparr>)" for st
    using mk by (simp_all add: kvstore_init_def fs_stat_def)
  then have "kvserver_init fs s0 d mt host port = kvserver_init ?fs s0 d mt host port"
    by (simp add: kvserver_init_def)
  moreover have "srv_hostname s' = host \<and> srv_port s' = port"
    using i(1) tpclog_init_spec(1) [OF log] no_log
    by (auto simp: kvserver_init_def ks kvserver_rebuild_state_def tpclog_iterate_begin_def
        last_entry_loop.simps tpclog_iterate_has_next_def)
  ultimately show ?thesis using i by metis
qed

subsection \<open>Followers register\<close>

definition member_of :: "32 word \<Rightarrow> member" where
  "member_of p = (strhash64 (dec (unat p) @ CHR '':'' # LOCALHOST), LOCALHOST, p)"

definition registration :: "32 word \<Rightarrow> kvrequest_t" where
  "registration p = \<lparr>req_type = REGISTER, req_key = Some LOCALHOST, req_val = Some (dec (unat p))\<rparr>"

text \<open>A follower whose port has at most five digits, in a fresh directory.\<close>

definition good_follower :: "nat \<times> fs \<times> kvserver_t \<times> string list \<Rightarrow> 32 word \<Rightarrow> bool" where
  "good_follower f p \<longleftrightarrow>
     (case f of (new, fs, s0, argv) \<Rightarrow>
        map_option fst (follower_args argv) = Some p \<and> unat p < 10 ^ 5
        \<and> fresh_dir fs (''follower-port'' @ dec (unat p)))"

lemma small_port:
  assumes "unat p < 10 ^ 5"
  shows "sint (p :: 32 word) = uint p" "length (dec (unat p)) \<le> 5" "atoi (dec (unat p)) = p"
proof -
  have "sint (word_of_nat (unat p) :: 32 word) = int (unat p)"
    by (rule sint_of_small_nat) (use assms in simp)
  then show "sint p = uint p" by simp
  show "length (dec (unat p)) \<le> 5" by (rule length_dec_le [OF assms]) simp
  show "atoi (dec (unat p)) = p" using atoi_dec [of "unat p" "[]"] assms by simp
qed

lemma follower_main_spec:
  assumes "good_follower (new, fs, s0, argv) p"
  shows "\<exists>nd. follower_main fs s0 argv = Some (Some (nd, registration p))
     \<and> node_rel nd (Map.empty, None) \<and> srv_hostname (nd_srv nd) = LOCALHOST
     \<and> srv_port (nd_srv nd) = uint p"
proof -
  obtain lp where args: "follower_args argv = Some (p, lp)" and p: "unat p < 10 ^ 5"
    and fresh: "fresh_dir fs (''follower-port'' @ dec (unat p))"
    using assms by (auto simp: good_follower_def)
  let ?name = "''follower-port'' @ dec (unat p)"
  note port = small_port [OF p]
  have sd: "sdec (uint p) = dec (unat p)" by (simp add: sdec_def)
  have name: "follower_name p = Some ?name" using port(2) by (simp add: follower_name_def port(1) sd Let_def)
  obtain fs' s' where i: "kvserver_init fs s0 ?name 2 LOCALHOST (uint p) = Some (0, fs', s')"
    "srv_rel ?name fs' s' (Map.empty, None)" "srv_hostname s' = LOCALHOST" "srv_port s' = uint p"
    using init_fresh [OF fresh] by blast
  have req: "register_request s' = Some (registration p)"
    using port(2) i(3,4) sd by (simp add: register_request_def registration_def)
  show ?thesis
    by (rule exI [of _ "\<lparr>nd_dir = ?name, nd_fs = fs', nd_srv = s'\<rparr>"])
      (use i in \<open>simp add: follower_main_def args name port(1) req node_rel_def\<close>)
qed

lemma plain_dec [simp]: "plain (dec n)"
  using dec_digits [of n] by (auto simp: plain_def NUL_def LF_def is_digit_def list_all_iff)

lemma registration_sendable:
  assumes "unat p < 10 ^ 5" shows "sendable (registration p)"
  using small_port(2) [OF assms]
  by (simp add: sendable_def registration_def request_complete_def request_url_def url_encode_def LOCALHOST_def)
    (simp add: plain_def NUL_def LF_def)

text \<open>The array of \<open>tpcleader_register\<close> has two bytes more than asked for.\<close>

definition room_for :: "(nat \<Rightarrow> nat) \<Rightarrow> 32 word \<Rightarrow> bool" where
  "room_for room p \<longleftrightarrow>
     length LOCALHOST + length (dec (unat p)) + 2 \<le> room (length LOCALHOST + length (dec (unat p)))"

lemma register_new:
  assumes "leader_rel h leader ms" "h new = None" "length ms < unat (follower_capacity leader)"
    and "fst (member_of p) \<notin> fst ` set ms" "unat p < 10 ^ 5" "room_for room p" and io: "io_ok io"
  shows "\<exists>h' leader'. client_exchange io net room new h leader w (registration p) fd1 fd2
       = Some (h', leader', w, Some (wire (mk_res SUCCESS None)))
     \<and> leader_rel h' leader' (insort_key fst (member_of p) ms)
     \<and> follower_capacity leader' = follower_capacity leader \<and> redundancy leader' = redundancy leader
     \<and> dom h' \<subseteq> insert new (dom h)"
proof -
  have m: "host_member LOCALHOST (dec (unat p)) = member_of p"
    using small_port(3) [OF assms(5)] by (simp add: member_of_def host_member_def)
  have req: "req_key (registration p) = Some LOCALHOST" "req_val (registration p) = Some (dec (unat p))"
    by (simp_all add: registration_def)
  from tpcleader_register_spec [OF assms(1,2) req assms(3), of room res_calloc] assms(6) [unfolded room_for_def]
  obtain h' leader' where r: "tpcleader_register room new h leader (registration p) res_calloc
      = Some (h', leader', mk_res SUCCESS None)"
    "leader_rel h' leader' (register_member (member_of p) ms)"
    "follower_capacity leader' = follower_capacity leader" "redundancy leader' = redundancy leader"
    unfolding m by auto
  have "tpcleader_handle net room new h leader w (Some (registration p))
      = Some (h', leader', w, SendResponse (mk_res SUCCESS None))"
    using r(1) by (simp add: tpcleader_handle_def) (simp add: registration_def)
  then have "client_exchange io net room new h leader w (registration p) fd1 fd2
      = Some (h', leader', w, Some (wire (mk_res SUCCESS None)))"
    by (rule client_exchange_law [OF registration_sendable [OF assms(5)] io]) simp_all
  then show ?thesis using r assms(4) tpcleader_register_dom [OF r(1)] by (simp add: register_member_def)
qed

definition fresh_nodes :: "cluster \<Rightarrow> member list \<Rightarrow> bool" where
  "fresh_nodes w ms \<longleftrightarrow> (\<forall>m \<in> set ms. \<exists>nd. cl_nodes w (snd m) = Some nd \<and> node_rel nd (Map.empty, None))"

lemma start_followers_spec:
  assumes "list_all2 good_follower fls ps" and "io_ok io" and fd: "0 \<le> fd1" and "list_all (room_for room) ps" and "leader_rel h leader ms"
    and "length ms + length fls \<le> unat (follower_capacity leader)"
    and "distinct (map (fst \<circ> member_of) ps)" "fst ` set ms \<inter> (fst \<circ> member_of) ` set ps = {}"
    and "distinct (map fst fls)" "set (map fst fls) \<inter> dom h = {}" "fresh_nodes w ms"
  shows "\<exists>h' leader' w' ms'. start_followers io net room fd1 fd2 fls h leader w = Some (h', leader', w')
     \<and> leader_rel h' leader' ms' \<and> mset ms' = mset ms + mset (map member_of ps)
     \<and> follower_capacity leader' = follower_capacity leader \<and> redundancy leader' = redundancy leader
     \<and> fresh_nodes w' ms' \<and> cl_events w' = cl_events w"
  using assms(1,4-)
proof (induction fls ps arbitrary: h leader w ms rule: list_all2_induct)
  case Nil
  then show ?case by auto
next
  case (Cons f fls p ps)
  obtain new fs s0 argv where f: "f = (new, fs, s0, argv)" by (cases f)
  note good = Cons.hyps(1) [unfolded f]
  have p: "unat p < 10 ^ 5" using good by (simp add: good_follower_def)
  obtain nd where nd: "follower_main fs s0 argv = Some (Some (nd, registration p))" "node_rel nd (Map.empty, None)"
    "srv_hostname (nd_srv nd) = LOCALHOST" "srv_port (nd_srv nd) = uint p"
    using follower_main_spec [OF good] by blast
  have "new \<notin> dom h" using Cons.prems(7) unfolding f by simp
  then have new: "h new = None" "new \<notin> set (map fst fls)" using Cons.prems(6) unfolding f by (simp_all add: domIff)
  have "fst (member_of p) \<notin> fst ` set ms" using Cons.prems(5) by simp
  moreover have "length ms < unat (follower_capacity leader)" using Cons.prems(3) by simp
  ultimately have room: "fst (member_of p) \<notin> fst ` set ms" "length ms < unat (follower_capacity leader)" .
  have rp: "room_for room p" "list_all (room_for room) ps" using Cons.prems(1) by simp_all
  from register_new [OF Cons.prems(2) new(1) room(2,1) p rp(1) assms(2), of net w fd1 fd2] obtain h1 leader1 where
    r: "client_exchange io net room new h leader w (registration p) fd1 fd2
        = Some (h1, leader1, w, Some (wire (mk_res SUCCESS None)))"
    "leader_rel h1 leader1 (insort_key fst (member_of p) ms)"
    "follower_capacity leader1 = follower_capacity leader" "redundancy leader1 = redundancy leader"
    "dom h1 \<subseteq> insert new (dom h)" by (elim exE conjE) (rule that)
  let ?ms = "insort_key fst (member_of p) ms"
  let ?w = "set_node w (LOCALHOST, p) nd"
  have addr: "snd (member_of p) = (LOCALHOST, p)" by (simp add: member_of_def)
  have 1: "length ?ms + length fls \<le> unat (follower_capacity leader1)" using Cons.prems(3) r(3) by simp
  have 2: "distinct (map (fst \<circ> member_of) ps)" using Cons.prems(4) by (simp add: comp_def)
  have 3: "fst ` set ?ms \<inter> (fst \<circ> member_of) ` set ps = {}"
    using Cons.prems(4,5) by (simp add: set_insort_key disjoint_iff image_iff)
  have 4: "distinct (map fst fls)" using Cons.prems(6) by simp
  have 5: "set (map fst fls) \<inter> dom h1 = {}" using Cons.prems(7) r(5) new(2) unfolding f by (simp add: disjoint_iff subset_iff) metis
  have 6: "fresh_nodes ?w ?ms" using Cons.prems(8) nd(2) addr
    by (auto simp: fresh_nodes_def set_node_def set_insort_key)
  from Cons.IH [OF rp(2) r(2) 1 2 3 4 5 6] obtain h' leader' w' ms' where
    IH: "start_followers io net room fd1 fd2 fls h1 leader1 ?w = Some (h', leader', w')"
    "leader_rel h' leader' ms'" "mset ms' = mset ?ms + mset (map member_of ps)"
    "follower_capacity leader' = follower_capacity leader1" "redundancy leader' = redundancy leader1"
    "fresh_nodes w' ms'" "cl_events w' = cl_events ?w"
    by (elim exE conjE) (rule that)
  have "start_followers io net room fd1 fd2 (f # fls) h leader w = Some (h', leader', w')"
    using nd r(1) IH(1) fd by (simp add: f follower_always_serves)
  then show ?case using IH(2-) r(3,4)
    by (intro exI [of _ h'] exI [of _ leader'] exI [of _ w'] exI [of _ ms']) (simp add: set_node_def)
qed

subsection \<open>The system from its start\<close>


text \<open>A compiler that gives arrays whole pieces of 16 bytes.\<close>

definition aligned :: "nat \<Rightarrow> nat" where
  "aligned n = (n + 15) div 16 * 16"


end
