(* ===== verification/LeaderRing.thy ===== *)
theory LeaderRing
  imports KVMain
begin

text \<open>
  Which followers a request of the leader of hw4/src/tpcleader.c goes to, from \<open>tpcleader_init\<close> over
  the registrations to the connections that GET and two-phase commit make. The network here
  accepts every connection and notes its address; the followers behind it agree to everything
  and have no key.
\<close>

definition noting_net :: "addr list network" where
  "noting_net =
     \<lparr>net_connect = (\<lambda>w host port. (True, w @ [(host, port)])),
      net_exchange = (\<lambda>w host port req. Some (Some (mk_res ACK (Some ''commit'')), w))\<rparr>"

lemma noting_net_simps [simp]:
  "net_connect noting_net w host port = (True, w @ [(host, port)])"
  "net_exchange noting_net w host port req = Some (Some (mk_res ACK (Some ''commit'')), w)"
  by (simp_all add: noting_net_def)

text \<open>Requests to register, each with the address \<open>malloc\<close> returns for its follower.\<close>

fun register_all ::
  "(nat \<Rightarrow> nat) \<Rightarrow> (nat \<times> string \<times> string) list \<Rightarrow> fheap \<Rightarrow> tpcleader_t \<Rightarrow> (fheap \<times> tpcleader_t) option"
where
  "register_all room [] h leader = Some (h, leader)"
| "register_all room ((new, host, port) # regs) h leader =
     do { (h', leader', _) \<leftarrow> tpcleader_register room new h leader
            \<lparr>req_type = REGISTER, req_key = Some host, req_val = Some port\<rparr> res_calloc;
          register_all room regs h' leader' }"

definition registrant :: "nat \<times> string \<times> string \<Rightarrow> member" where
  "registrant r = host_member (fst (snd r)) (snd (snd r))"

definition room_for_all :: "(nat \<Rightarrow> nat) \<Rightarrow> (nat \<times> string \<times> string) list \<Rightarrow> bool" where
  "room_for_all room regs \<longleftrightarrow>
     (\<forall>(_, host, port) \<in> set regs. length host + length port + 2 \<le> room (length host + length port))"

lemma register_all_spec:
  assumes "leader_rel h leader ms" "length ms + length regs \<le> unat (follower_capacity leader)"
    and "room_for_all room regs" "distinct (map fst regs)" "set (map fst regs) \<inter> dom h = {}"
    and "distinct (map (fst \<circ> registrant) regs)" "fst ` set ms \<inter> (fst \<circ> registrant) ` set regs = {}"
  shows "\<exists>h' leader' ms'. register_all room regs h leader = Some (h', leader') \<and> leader_rel h' leader' ms'
     \<and> mset ms' = mset ms + mset (map registrant regs)
     \<and> follower_capacity leader' = follower_capacity leader \<and> redundancy leader' = redundancy leader"
  using assms
proof (induction regs arbitrary: h leader ms)
  case (Cons r regs)
  obtain new host port where r: "r = (new, host, port)" by (cases r)
  let ?req = "\<lparr>req_type = REGISTER, req_key = Some host, req_val = Some port\<rparr>"
  let ?m = "registrant r"
  have m: "?m = host_member host port" by (simp add: r registrant_def)
  have "new \<notin> dom h" using Cons.prems(5) by (simp add: r)
  then have new: "h new = None" by (simp add: domIff)
  have fits: "length host + length port + 2 \<le> room (length host + length port)" "room_for_all room regs"
    using Cons.prems(3) by (simp_all add: r room_for_all_def)
  have "length ms < unat (follower_capacity leader)" using Cons.prems(2) by simp
  from tpcleader_register_spec [OF Cons.prems(1) new _ _ this, of ?req host port room res_calloc] fits(1)
  obtain h1 leader1 where 1: "tpcleader_register room new h leader ?req res_calloc = Some (h1, leader1, mk_res SUCCESS None)"
    "leader_rel h1 leader1 (register_member ?m ms)"
    "follower_capacity leader1 = follower_capacity leader" "redundancy leader1 = redundancy leader"
    unfolding m by auto
  have "fst ?m \<notin> fst ` set ms" using Cons.prems(7) by auto
  then have ms1: "register_member ?m ms = insort_key fst ?m ms" by (simp add: register_member_def)
  have "dom h1 \<subseteq> insert new (dom h)" by (rule tpcleader_register_dom [OF 1(1)])
  then have dom1: "set (map fst regs) \<inter> dom h1 = {}"
    using Cons.prems(4,5) by (auto simp: r)
  from Cons.IH [OF 1(2) _ fits(2) _ dom1] Cons.prems(2,4,6,7) 1(3) obtain h' leader' ms' where
    IH: "register_all room regs h1 leader1 = Some (h', leader')" "leader_rel h' leader' ms'"
    "mset ms' = mset (register_member ?m ms) + mset (map registrant regs)"
    "follower_capacity leader' = follower_capacity leader1" "redundancy leader' = redundancy leader1"
    unfolding ms1 by (force simp: set_insort_key)
  have "register_all room (r # regs) h leader = Some (h', leader')" using 1(1) IH(1) by (simp add: r)
  moreover have "mset ms' = mset ms + mset (map registrant (r # regs))" using IH(3) ms1 by simp
  ultimately show ?case using IH(2,4,5) 1(3,4) by metis
qed auto

subsection \<open>The loops walk the ring\<close>

lemma replicas_in_order:
  assumes "red \<le> length ms"
  shows "map (replica ms i) [0..<red] = take red (rotate i (map snd ms))"
proof (rule nth_equalityI)
  fix j assume "j < length (map (replica ms i) [0..<red])"
  then have j: "j < red" "j < length ms" "0 < length ms" using assms by auto
  then have "(i + j) mod length ms < length ms" by simp
  then show "map (replica ms i) [0..<red] ! j = take red (rotate i (map snd ms)) ! j"
    using j nth_rotate [of j "map snd ms" i] by (simp add: replica_def)
qed (use assms in simp)

lemma ring_replica:
  assumes at: "ring_at h leader xs ms" and i: "i < length xs"
  obtains f where "h (xs ! ((i + v) mod length xs)) = Some f" "(fl_host f, fl_port f) = replica ms i v"
    "tpcleader_get_successor h (xs ! ((i + v) mod length xs)) = Some (xs ! ((i + (v + 1)) mod length xs))"
proof -
  have "(i + v) mod length xs < length xs" using i by (intro mod_less_divisor) linarith
  from ring_at_node [OF at this] that ring_at_length [OF at] show thesis
    by (metis (no_types, lifting) add.assoc mod_add_left_eq replica_def)
qed

lemma loops_walk:
  assumes at: "ring_at h leader xs ms" and i: "i < length xs" and v: "v \<le> red"
  shows "vote_loop noting_net h red req w (xs ! ((i + v) mod length xs)) v c = Some (w @ map (replica ms i) [v..<red], c)"
    and "ack_loop noting_net h red req w (xs ! ((i + v) mod length xs)) v c = Some (w @ map (replica ms i) [v..<red], c)"
    and "get_loop noting_net h red req w (xs ! ((i + v) mod length xs)) v = Some (w @ map (replica ms i) [v..<red], None)"
proof -
  have "vote_loop noting_net h red req w (xs ! ((i + v) mod length xs)) v c = Some (w @ map (replica ms i) [v..<red], c)
    \<and> ack_loop noting_net h red req w (xs ! ((i + v) mod length xs)) v c = Some (w @ map (replica ms i) [v..<red], c)
    \<and> get_loop noting_net h red req w (xs ! ((i + v) mod length xs)) v = Some (w @ map (replica ms i) [v..<red], None)"
    using v
  proof (induction "red - v" arbitrary: v w c)
    case 0
    then show ?case by (simp add: vote_loop.simps ack_loop.simps get_loop.simps)
  next
    case (Suc n)
    then have lt: "v < red" and n: "n = red - (v + 1)" "v + 1 \<le> red" by simp_all
    obtain f where f: "h (xs ! ((i + v) mod length xs)) = Some f" "(fl_host f, fl_port f) = replica ms i v"
      "tpcleader_get_successor h (xs ! ((i + v) mod length xs)) = Some (xs ! ((i + (v + 1)) mod length xs))"
      by (rule ring_replica [OF at i])
    have tail: "map (replica ms i) [v..<red] = replica ms i v # map (replica ms i) [v + 1..<red]"
      using lt by (simp add: upt_rec)
    note IH = Suc.hyps(1) [OF n, of "w @ [replica ms i v]"]
    show ?case
      unfolding tail using lt f IH
      by (subst vote_loop.simps, subst ack_loop.simps, subst get_loop.simps)
        (simp add: collect_vote_def)
  qed
  then show "vote_loop noting_net h red req w (xs ! ((i + v) mod length xs)) v c = Some (w @ map (replica ms i) [v..<red], c)"
    "ack_loop noting_net h red req w (xs ! ((i + v) mod length xs)) v c = Some (w @ map (replica ms i) [v..<red], c)"
    "get_loop noting_net h red req w (xs ! ((i + v) mod length xs)) v = Some (w @ map (replica ms i) [v..<red], None)"
    by blast+
qed

lemma requests_walk:
  assumes rel: "leader_rel h leader ms" "ms \<noteq> []" "length ms = unat (follower_capacity leader)"
    and req: "req_type req \<in> {PUTREQ, DELREQ}" "req_key req = Some key"
    and as: "as = take (unat (redundancy leader)) (rotate (primary_index ms (strhash64 key)) (map snd ms))"
  shows "tpcleader_handle_tpc noting_net h leader w (Some req) res_calloc = Some (w @ as @ as, mk_res SUCCESS None)"
    and "tpcleader_handle_get noting_net h leader w (Some req) res_calloc
       = Some (w @ as, mk_res ERROR (Some ERRMSG_NO_KEY))"
proof -
  let ?i = "primary_index ms (strhash64 key)" and ?red = "unat (redundancy leader)"
  obtain xs where at: "ring_at h leader xs ms" and i: "?i < length xs" "(?i + 0) mod length xs = ?i"
    and pri: "tpcleader_get_primary h leader key = Some (Some (xs ! ?i))"
    and full: "follower_count leader = follower_capacity leader"
    by (rule leader_primaryE [OF rel refl, of key]) (rule that)
  have "?red \<le> length ms" using rel(1,3) by (simp add: leader_rel_def word_le_nat_alt)
  then have as': "as = map (replica ms ?i) [0..<?red]" using as replicas_in_order by simp
  note walk = loops_walk [OF at i(1) le0, of ?red, unfolded i(2), folded as']
  have "second_phase noting_net h leader key msg w' = Some (w' @ as)" for msg w'
    using pri walk(2) by (subst second_phase.simps) simp
  then show "tpcleader_handle_tpc noting_net h leader w (Some req) res_calloc = Some (w @ as @ as, mk_res SUCCESS None)"
    using full req pri walk(1) by (auto simp: tpcleader_handle_tpc_def)
  show "tpcleader_handle_get noting_net h leader w (Some req) res_calloc
       = Some (w @ as, mk_res ERROR (Some ERRMSG_NO_KEY))"
    using req pri walk(3) by (simp add: tpcleader_handle_get_def)
qed

text \<open>The members in order of their ids, whatever the order they registered in.\<close>

lemma members_sorted:
  assumes "leader_rel h leader ms" "mset ms = mset ns"
  shows "ms = sort_key fst ns"
proof -
  obtain xs where "ring_at h leader xs ms" using assms(1) by (auto simp: leader_rel_def)
  then have "sorted_wrt (<) (map fst ms)" by (simp add: ring_at_def)
  then have "sorted (map fst ms)" "distinct (map fst ms)" by (simp_all add: strict_sorted_iff)
  moreover have "inj_on fst (set ns)" using \<open>distinct (map fst ms)\<close> assms(2) by (metis distinct_map set_mset_mset)
  ultimately show ?thesis using sort_key_inj_key_eq [of ns ms fst] assms(2) by simp
qed

subsection \<open>Property\<close>



end
