(* ===== verification/Descriptors.thy ===== *)
theory Descriptors
  imports CPrelude
begin

text \<open>
  The descriptors of a process, as the programs of hw1, hw2 and hw4 use them: a table from
  numbers below \<open>FD_LIMIT\<close> to what is open there. A new descriptor is the lowest free number, and
  without one the call fails. The result \<open>None\<close> stands for \<open>-1\<close>.
\<close>

type_synonym 'f fd_table = "nat \<Rightarrow> 'f option"

definition FD_LIMIT :: nat where "FD_LIMIT = 1024"

definition new_fd :: "'f fd_table \<Rightarrow> nat option" where
  "new_fd fds = (case filter (\<lambda>n. fds n = None) [0..<FD_LIMIT] of [] \<Rightarrow> None | n # _ \<Rightarrow> Some n)"

text \<open>\<open>open\<close>, \<open>socket\<close> and \<open>accept\<close>.\<close>

definition sys_open :: "'f fd_table \<Rightarrow> bool \<Rightarrow> 'f \<Rightarrow> nat option \<times> 'f fd_table" where
  "sys_open fds allowed f =
     (case new_fd fds of
        Some n \<Rightarrow> if allowed then (Some n, fds(n := Some f)) else (None, fds)
      | None \<Rightarrow> (None, fds))"

definition sys_dup :: "'f fd_table \<Rightarrow> nat \<Rightarrow> nat option \<times> 'f fd_table" where
  "sys_dup fds n =
     (case (fds n, new_fd fds) of
        (Some f, Some m) \<Rightarrow> (Some m, fds(m := Some f))
      | _ \<Rightarrow> (None, fds))"

definition sys_dup2 :: "'f fd_table \<Rightarrow> nat option \<Rightarrow> nat \<Rightarrow> 'f fd_table" where
  "sys_dup2 fds n m =
     (case n of
        None \<Rightarrow> fds
      | Some n \<Rightarrow> (case fds n of None \<Rightarrow> fds | Some f \<Rightarrow> fds(m := Some f)))"

definition sys_close :: "'f fd_table \<Rightarrow> nat option \<Rightarrow> 'f fd_table" where
  "sys_close fds n = (case n of None \<Rightarrow> fds | Some n \<Rightarrow> fds(n := None))"

subsection \<open>Free numbers\<close>

definition free_fds :: "'f fd_table \<Rightarrow> nat set" where
  "free_fds fds = {n. n < FD_LIMIT \<and> fds n = None}"

lemma finite_free [simp]: "finite (free_fds fds)"
  by (simp add: free_fds_def)

lemma free_fds_taken:
  "free_fds (fds(n := Some f)) = free_fds fds - {n}"
  by (auto simp: free_fds_def)

lemma new_fd_Some: "new_fd fds = Some n \<Longrightarrow> n \<in> free_fds fds"
proof -
  assume "new_fd fds = Some n"
  then obtain ns where f: "filter (\<lambda>n. fds n = None) [0..<FD_LIMIT] = n # ns"
    by (auto simp: new_fd_def split: list.splits)
  have "n \<in> set (filter (\<lambda>n. fds n = None) [0..<FD_LIMIT])" unfolding f by simp
  then show ?thesis by (simp add: free_fds_def)
qed

lemma new_fd_exists: "free_fds fds \<noteq> {} \<Longrightarrow> \<exists>n. new_fd fds = Some n \<and> n \<in> free_fds fds"
proof -
  assume "free_fds fds \<noteq> {}"
  then have "filter (\<lambda>n. fds n = None) [0..<FD_LIMIT] \<noteq> []"
    by (auto simp: free_fds_def filter_empty_conv)
  then obtain n where "new_fd fds = Some n"
    unfolding new_fd_def by (cases "filter (\<lambda>n. fds n = None) [0..<FD_LIMIT]") auto
  then show ?thesis using new_fd_Some by blast
qed

lemma new_fd_none: "new_fd fds = None \<longleftrightarrow> free_fds fds = {}"
  using new_fd_Some [of fds] new_fd_exists [of fds] by (cases "new_fd fds") auto

text \<open>Opening takes a free number, closing gives it back.\<close>

lemma sys_open_some:
  assumes "free_fds fds \<noteq> {}"
  obtains n where "sys_open fds True f = (Some n, fds(n := Some f))" "n \<in> free_fds fds"
    "card (free_fds (fds(n := Some f))) = card (free_fds fds) - 1"
proof -
  obtain n where n: "new_fd fds = Some n" "n \<in> free_fds fds" using new_fd_exists [OF assms] by blast
  then have "card (free_fds (fds(n := Some f))) = card (free_fds fds) - 1"
    unfolding free_fds_taken by simp
  with n show ?thesis by (intro that [of n]) (simp_all add: sys_open_def)
qed

lemma sys_open_none: "free_fds fds = {} \<Longrightarrow> sys_open fds b f = (None, fds)"
  by (simp add: sys_open_def new_fd_none [THEN iffD2])

lemma sys_open_refused: "sys_open fds False f = (None, fds)"
  by (simp add: sys_open_def split: option.splits)

lemma free_fds_closed:
  "n < FD_LIMIT \<Longrightarrow> free_fds (sys_close fds (Some n)) = insert n (free_fds fds)"
  by (auto simp: free_fds_def sys_close_def)

lemma sys_close_opened:
  "n \<in> free_fds fds \<Longrightarrow> sys_close (fds(n := Some f)) (Some n) = fds"
  by (auto simp: free_fds_def sys_close_def fun_eq_iff)

subsection \<open>A listening socket\<close>

text \<open>
  How both servers open theirs: \<open>socket\<close>, \<open>setsockopt\<close>, \<open>bind\<close>, \<open>listen\<close>, each 0 or the \<open>errno\<close>
  it fails with. \<open>Inl\<close> is \<open>exit (errno)\<close>.
\<close>

record listen_os =
  ls_socket :: int
  ls_setsockopt :: int
  ls_bind :: int
  ls_listen :: int

definition EMFILE :: int where "EMFILE = 24"

definition open_listener :: "listen_os \<Rightarrow> 'f \<Rightarrow> 'f fd_table \<Rightarrow> int + (nat \<times> 'f fd_table)" where
  "open_listener os f fds =
     (case sys_open fds (ls_socket os = 0) f of
        (None, fds) \<Rightarrow> Inl (if ls_socket os = 0 then EMFILE else ls_socket os)
      | (Some n, fds) \<Rightarrow>
          if ls_setsockopt os \<noteq> 0 then Inl (ls_setsockopt os)
          else if ls_bind os \<noteq> 0 then Inl (ls_bind os)
          else if ls_listen os \<noteq> 0 then Inl (ls_listen os)
          else Inr (n, fds))"

lemma open_listener_opened:
  assumes "open_listener os f fds = Inr (n, fds')"
  shows "fds' = fds(n \<mapsto> f)" "n \<in> free_fds fds" "free_fds fds' = free_fds fds - {n}"
proof -
  show 1: "fds' = fds(n \<mapsto> f)" and "n \<in> free_fds fds"
    using assms new_fd_Some [of fds]
    by (auto simp: open_listener_def sys_open_def split: option.splits if_splits)
  show "free_fds fds' = free_fds fds - {n}" unfolding 1 by (rule free_fds_taken)
qed

end
