(* ===== verification/LeaderSockets.thy ===== *)
theory LeaderSockets
  imports KVScenario Descriptors
begin

text \<open>
  The leader as a process with descriptors: \<open>connect_to\<close> of hw4/src/socket_server.c, through
  which every request to a follower goes. It takes a socket and gives it back only to a caller it
  could connect for, so each failed connection costs a descriptor. The contract of a network is
  kept as long as there are more free descriptors than faults to come, and not beyond.
\<close>

subsection \<open>Connecting\<close>

text \<open>A TCP socket, by its timeout for reading in seconds, 0 for none.\<close>

datatype tcp_socket = TcpSocket (so_rcvtimeo: int)

text \<open>\<open>pr_sock\<close> is the connection an exchange works on.\<close>

record 'w process =
  pr_fds :: "tcp_socket fd_table"
  pr_sock :: "nat option"
  pr_world :: 'w

text \<open>
  \<open>resolves\<close> is what \<open>gethostbyname\<close> knows, \<open>connect\<close> the system call on a good socket; on \<open>-1\<close>
  it fails, and \<open>setsockopt\<close> too.
\<close>

definition connect_to ::
    "(string \<Rightarrow> bool) \<Rightarrow> ('w \<Rightarrow> string \<Rightarrow> 32 word \<Rightarrow> bool \<times> 'w) \<Rightarrow> string \<Rightarrow> 32 word \<Rightarrow> int
       \<Rightarrow> 'w process \<Rightarrow> int \<times> 'w process" where
  "connect_to resolves connect host port timeout pr =
     (let (sockfd, fds) = sys_open (pr_fds pr) True (TcpSocket 0);
          pr = pr\<lparr>pr_fds := fds\<rparr>
      in if \<not> resolves host then (-1, pr)
         else case sockfd of
             None \<Rightarrow> (-1, pr)
           | Some n \<Rightarrow>
               let pr = (if 0 < timeout then pr\<lparr>pr_fds := (pr_fds pr)(n \<mapsto> TcpSocket timeout)\<rparr> else pr);
                   (connected, w) = connect (pr_world pr) host port;
                   pr = pr\<lparr>pr_world := w\<rparr>
               in if \<not> connected then (-1, pr) else (int n, pr))"

definition TIMEOUT :: int where "TIMEOUT = 2"

text \<open>What the leader does to its descriptors in an exchange: it ends with the \<open>close\<close>.\<close>

definition leader_net :: "(string \<Rightarrow> bool) \<Rightarrow> 'w network \<Rightarrow> 'w process network" where
  "leader_net resolves net =
     \<lparr>net_connect = (\<lambda>pr host port.
        case connect_to resolves (net_connect net) host port TIMEOUT pr of
          (socketid, pr) \<Rightarrow>
            if socketid = -1 then (False, pr) else (True, pr\<lparr>pr_sock := Some (nat socketid)\<rparr>)),
      net_exchange = (\<lambda>pr host port req.
        do { (answer, w) \<leftarrow> net_exchange net (pr_world pr) host port req;
             Some (answer, pr\<lparr>pr_fds := sys_close (pr_fds pr) (pr_sock pr), pr_sock := None, pr_world := w\<rparr>) })\<rparr>"

lemma connect_to_cases:
  assumes "connect_to resolves connect host port timeout pr = (socketid, pr')"
  obtains
    (full) "free_fds (pr_fds pr) = {}" "socketid = -1" "pr' = pr"
  | (unknown) n t where "n \<in> free_fds (pr_fds pr)" "\<not> resolves host" "socketid = -1"
      "pr' = pr\<lparr>pr_fds := (pr_fds pr)(n \<mapsto> t)\<rparr>"
  | (refused) n t w where "n \<in> free_fds (pr_fds pr)" "connect (pr_world pr) host port = (False, w)"
      "socketid = -1" "pr' = pr\<lparr>pr_fds := (pr_fds pr)(n \<mapsto> t), pr_world := w\<rparr>"
  | (connected) n w where "n \<in> free_fds (pr_fds pr)" "connect (pr_world pr) host port = (True, w)"
      "socketid = int n"
      "pr' = pr\<lparr>pr_fds := (pr_fds pr)(n \<mapsto> TcpSocket (if 0 < timeout then timeout else 0)), pr_world := w\<rparr>"
proof (cases "free_fds (pr_fds pr) = {}")
  case True
  then show ?thesis using assms full
    by (simp add: connect_to_def sys_open_none split: if_splits)
next
  case False
  obtain n where n: "sys_open (pr_fds pr) True (TcpSocket 0) = (Some n, (pr_fds pr)(n \<mapsto> TcpSocket 0))"
    "n \<in> free_fds (pr_fds pr)" using sys_open_some [OF False] by blast
  obtain c w where c: "connect (pr_world pr) host port = (c, w)" by (cases "connect (pr_world pr) host port")
  show ?thesis
  proof (cases "resolves host")
    case False
    then have "socketid = -1" "pr' = pr\<lparr>pr_fds := (pr_fds pr)(n \<mapsto> TcpSocket 0)\<rparr>"
      using assms n(1) by (simp_all add: connect_to_def)
    then show ?thesis by (rule unknown [OF n(2) False])
  next
    case True
    show ?thesis
    proof (cases c)
      case False
      then have w: "connect (pr_world pr) host port = (False, w)" using c by simp
      show ?thesis
        by (rule refused [OF n(2) w, of "TcpSocket (if 0 < timeout then timeout else 0)"])
          (use assms n(1) w \<open>resolves host\<close> in \<open>auto simp: connect_to_def Let_def split: if_splits\<close>)
    next
      case True
      then have w: "connect (pr_world pr) host port = (True, w)" using c by simp
      show ?thesis
        by (rule connected [OF n(2) w])
          (use assms n(1) w \<open>resolves host\<close> in \<open>auto simp: connect_to_def Let_def split: if_splits\<close>)
    qed
  qed
qed

subsection \<open>The contract of the network, with descriptors\<close>

definition proc_rel ::
    "('w \<Rightarrow> (addr \<rightharpoonup> participant) \<Rightarrow> bool) \<Rightarrow> ('w \<Rightarrow> nat) \<Rightarrow> (string \<Rightarrow> bool) \<Rightarrow> nat
       \<Rightarrow> 'w process \<Rightarrow> (addr \<rightharpoonup> participant) \<Rightarrow> bool" where
  "proc_rel rel faults resolves spare pr P \<longleftrightarrow>
     rel (pr_world pr) P \<and> (\<forall>a \<in> dom P. resolves (fst a))
     \<and> faults (pr_world pr) + spare < card (free_fds (pr_fds pr))"

text \<open>While a connection is open its descriptor counts as free.\<close>

definition proc_linked ::
    "('w \<Rightarrow> (addr \<rightharpoonup> participant) \<Rightarrow> bool) \<Rightarrow> ('w \<Rightarrow> nat) \<Rightarrow> (string \<Rightarrow> bool) \<Rightarrow> nat
       \<Rightarrow> 'w process \<Rightarrow> (addr \<rightharpoonup> participant) \<Rightarrow> bool" where
  "proc_linked linked faults resolves spare pr P \<longleftrightarrow>
     linked (pr_world pr) P \<and> (\<forall>a \<in> dom P. resolves (fst a))
     \<and> (\<exists>n. pr_sock pr = Some n \<and> n < FD_LIMIT
          \<and> faults (pr_world pr) + spare < card (insert n (free_fds (pr_fds pr))))"

locale leader_process = follower_network net rel linked faults fits
  for net :: "'w network" and rel :: "'w \<Rightarrow> (addr \<rightharpoonup> participant) \<Rightarrow> bool"
    and linked :: "'w \<Rightarrow> (addr \<rightharpoonup> participant) \<Rightarrow> bool" and faults :: "'w \<Rightarrow> nat"
    and fits :: "kvrequest_t \<Rightarrow> bool" +
  fixes resolves :: "string \<Rightarrow> bool" and spare :: nat
begin

lemma process_connect:
  assumes rel: "proc_rel rel faults resolves spare pr P" and node: "P (host, port) \<noteq> None"
    and c: "net_connect (leader_net resolves net) pr host port = (connected, pr')"
  shows "faults (pr_world pr') \<le> faults (pr_world pr)
     \<and> (if connected then proc_linked linked faults resolves spare pr' P
        else proc_rel rel faults resolves spare pr' P \<and> faults (pr_world pr') < faults (pr_world pr))"
proof -
  have w: "rel (pr_world pr) P" and known: "\<forall>a \<in> dom P. resolves (fst a)"
    and room: "faults (pr_world pr) + spare < card (free_fds (pr_fds pr))"
    using rel by (simp_all add: proc_rel_def)
  have host: "resolves host" using known node by (auto simp: dom_def)
  obtain socketid pr1 where ct: "connect_to resolves (net_connect net) host port TIMEOUT pr = (socketid, pr1)"
    by (cases "connect_to resolves (net_connect net) host port TIMEOUT pr")
  from ct show ?thesis
  proof (cases rule: connect_to_cases)
    case full
    then show ?thesis using room by simp
  next
    case unknown
    then show ?thesis using host by simp
  next
    case (refused n t v)
    note law = connect_law [OF w node refused(2)]
    have "card (free_fds ((pr_fds pr)(n \<mapsto> t))) = card (free_fds (pr_fds pr)) - 1"
      using refused(1) by (simp add: free_fds_taken)
    then show ?thesis using law room c ct refused(3,4) known
      by (auto simp: leader_net_def proc_rel_def)
  next
    case (connected n v)
    note law = connect_law [OF w node connected(2)]
    have "n < FD_LIMIT" using connected(1) by (simp add: free_fds_def)
    moreover have "insert n (free_fds ((pr_fds pr)(n \<mapsto> t))) = free_fds (pr_fds pr)" for t
      using connected(1) by (auto simp: free_fds_taken)
    ultimately show ?thesis using law room c ct connected(3,4) known
      by (auto simp: leader_net_def proc_linked_def)
  qed
qed

lemma process_exchange_defined:
  assumes "proc_linked linked faults resolves spare pr P" "P (host, port) = Some p"
    and "fits req" "request_ok req" "request_complete req"
      "req_type req \<in> {GETREQ, PUTREQ, DELREQ, COMMIT, ABORT}"
  shows "net_exchange (leader_net resolves net) pr host port req \<noteq> None"
proof -
  have "linked (pr_world pr) P" using assms(1) by (simp add: proc_linked_def)
  then have "net_exchange net (pr_world pr) host port req \<noteq> None" using assms(2-) by (rule exchange_defined)
  then show ?thesis by (auto simp: leader_net_def)
qed

lemma process_exchange:
  assumes lk: "proc_linked linked faults resolves spare pr P" and p: "P (host, port) = Some p"
    and fits: "fits req" and req: "request_ok req" "request_complete req"
      "req_type req \<in> {GETREQ, PUTREQ, DELREQ, COMMIT, ABORT}"
    and x: "net_exchange (leader_net resolves net) pr host port req = Some (answer, pr')"
  shows "faults (pr_world pr') \<le> faults (pr_world pr) \<and>
      (if answer = None
       then faults (pr_world pr') < faults (pr_world pr)
         \<and> (proc_rel rel faults resolves spare pr' P
            \<or> proc_rel rel faults resolves spare pr' (P((host, port) \<mapsto> fst (participant_step p req))))
       else answer = Some (wire (snd (participant_step p req)))
         \<and> proc_rel rel faults resolves spare pr' (P((host, port) \<mapsto> fst (participant_step p req))))"
proof -
  obtain n where w: "linked (pr_world pr) P" and known: "\<forall>a \<in> dom P. resolves (fst a)"
    and n: "pr_sock pr = Some n" "n < FD_LIMIT"
    and room: "faults (pr_world pr) + spare < card (insert n (free_fds (pr_fds pr)))"
    using lk by (auto simp: proc_linked_def)
  obtain v where v: "net_exchange net (pr_world pr) host port req = Some (answer, v)"
    "pr' = pr\<lparr>pr_fds := sys_close (pr_fds pr) (Some n), pr_sock := None, pr_world := v\<rparr>"
    using x n(1) by (auto simp: leader_net_def split: bind_splits)
  note law = exchange_law [OF w p fits req v(1)]
  have "resolves host" using bspec [OF known, of "(host, port)"] p by (simp add: domI)
  then have known': "\<forall>a \<in> dom (P((host, port) \<mapsto> q)). resolves (fst a)" for q
    using known by simp
  have "faults v \<le> faults (pr_world pr)" using law by simp
  then have keep: "rel v Q \<Longrightarrow> \<forall>a \<in> dom Q. resolves (fst a) \<Longrightarrow> proc_rel rel faults resolves spare pr' Q" for Q
    using room v(2) n(2) by (simp add: proc_rel_def free_fds_closed)
  have "pr_world pr' = v" using v(2) by simp
  then show ?thesis using law keep [OF _ known] keep [OF _ known' [of "fst (participant_step p req)"]]
    by (cases "answer = None") (simp_all, blast)
qed

end

sublocale leader_process \<subseteq> process: follower_network "leader_net resolves net"
  "proc_rel rel faults resolves spare" "proc_linked linked faults resolves spare" "\<lambda>pr. faults (pr_world pr)" fits
proof (unfold_locales, goal_cases)
  case (1 pr P host port connected pr')
  then show ?case by (rule process_connect)
next
  case (2 pr P host port p req)
  then show ?case by (rule process_exchange_defined)
next
  case (3 pr P host port p req answer pr')
  then show ?case by (rule process_exchange)
qed (rule decision_fits)

subsection \<open>Properties\<close>

interpretation lp: leader_process "cluster_net io fd1 fd2" "wired_rel io" "wired_rel io" cluster_faults sendable resolves spare
  for io fd1 fd2 resolves spare
  by unfold_locales

text \<open>C4: two-phase commit with the descriptors of the leader's process. As long as more
  descriptors are free than faults are to come, a PUT or DEL that fits into a message ends, with the outcome of an
  unlimited leader: all replicas apply the operation or none does. It loses at most one
  descriptor for each fault.\<close>

theorem commit_with_descriptors:
  assumes "leader_rel h leader ms" "ms \<noteq> []" "length ms = unat (follower_capacity leader)"
    and "io_ok io" "sendable req"
    and "request_ok req" "request_complete req" "req_type req \<in> {PUTREQ, DELREQ}"
    and "req_key req = Some key" "R = replicas ms (unat (redundancy leader)) key"
    and "cluster_rel (pr_world pr) P" "\<forall>a \<in> R. P a = Some (M a, None)"
    and "\<forall>a \<in> dom P. resolves (fst a)"
    and "length (cl_events (pr_world pr)) < card (free_fds (pr_fds pr))"
  shows "\<exists>pr' P' res. tpcleader_handle_tpc (leader_net resolves (cluster_net io fd1 fd2)) h leader pr (Some req) res_calloc
       = Some (pr', res)
     \<and> cluster_rel (pr_world pr') P' \<and> (\<forall>a. a \<notin> R \<longrightarrow> P' a = P a)
     \<and> ((res = mk_res SUCCESS None \<and> (\<forall>a \<in> R. op_verdict (M a) req = 0
           \<and> P' a = Some (kv_apply (M a) (req_op req), None)))
      \<or> (res = mk_res ERROR (Some ''abort the command'') \<and> (\<forall>a \<in> R. P' a = Some (M a, None))))
     \<and> length (cl_events (pr_world pr')) + card (free_fds (pr_fds pr))
         \<le> length (cl_events (pr_world pr)) + card (free_fds (pr_fds pr'))"
proof -
  let ?spare = "card (free_fds (pr_fds pr)) - length (cl_events (pr_world pr)) - 1"
  have rel: "proc_rel (wired_rel io) cluster_faults resolves ?spare pr P"
    using assms(4,11,13,14) by (auto simp: proc_rel_def cluster_faults_def wired_rel_def)
  from lp.process.atomic_commit [OF assms(1-3,6-8,5,9,10) rel assms(12), of fd1 fd2] obtain pr' P' res where
    1: "tpcleader_handle_tpc (leader_net resolves (cluster_net io fd1 fd2)) h leader pr (Some req) res_calloc
       = Some (pr', res)" "proc_rel (wired_rel io) cluster_faults resolves ?spare pr' P'"
      "\<forall>a. a \<notin> R \<longrightarrow> P' a = P a"
      "(res = mk_res SUCCESS None \<and> (\<forall>a \<in> R. op_verdict (M a) req = 0
           \<and> P' a = Some (kv_apply (M a) (req_op req), None)))
      \<or> (res = mk_res ERROR (Some ''abort the command'') \<and> (\<forall>a \<in> R. P' a = Some (M a, None)))"
    by (elim exE conjE) (rule that)
  have "cluster_rel (pr_world pr') P'"
    "length (cl_events (pr_world pr')) + card (free_fds (pr_fds pr))
       \<le> length (cl_events (pr_world pr)) + card (free_fds (pr_fds pr'))"
    using 1(2) assms(14) unfolding proc_rel_def cluster_faults_def wired_rel_def by linarith+
  with 1 show ?thesis by (intro exI conjI)
qed

theorem commit_with_descriptors_witness:
  "\<exists>pr' P' res. tpcleader_handle_tpc (leader_net (\<lambda>host. True) (cluster_net io0 4 5)) heap2 leader2
       \<lparr>pr_fds = (\<lambda>n. if n < 3 then Some (TcpSocket 0) else None), pr_sock = None,
         pr_world = cluster2 [Refused, AnswerLost]\<rparr>
       (Some (put_req ''k'' ''v'')) res_calloc = Some (pr', res) \<and> cluster_rel (pr_world pr') P'"
proof -
  let ?fds = "\<lambda>n :: nat. if n < 3 then Some (TcpSocket 0) else None"
  have "{3, 4, 5} \<subseteq> free_fds ?fds" by (simp add: free_fds_def FD_LIMIT_def)
  from card_mono [OF finite_free this] have free: "2 < card (free_fds ?fds)" by simp
  have red: "unat (redundancy leader2) = 2" by (simp add: leader2_def)
  let ?pr = "\<lparr>pr_fds = ?fds, pr_sock = None, pr_world = cluster2 [Refused, AnswerLost]\<rparr>"
  from commit_with_descriptors [OF leader2_rel _ _ io0_ok put_kv_sendable(1) put_kv_ok _ _ refl, of "''k''" ?pr participants2
      "\<lambda>_. Map.empty" "\<lambda>host. True" 4 5, unfolded red] free
  show ?thesis
    using cluster2_rel replicas2_idle by (fastforce simp: members2_def leader2_def put_req_def cluster2_def)
qed

text \<open>C20: and not beyond. When connections are refused as often as there are free descriptors, or
  when none is free to begin with, a PUT or DEL never comes to an end, even though the network
  is faultless by then and every follower is up: the leader has lost its descriptors.\<close>

theorem descriptors_run_out:
  assumes "leader_rel h leader ms" "ms \<noteq> []" "length ms = unat (follower_capacity leader)"
    and "redundancy leader \<noteq> 0" "req_type req \<in> {PUTREQ, DELREQ}" "req_key req = Some key"
    and "set (cl_events (pr_world pr)) \<subseteq> {Refused}"
    and "card (free_fds (pr_fds pr)) \<le> length (cl_events (pr_world pr))"
  shows "tpcleader_handle_tpc (leader_net resolves (cluster_net io fd1 fd2)) h leader pr (Some req) res = None"
proof -
  let ?J = "\<lambda>pr. set (cl_events (pr_world pr)) \<subseteq> {Refused}
     \<and> card (free_fds (pr_fds pr)) \<le> length (cl_events (pr_world pr))"
  have fails: "\<exists>pr'. net_connect (leader_net resolves (cluster_net io fd1 fd2)) pr host port = (False, pr') \<and> ?J pr'"
    if J: "?J pr" for pr host port
  proof -
    obtain socketid pr1 where ct:
      "connect_to resolves (net_connect (cluster_net io fd1 fd2)) host port TIMEOUT pr = (socketid, pr1)"
      by (cases "connect_to resolves (net_connect (cluster_net io fd1 fd2)) host port TIMEOUT pr")
    have taken: "card (free_fds ((pr_fds pr)(n \<mapsto> t))) = card (free_fds (pr_fds pr)) - 1"
      "0 < length (cl_events (pr_world pr))"
      if "n \<in> free_fds (pr_fds pr)" for n t
      using that J by (auto simp: free_fds_taken card_gt_0_iff dest!: card_gt_0_iff [THEN iffD2, rotated])
    have next_refused: "\<exists>w. cluster_connect (pr_world pr) host port = (False, w)
        \<and> set (cl_events w) \<subseteq> {Refused} \<and> length (cl_events (pr_world pr)) \<le> length (cl_events w) + 1"
      if "n \<in> free_fds (pr_fds pr)" for n
      using taken(2) [OF that] J
      by (cases "cl_events (pr_world pr)") (auto simp: cluster_connect_def next_event_def split: option.splits)
    from ct have "socketid = -1 \<and> ?J pr1"
    proof (cases rule: connect_to_cases)
      case full
      then show ?thesis using J by simp
    next
      case (unknown n t)
      then show ?thesis using J taken(1) [OF unknown(1)] by auto
    next
      case (refused n t w)
      then show ?thesis using J taken(1) [OF refused(1)] next_refused [OF refused(1)]
        by (auto simp: cluster_net_def)
    next
      case (connected n w)
      then show ?thesis using next_refused [OF connected(1)] by (auto simp: cluster_net_def)
    qed
    then show ?thesis using ct by (simp add: leader_net_def)
  qed
  show ?thesis
    by (rule handle_tpc_diverges [where J = ?J, OF fails assms(1-6)]) (use assms(7,8) in simp_all)
qed

theorem descriptors_run_out_witness:
  "tpcleader_handle_tpc (leader_net (\<lambda>host. True) (cluster_net io0 4 5)) heap2 leader2
     \<lparr>pr_fds = (\<lambda>n. if n < 1023 then Some (TcpSocket 0) else None), pr_sock = None,
       pr_world = cluster2 [Refused]\<rparr>
     (Some (put_req ''k'' ''v'')) res_calloc = None"
proof -
  have "free_fds (\<lambda>n :: nat. if n < 1023 then Some (TcpSocket 0) else None) = {1023}"
    by (auto simp: free_fds_def FD_LIMIT_def)
  then show ?thesis
    by (intro descriptors_run_out [OF leader2_rel, of _ "''k''"])
      (simp_all add: members2_def leader2_def put_req_def cluster2_def)
qed

end
