(* ===== verification/LeaderThreads.thy ===== *)
theory LeaderThreads
  imports KVScenario
begin

text \<open>
  Two threads of the leader. \<open>server_run\<close> starts three workers, and nothing in
  \<open>tpcleader_handle_tpc\<close> (hw4/src/tpcleader.c) keeps one of them out while another is in the middle
  of a two-phase commit. Here the handler is a thread that makes one connection and exchange at a
  time; alone, it does what \<open>tpcleader_handle_tpc\<close> of \<open>TPCLeader\<close> does.
\<close>

subsection \<open>The handler in steps\<close>

text \<open>Where a thread is: in the first loop, at the follower \<open>pri\<close> with \<open>visited_node\<close> and
  \<open>is_commit\<close>; in a pass of the second, with \<open>is_all_acked\<close>; or past both.\<close>

datatype tpc_thread =
    Voting nat nat bool
  | Acking bool nat nat bool
  | Responded bool

text \<open>The head of \<open>do ... while\<close>.\<close>

definition tpc_pass :: "fheap \<Rightarrow> tpcleader_t \<Rightarrow> kvrequest_t \<Rightarrow> bool \<Rightarrow> 'w \<Rightarrow> (tpc_thread \<times> 'w) option" where
  "tpc_pass h leader req is_commit w =
     do { key \<leftarrow> req_key req;
          pri \<leftarrow> tpcleader_get_primary h leader key;
          Some (case pri of None \<Rightarrow> Responded is_commit | Some p \<Rightarrow> Acking is_commit p 0 True, w) }"

definition tpc_step ::
  "'w network \<Rightarrow> fheap \<Rightarrow> tpcleader_t \<Rightarrow> kvrequest_t \<Rightarrow> tpc_thread \<Rightarrow> 'w \<Rightarrow> (tpc_thread \<times> 'w) option" where
  "tpc_step net h leader req th w =
     (case th of
        Voting pri visited is_commit \<Rightarrow>
          if visited < unat (redundancy leader) then
            do { f \<leftarrow> h pri;
                 (w', vote) \<leftarrow> collect_vote net w f req;
                 pri' \<leftarrow> tpcleader_get_successor h pri;
                 Some (Voting pri' (visited + 1) (is_commit \<and> vote), w') }
          else tpc_pass h leader req is_commit w
      | Acking is_commit pri visited acked \<Rightarrow>
          if visited < unat (redundancy leader) then
            do { f \<leftarrow> h pri;
                 let (connected, w1) = net_connect net w (fl_host f) (fl_port f);
                 if \<not> connected then tpc_pass h leader req is_commit w1
                 else do {
                   (restmp, w2) \<leftarrow> net_exchange net w1 (fl_host f) (fl_port f) (decision is_commit);
                   let ack = (case restmp of None \<Rightarrow> False | Some r \<Rightarrow> res_type r = ACK);
                   pri' \<leftarrow> tpcleader_get_successor h pri;
                   Some (Acking is_commit pri' (visited + 1) (acked \<and> ack), w2) } }
          else if acked then Some (Responded is_commit, w)
          else tpc_pass h leader req is_commit w
      | Responded is_commit \<Rightarrow> Some (th, w))"

definition tpc_begin :: "fheap \<Rightarrow> tpcleader_t \<Rightarrow> kvrequest_t \<Rightarrow> tpc_thread option" where
  "tpc_begin h leader req =
     do { key \<leftarrow> req_key req;
          pri \<leftarrow> tpcleader_get_primary h leader key;
          Some (case pri of None \<Rightarrow> Responded True | Some p \<Rightarrow> Voting p 0 True) }"

definition tpc_response :: "bool \<Rightarrow> kvresponse_t" where
  "tpc_response is_commit =
     (if is_commit then mk_res SUCCESS None else mk_res ERROR (Some ''abort the command''))"

fun tpc_run ::
  "'w network \<Rightarrow> fheap \<Rightarrow> tpcleader_t \<Rightarrow> kvrequest_t \<Rightarrow> nat \<Rightarrow> tpc_thread \<times> 'w \<Rightarrow> (tpc_thread \<times> 'w) option" where
  "tpc_run net h leader req 0 s = Some s"
| "tpc_run net h leader req (Suc n) s =
     do { s \<leftarrow> tpc_step net h leader req (fst s) (snd s); tpc_run net h leader req n s }"

text \<open>Two threads on one network; the schedule says which of them makes the next step.\<close>

fun tpc_two ::
  "'w network \<Rightarrow> fheap \<Rightarrow> tpcleader_t \<Rightarrow> kvrequest_t \<Rightarrow> kvrequest_t \<Rightarrow> turn list
     \<Rightarrow> tpc_thread \<times> tpc_thread \<times> 'w \<Rightarrow> (tpc_thread \<times> tpc_thread \<times> 'w) option" where
  "tpc_two net h leader req1 req2 [] s = Some s"
| "tpc_two net h leader req1 req2 (First # ts) (th1, th2, w) =
     do { (th1, w) \<leftarrow> tpc_step net h leader req1 th1 w; tpc_two net h leader req1 req2 ts (th1, th2, w) }"
| "tpc_two net h leader req1 req2 (Second # ts) (th1, th2, w) =
     do { (th2, w) \<leftarrow> tpc_step net h leader req2 th2 w; tpc_two net h leader req1 req2 ts (th1, th2, w) }"

lemma tpc_run_add:
  "tpc_run net h leader req (m + n) s = Option.bind (tpc_run net h leader req m s) (tpc_run net h leader req n)"
  by (induction m arbitrary: s) (auto split: bind_splits)

lemma tpc_run_trans:
  "\<lbrakk>tpc_run net h leader req m s = Some s'; tpc_run net h leader req n s' = Some s''\<rbrakk> \<Longrightarrow>
   tpc_run net h leader req (m + n) s = Some s''"
  by (simp add: tpc_run_add)

lemma tpc_run_step:
  assumes "tpc_step net h leader req th w = Some s'" "\<exists>n. tpc_run net h leader req n s' = Some s''"
  shows "\<exists>n. tpc_run net h leader req n (th, w) = Some s''"
proof -
  obtain n where "tpc_run net h leader req n s' = Some s''" using assms(2) by blast
  with assms(1) show ?thesis by (intro exI [of _ "Suc n"]) simp
qed

lemma tpc_two_append:
  "tpc_two net h leader req1 req2 (ts @ us) s
     = Option.bind (tpc_two net h leader req1 req2 ts s) (tpc_two net h leader req1 req2 us)"
proof (induction ts arbitrary: s)
  case (Cons t ts)
  obtain th1 th2 w where "s = (th1, th2, w)" by (cases s)
  then show ?case by (cases t) (auto simp: Cons.IH split: bind_splits)
qed simp

lemma tpc_two_first:
  "tpc_run net h leader req1 n (th1, w) = Some (th1', w') \<Longrightarrow>
   tpc_two net h leader req1 req2 (replicate n First) (th1, th2, w) = Some (th1', th2, w')"
  by (induction n arbitrary: th1 w) (auto split: bind_splits)

lemma tpc_two_second:
  "tpc_run net h leader req2 n (th2, w) = Some (th2', w') \<Longrightarrow>
   tpc_two net h leader req1 req2 (replicate n Second) (th1, th2, w) = Some (th1, th2', w')"
  by (induction n arbitrary: th2 w) (auto split: bind_splits)

subsection \<open>A thread alone\<close>

lemma voting_runs:
  assumes "vote_loop net h (unat (redundancy leader)) req w pri visited c = Some (w', c')"
  shows "\<exists>n pri' visited'. unat (redundancy leader) \<le> visited'
     \<and> tpc_run net h leader req n (Voting pri visited c, w) = Some (Voting pri' visited' c', w')"
  using assms
proof (induction "unat (redundancy leader) - visited" arbitrary: w pri visited c)
  case 0
  then show ?case
    by (intro exI [of _ 0] exI [of _ pri] exI [of _ visited]) (simp add: vote_loop.simps)
next
  case (Suc n)
  then have v: "visited < unat (redundancy leader)" and n: "n = unat (redundancy leader) - (visited + 1)" by simp_all
  from Suc.prems v obtain f w1 vote pri1 where
    1: "h pri = Some f" "collect_vote net w f req = Some (w1, vote)" "tpcleader_get_successor h pri = Some pri1"
      "vote_loop net h (unat (redundancy leader)) req w1 pri1 (visited + 1) (c \<and> vote) = Some (w', c')"
    by (subst (asm) vote_loop.simps) (auto split: bind_splits)
  have "tpc_step net h leader req (Voting pri visited c) w = Some (Voting pri1 (visited + 1) (c \<and> vote), w1)"
    using 1 v by (simp add: tpc_step_def)
  with Suc.hyps(1) [OF n 1(4)] show ?case by (metis tpc_run_step)
qed

lemma acking_runs:
  assumes pri: "req_key req = Some key" "tpcleader_get_primary h leader key = Some (Some p)"
    and "ack_loop net h (unat (redundancy leader)) (decision c) w pri visited a = Some (w', a')"
  shows "\<exists>n. tpc_run net h leader req n (Acking c pri visited a, w)
     = Some (if a' then Responded c else Acking c p 0 True, w')"
  using assms(3)
proof (induction "unat (redundancy leader) - visited" arbitrary: w pri visited a)
  case 0
  then have "tpc_step net h leader req (Acking c pri visited a) w
      = Some (if a' then Responded c else Acking c p 0 True, w')"
    using pri by (simp add: ack_loop.simps tpc_step_def tpc_pass_def)
  then show ?case by (intro exI [of _ "Suc 0"]) simp
next
  case (Suc n)
  then have v: "visited < unat (redundancy leader)" and n: "n = unat (redundancy leader) - (visited + 1)" by simp_all
  from Suc.prems v obtain f where f: "h pri = Some f"
    by (subst (asm) ack_loop.simps) (auto split: bind_splits)
  obtain connected w1 where 1: "net_connect net w (fl_host f) (fl_port f) = (connected, w1)"
    by (cases "net_connect net w (fl_host f) (fl_port f)")
  show ?case
  proof (cases connected)
    case False
    have "tpc_step net h leader req (Acking c pri visited a) w
        = Some (if a' then Responded c else Acking c p 0 True, w')"
      using Suc.prems f 1 v False pri by (subst (asm) ack_loop.simps) (simp add: tpc_step_def tpc_pass_def)
    then show ?thesis by (intro exI [of _ "Suc 0"]) simp
  next
    case True
    obtain r w2 where 2: "net_exchange net w1 (fl_host f) (fl_port f) (decision c) = Some (r, w2)"
      using Suc.prems f 1 v True by (subst (asm) ack_loop.simps) (auto split: bind_splits)
    let ?ack = "case r of None \<Rightarrow> False | Some r \<Rightarrow> res_type r = ACK"
    obtain pri1 where 3: "tpcleader_get_successor h pri = Some pri1"
      "ack_loop net h (unat (redundancy leader)) (decision c) w2 pri1 (visited + 1) (a \<and> ?ack) = Some (w', a')"
      using Suc.prems f 1 2 v True by (subst (asm) ack_loop.simps) (auto split: bind_splits)
    have "tpc_step net h leader req (Acking c pri visited a) w = Some (Acking c pri1 (visited + 1) (a \<and> ?ack), w2)"
      using f 1 2 3(1) v True by (simp add: tpc_step_def)
    from tpc_run_step [OF this Suc.hyps(1) [OF n 3(2)]] show ?thesis .
  qed
qed

lemma second_phase_runs:
  assumes pri: "req_key req = Some key" "tpcleader_get_primary h leader key = Some (Some p)"
    and s: "second_phase net h leader key (decision c) w = Some w'"
  shows "\<exists>n. tpc_run net h leader req n (Acking c p 0 True, w) = Some (Responded c, w')"
proof -
  let ?runs = "\<lambda>net' h' leader' key' msg w w'. net' = net \<longrightarrow> h' = h \<longrightarrow> leader' = leader \<longrightarrow> key' = key \<longrightarrow>
      msg = decision c \<longrightarrow> (\<exists>n. tpc_run net h leader req n (Acking c p 0 True, w) = Some (Responded c, w'))"
  have "?runs net h leader key (decision c) w w'"
  proof (rule second_phase.raw_induct [of ?runs, OF _ s], goal_cases)
    case (1 rec net' h' leader' key' msg w w')
    show ?case
    proof (intro impI)
      assume same: "net' = net" "h' = h" "leader' = leader" "key' = key" "msg = decision c"
      from 1(2) [unfolded same] pri(2) obtain w1 a where a:
        "ack_loop net h (unat (redundancy leader)) (decision c) w p 0 True = Some (w1, a)"
        "(if a then Some w1 else rec net h leader key (decision c) w1) = Some w'"
        by (auto split: bind_splits)
      obtain m where m: "tpc_run net h leader req m (Acking c p 0 True, w)
          = Some (if a then Responded c else Acking c p 0 True, w1)"
        using acking_runs [OF pri a(1)] by blast
      show "\<exists>n. tpc_run net h leader req n (Acking c p 0 True, w) = Some (Responded c, w')"
      proof (cases a)
        case True
        then show ?thesis using m a(2) by auto
      next
        case False
        then have "rec net h leader key (decision c) w1 = Some w'" using a(2) by simp
        from 1(1) [OF this] same obtain n where
          "tpc_run net h leader req n (Acking c p 0 True, w1) = Some (Responded c, w')" by blast
        with m False show ?thesis using tpc_run_trans by fastforce
      qed
    qed
  qed
  then show ?thesis by blast
qed

lemma second_phase_from_voting:
  assumes pri: "req_key req = Some key" "tpcleader_get_primary h leader key = Some (Some p)"
    and v: "unat (redundancy leader) \<le> visited"
    and s: "second_phase net h leader key (decision c) w = Some w'"
  shows "\<exists>n. tpc_run net h leader req n (Voting pri' visited c, w) = Some (Responded c, w')"
proof -
  have "tpc_step net h leader req (Voting pri' visited c) w = Some (Acking c p 0 True, w)"
    using pri v by (simp add: tpc_step_def tpc_pass_def)
  from tpc_run_step [OF this second_phase_runs [OF pri s]] show ?thesis .
qed

lemma empty_runs:
  assumes "tpcleader_get_primary h leader key = Some None"
  shows "second_phase net h leader key msg w = Some w"
  using assms by (subst second_phase.simps) simp

text \<open>A thread that is alone does what \<open>tpcleader_handle_tpc\<close> does.\<close>

lemma thread_alone:
  assumes "tpcleader_handle_tpc net h leader w (Some req) res_calloc = Some (w', res)"
    and "follower_count leader = follower_capacity leader" "req_type req \<in> {PUTREQ, DELREQ}"
  shows "\<exists>th n c. tpc_begin h leader req = Some th
     \<and> tpc_run net h leader req n (th, w) = Some (Responded c, w') \<and> res = tpc_response c"
proof -
  from assms obtain key pri where key: "req_key req = Some key" "tpcleader_get_primary h leader key = Some pri"
    by (auto simp: tpcleader_handle_tpc_def split: bind_splits)
  show ?thesis
  proof (cases pri)
    case None
    then have "tpc_begin h leader req = Some (Responded True)" "w' = w" "res = tpc_response True"
      using assms key empty_runs [of h leader key net _ w]
      by (auto simp: tpc_begin_def tpcleader_handle_tpc_def tpc_response_def mk_res_def split: bind_splits)
    then show ?thesis by (intro exI [of _ "Responded True"] exI [of _ 0] exI [of _ True]) simp
  next
    case (Some p)
    then obtain w1 c where 1: "vote_loop net h (unat (redundancy leader)) req w p 0 True = Some (w1, c)"
      "second_phase net h leader key (decision c) w1 = Some w'" "res = tpc_response c"
      using assms key
      by (auto simp: tpcleader_handle_tpc_def tpc_response_def mk_res_def split: bind_splits if_splits)
    obtain n pri' v where "unat (redundancy leader) \<le> v"
      "tpc_run net h leader req n (Voting p 0 True, w) = Some (Voting pri' v c, w1)"
      using voting_runs [OF 1(1)] by blast
    with second_phase_from_voting [OF key(1) key(2) [unfolded Some] _ 1(2)] obtain m where
      "tpc_run net h leader req (n + m) (Voting p 0 True, w) = Some (Responded c, w')"
      using tpc_run_trans by metis
    then show ?thesis using key Some 1(3) by (auto simp: tpc_begin_def)
  qed
qed

subsection \<open>Two threads\<close>

text \<open>A follower that has prepared an operation does not take a second one, but it drops what it
  has prepared when it is told to abort the second.\<close>

lemma busy_step:
  assumes "req_type req \<in> {PUTREQ, DELREQ}"
  shows "participant_step (m, Some op) req = ((m, Some op), mk_res ERROR (Some ERRMSG_INVALID_REQUEST))"
  using assms by (auto simp: participant_step.simps)

lemma decision_on_participant:
  "participant_step (m, None) (decision b) = ((m, None), mk_res ACK None)"
  "participant_step (m, Some op) (decision False) = ((m, None), mk_res ACK None)"
  by (cases b; simp add: participant_step.simps decision_def)+

context follower_network
begin

lemma vote_loop_busy:
  assumes at: "ring_at h leader xs ms" "xs \<noteq> []"
    and req: "request_ok req" "request_complete req" "req_type req \<in> {PUTREQ, DELREQ}"
    and fits: "fits req"
    and busy: "\<forall>j < red. \<exists>m op. P (replica ms i j) = Some (m, Some op)"
    and "rel w P" "faults w = 0" "v \<le> red"
  shows "\<exists>w'. vote_loop net h red req w (xs ! ((i + v) mod length xs)) v c = Some (w', c \<and> v = red)
     \<and> rel w' P \<and> faults w' = 0"
  using assms(8-)
proof (induction "red - v" arbitrary: v w c)
  case 0
  then show ?case by (subst vote_loop.simps) simp
next
  case (Suc n)
  let ?i = "(i + v) mod length xs" and ?a = "replica ms i v"
  have v: "v < red" and n: "n = red - (v + 1)" and v1: "v + 1 \<le> red" using Suc.hyps(2) by simp_all
  have "?i < length xs" using at(2) by simp
  from ring_at_node [OF at(1) this] obtain f where f: "h (xs ! ?i) = Some f"
    "?a = (fl_host f, fl_port f)"
    "tpcleader_get_successor h (xs ! ?i) = Some (xs ! ((?i + 1) mod length xs))"
    using ring_at_length [OF at(1)] by (metis replica_def)
  have succ: "(?i + 1) mod length xs = (i + (v + 1)) mod length xs" by (simp add: mod_simps)
  obtain m op where p: "P (fl_host f, fl_port f) = Some (m, Some op)" using busy v f(2) by auto
  obtain connected w1 where 1: "net_connect net w (fl_host f) (fl_port f) = (connected, w1)"
    by (cases "net_connect net w (fl_host f) (fl_port f)")
  have w1: "linked w1 P" "faults w1 = 0" "connected"
    using connect_law [OF Suc.prems(1) _ 1] p Suc.prems(2) by (auto split: if_splits)
  have same: "P((fl_host f, fl_port f) \<mapsto> fst (participant_step (m, Some op) req)) = P"
    unfolding busy_step [OF req(3)] using p by auto
  have type: "req_type req \<in> {GETREQ, PUTREQ, DELREQ, COMMIT, ABORT}" using req(3) by auto
  obtain ans w2 where 2: "net_exchange net w1 (fl_host f) (fl_port f) req = Some (ans, w2)"
    using exchange_defined [OF w1(1) p fits req(1,2) type] by auto
  have w2: "ans = Some (wire (mk_res ERROR (Some ERRMSG_INVALID_REQUEST)))" "rel w2 P" "faults w2 = 0"
    using exchange_law [OF w1(1) p fits req(1,2) type 2, unfolded same, unfolded busy_step [OF req(3)]] w1(2)
    by (auto split: if_splits)
  have "collect_vote net w f req = Some (w2, ERRMSG_INVALID_REQUEST = MSG_COMMIT)"
    using 1 2 w1(3) w2(1) by (simp add: collect_vote_def wire_def mk_res_def MSG_COMMIT_code)
  then have "vote_loop net h red req w (xs ! ?i) v c
      = vote_loop net h red req w2 (xs ! ((i + (v + 1)) mod length xs)) (v + 1) False"
    using f(1,3) v unfolding succ by (subst vote_loop.simps) simp
  with Suc.hyps(1) [OF n w2(2,3) v1, of False] v show ?case by simp
qed

text \<open>The three stretches of the schedule: the first thread collects its votes, the second runs from
  its start to its end, the first goes on.\<close>

lemma votes_collected:
  assumes leader: "leader_rel h leader ms" "ms \<noteq> []" "distinct (map snd ms)"
    and full: "length ms = unat (follower_capacity leader)"
    and req: "request_ok req" "request_complete req" "req_type req \<in> {PUTREQ, DELREQ}" "fits req"
    and R: "R = replicas ms (unat (redundancy leader)) key"
    and rel: "rel w P" "faults w = 0"
    and idle: "\<forall>a \<in> R. P a = Some (M a, None) \<and> op_verdict (M a) req = 0"
    and p: "tpcleader_get_primary h leader key = Some (Some p)"
  shows "\<exists>n pri visited w' P'. tpc_run net h leader req n (Voting p 0 True, w) = Some (Voting pri visited True, w')
     \<and> unat (redundancy leader) \<le> visited \<and> rel w' P' \<and> faults w' = 0
     \<and> (\<forall>a \<in> R. P' a = Some (M a, Some (req_op req)))"
proof -
  let ?i = "primary_index ms (strhash64 key)" and ?red = "unat (redundancy leader)"
  obtain xs where xs: "ring_at h leader xs ms" "xs \<noteq> []" "(?i + 0) mod length xs = ?i" "p = xs ! ?i"
    by (rule leader_primaryE [OF leader(1,2) full refl, of key]) (use p that in simp)
  have R': "R = replica ms ?i ` {0..<?red}" using R by (simp add: replicas_def)
  have start: "within (\<lambda>a. vote_states (M a) req) R P P" using idle by (auto simp: within_def vote_states_def)
  have le: "?red \<le> length ms" using leader(1) full by (simp add: leader_rel_def word_le_nat_alt)
  have ok: "\<forall>j < ?red. op_verdict (M (replica ms ?i j)) req = 0"
    "\<forall>j < ?red. 0 \<le> j \<longrightarrow> P (replica ms ?i j) = Some (M (replica ms ?i j), None)"
    using idle R' by simp_all
  obtain w1 where w1: "vote_loop net h ?red req w p 0 True = Some (w1, True)" "faults w1 = 0"
    using vote_loop_progress [OF xs(1,2) req inj_replica [OF leader(3) le, of ?i] ok(1) rel le0 ok(2)]
    unfolding xs(3,4) by blast
  have "True \<longrightarrow> (\<forall>j < (0 :: nat). P (replica ms ?i j) = Some (M (replica ms ?i j), Some (req_op req)))" by simp
  from vote_loop_law [OF xs(1,2) req R' refl rel(1) start le0 this] w1(1) obtain P1 where
    "rel w1 P1" "\<forall>a \<in> R. P1 a = Some (M a, Some (req_op req))" unfolding xs(3,4) by auto
  with voting_runs [OF w1(1)] w1(2) show ?thesis by blast
qed

lemma busy_request_aborts:
  assumes leader: "leader_rel h leader ms" "ms \<noteq> []"
    and full: "length ms = unat (follower_capacity leader)" and red: "redundancy leader \<noteq> 0"
    and req: "request_ok req" "request_complete req" "req_type req \<in> {PUTREQ, DELREQ}" "fits req"
    and key: "req_key req = Some key" and R: "R = replicas ms (unat (redundancy leader)) key"
    and rel: "rel w P" "faults w = 0" and busy: "\<forall>a \<in> R. P a = Some (M a, Some (op a))"
    and p: "tpcleader_get_primary h leader key = Some (Some p)"
  shows "\<exists>n w' P'. tpc_run net h leader req n (Voting p 0 True, w) = Some (Responded False, w')
     \<and> rel w' P' \<and> (\<forall>a \<in> R. P' a = Some (M a, None))"
proof -
  let ?i = "primary_index ms (strhash64 key)" and ?red = "unat (redundancy leader)"
  obtain xs where xs: "ring_at h leader xs ms" "xs \<noteq> []" "(?i + 0) mod length xs = ?i" "p = xs ! ?i"
    by (rule leader_primaryE [OF leader full refl, of key]) (use p that in simp)
  have pos: "0 < ?red" using red by (simp add: unat_gt_0)
  have "\<forall>j < ?red. \<exists>m op. P (replica ms ?i j) = Some (m, Some op)" using busy R by (auto simp: replicas_def)
  from vote_loop_busy [OF xs(1,2) req this rel le0] pos obtain w2 where
    w2: "vote_loop net h ?red req w p 0 True = Some (w2, False)" "rel w2 P"
    unfolding xs(3,4) by auto
  let ?S = "\<lambda>a. {(M a, Some (op a)), (M a, None)} :: participant set"
  have start: "within ?S R P P" using busy by (auto simp: within_def)
  have step: "participant_step q (decision False) = ((M a, None), mk_res ACK None)" if "q \<in> ?S a" for a q
    using that decision_on_participant by auto
  have fin: "(M a, None) \<in> ?S a" for a by simp
  from second_phase_law [OF leader(1) xs(1) leader(2) full refl R step fin w2(2) start] obtain w3 P3 where
    w3: "second_phase net h leader key (decision False) w2 = Some w3" "rel w3 P3" "\<forall>a \<in> R. P3 a = Some (M a, None)"
    by blast
  obtain n pri v where n: "?red \<le> v" "tpc_run net h leader req n (Voting p 0 True, w) = Some (Voting pri v False, w2)"
    using voting_runs [OF w2(1)] by blast
  obtain m where "tpc_run net h leader req m (Voting pri v False, w2) = Some (Responded False, w3)"
    using second_phase_from_voting [OF key p n(1) w3(1)] by blast
  with tpc_run_trans [OF n(2) this] w3(2,3) show ?thesis by blast
qed

lemma late_commit:
  assumes leader: "leader_rel h leader ms" "ms \<noteq> []" and full: "length ms = unat (follower_capacity leader)"
    and key: "req_key req = Some key" and R: "R = replicas ms (unat (redundancy leader)) key"
    and rel: "rel w P" and idle: "\<forall>a \<in> R. P a = Some (M a, None)"
    and p: "tpcleader_get_primary h leader key = Some (Some p)" and v: "unat (redundancy leader) \<le> visited"
  shows "\<exists>n w' P'. tpc_run net h leader req n (Voting pri visited True, w) = Some (Responded True, w')
     \<and> rel w' P' \<and> (\<forall>a \<in> R. P' a = Some (M a, None))"
proof -
  obtain xs where xs: "ring_at h leader xs ms" using leader_primaryE [OF leader full refl] by blast
  let ?S = "\<lambda>a. {(M a, None)} :: participant set"
  have start: "within ?S R P P" using idle by (auto simp: within_def)
  have step: "participant_step q (decision True) = ((M a, None), mk_res ACK None)" if "q \<in> ?S a" for a q
    using that decision_on_participant by auto
  have fin: "(M a, None) \<in> ?S a" for a by simp
  from second_phase_law [OF leader(1) xs leader(2) full refl R step fin rel start] obtain w' P' where
    w': "second_phase net h leader key (decision True) w = Some w'" "rel w' P'" "\<forall>a \<in> R. P' a = Some (M a, None)"
    by blast
  with second_phase_from_voting [OF key p v w'(1)] show ?thesis by blast
qed

lemma commit_lost:
  assumes leader: "leader_rel h leader ms" "ms \<noteq> []" "distinct (map snd ms)"
    and full: "length ms = unat (follower_capacity leader)" and red: "redundancy leader \<noteq> 0"
    and req1: "request_ok req1" "request_complete req1" "req_type req1 \<in> {PUTREQ, DELREQ}" "fits req1"
    and req2: "request_ok req2" "request_complete req2" "req_type req2 \<in> {PUTREQ, DELREQ}" "fits req2"
    and key: "req_key req1 = Some key" "req_key req2 = Some key"
    and R: "R = replicas ms (unat (redundancy leader)) key"
    and rel: "rel w P" "faults w = 0"
    and idle: "\<forall>a \<in> R. P a = Some (M a, None) \<and> op_verdict (M a) req1 = 0"
  shows "\<exists>th turns w' P'. tpc_begin h leader req1 = Some th \<and> tpc_begin h leader req2 = Some th
     \<and> tpc_two net h leader req1 req2 turns (th, th, w) = Some (Responded True, Responded False, w')
     \<and> rel w' P' \<and> (\<forall>a \<in> R. P' a = Some (M a, None))"
proof -
  obtain p where p: "tpcleader_get_primary h leader key = Some (Some p)"
    using leader_primaryE [OF leader(1,2) full refl] by blast
  then have started: "tpc_begin h leader req1 = Some (Voting p 0 True)" "tpc_begin h leader req2 = Some (Voting p 0 True)"
    using key by (simp_all add: tpc_begin_def)
  obtain n1 pri v w1 P1 where 1: "tpc_run net h leader req1 n1 (Voting p 0 True, w) = Some (Voting pri v True, w1)"
    "unat (redundancy leader) \<le> v" "rel w1 P1" "faults w1 = 0" "\<forall>a \<in> R. P1 a = Some (M a, Some (req_op req1))"
    using votes_collected [OF leader full req1 R rel idle p] by blast
  obtain n2 w2 P2 where 2: "tpc_run net h leader req2 n2 (Voting p 0 True, w1) = Some (Responded False, w2)"
    "rel w2 P2" "\<forall>a \<in> R. P2 a = Some (M a, None)"
    using busy_request_aborts [OF leader(1,2) full red req2 key(2) R 1(3-5) p] by blast
  obtain n3 w3 P3 where 3: "tpc_run net h leader req1 n3 (Voting pri v True, w2) = Some (Responded True, w3)"
    "rel w3 P3" "\<forall>a \<in> R. P3 a = Some (M a, None)"
    using late_commit [OF leader(1,2) full key(1) R 2(2,3) p 1(2)] by blast
  have "tpc_two net h leader req1 req2 (replicate n1 First @ replicate n2 Second @ replicate n3 First)
      (Voting p 0 True, Voting p 0 True, w) = Some (Responded True, Responded False, w3)"
    using tpc_two_first [OF 1(1)] tpc_two_second [OF 2(1)] tpc_two_first [OF 3(1)] by (simp add: tpc_two_append)
  with started 3(2,3) show ?thesis by blast
qed

end

subsection \<open>Property\<close>

text \<open>C6: two requests for a key at the same time lose an acknowledged operation. On a network
  without faults, whenever every replica approves of the first request, the two threads can run so
  that the client of the first is told SUCCESS, that of the second that its command was aborted,
  and no replica has changed: the followers drop the prepared operation on the ABORT of the other
  transaction, and acknowledge the COMMIT that follows.\<close>

theorem concurrent_request_loses_commit:
  assumes "leader_rel h leader ms" "ms \<noteq> []" "distinct (map snd ms)"
    and "length ms = unat (follower_capacity leader)" "redundancy leader \<noteq> 0"
    and "io_ok io" and "request_ok req1" "request_complete req1" "req_type req1 \<in> {PUTREQ, DELREQ}" "sendable req1"
    and "request_ok req2" "request_complete req2" "req_type req2 \<in> {PUTREQ, DELREQ}" "sendable req2"
    and "req_key req1 = Some key" "req_key req2 = Some key"
    and "R = replicas ms (unat (redundancy leader)) key"
    and "cluster_rel w P" "cl_events w = []"
    and "\<forall>a \<in> R. P a = Some (M a, None) \<and> op_verdict (M a) req1 = 0"
  shows "\<exists>th turns w' P'. tpc_begin h leader req1 = Some th \<and> tpc_begin h leader req2 = Some th
     \<and> tpc_two (cluster_net io fd1 fd2) h leader req1 req2 turns (th, th, w) = Some (Responded True, Responded False, w')
     \<and> cluster_rel w' P' \<and> (\<forall>a \<in> R. P' a = Some (M a, None))"
proof -
  have "cluster_faults w = 0" using assms(19) by (simp add: cluster_faults_def)
  from cl.commit_lost [OF assms(1-5,7-17), of io w P M fd1 fd2, unfolded wired_rel_ok [OF assms(6)], OF assms(18) this assms(20)]
  show ?thesis .
qed

lemma concurrent_request_loses_commit_witness:
  "\<exists>th turns w' P'. tpc_begin heap2 leader2 (put_req ''k'' ''v'') = Some th
     \<and> tpc_two (cluster_net io0 5 6) heap2 leader2 (put_req ''k'' ''v'') (put_req ''k'' ''u'') turns (th, th, cluster2 [])
         = Some (Responded True, Responded False, w')
     \<and> cluster_rel w' P' \<and> (\<forall>a \<in> replicas members2 2 ''k''. P' a = Some (Map.empty, None))"
proof -
  have red: "unat (redundancy leader2) = 2" by (simp add: leader2_def)
  have u: "request_ok (put_req ''k'' ''u'')" "request_complete (put_req ''k'' ''u'')"
    by (simp_all add: put_req_def request_ok_def request_complete_def NUL_def)
  have idle: "\<forall>a \<in> replicas members2 2 ''k''. participants2 a = Some (Map.empty, None)
      \<and> op_verdict Map.empty (put_req ''k'' ''v'') = 0"
    using replicas2_idle by (simp add: op_verdict_def put_verdict_def put_req_def MAX_KEYLEN_def MAX_VALLEN_def)
  from concurrent_request_loses_commit [OF leader2_rel _ _ _ _ io0_ok put_kv_ok _ put_kv_sendable(1) u _
      put_kv_sendable(2) _ _ refl cluster2_rel _, of "''k''" "[]" "\<lambda>_. Map.empty" 5 6, unfolded red, OF _ _ _ _ _ _ _ _ _ idle]
  show ?thesis by (force simp: members2_def leader2_def put_req_def cluster2_def)
qed

end
