(* ===== verification/FollowerThreads.thy ===== *)
theory FollowerThreads
  imports LeaderThreads
begin

text \<open>
  Two threads of a follower. \<open>kvfollower\<close> starts three workers, each of which calls
  \<open>kvserver_handle\<close> (hw4/src/kvserver.c); the log has a lock of its own, but \<open>server->state\<close> is
  tested at the start of \<open>kvserver_handle_tpc\<close> and set at its end without one. Here the handler is
  a thread that makes one access to the shared server at a time; undisturbed, it does what
  \<open>kvserver_handle_tpc\<close> of \<open>KVServer\<close> does. Disturbed, it lets a follower prepare two operations.
\<close>

subsection \<open>The handler in steps\<close>

text \<open>Where a thread is: before the test of the state, behind it, with the result of the check, with
  its record in the log, with the log applied, with the log cleared, or ready to answer.\<close>

datatype srv_thread =
    Received
  | Admitted
  | Checked int
  | Logged
  | Applied
  | Cleared
  | Finished kvresponse_t

definition check_res :: "fs \<Rightarrow> kvserver_t \<Rightarrow> kvrequest_t \<Rightarrow> int option" where
  "check_res fs server req =
     do { key \<leftarrow> req_key req;
          if req_type req = PUTREQ
          then do { value \<leftarrow> req_val req; Some (kvserver_put_check fs server key value) }
          else kvserver_del_check fs server key }"

definition log_request :: "fs \<Rightarrow> kvserver_t \<Rightarrow> kvrequest_t \<Rightarrow> (fs \<times> kvserver_t) option" where
  "log_request fs server req =
     (if req_type req = PUTREQ then server_log fs server PUTREQ (req_key req) (req_val req)
      else if req_type req = DELREQ then server_log fs server DELREQ (req_key req) None
      else server_log fs server (req_type req) None None)"

definition srv_step ::
  "kvrequest_t \<Rightarrow> srv_thread \<Rightarrow> fs \<Rightarrow> kvserver_t \<Rightarrow> (srv_thread \<times> fs \<times> kvserver_t) option"
where
  "srv_step req th fs server =
     (case th of
        Received \<Rightarrow>
          if req_type req \<in> {PUTREQ, DELREQ} then
            Some (if srv_state server = TPC_INIT \<or> srv_state server = TPC_WAIT then Admitted
                  else Finished (mk_res ERROR (Some ERRMSG_INVALID_REQUEST)), fs, server)
          else if req_type req \<in> {COMMIT, ABORT} then
            Some (if srv_state server = TPC_READY then Admitted else Finished (mk_res ACK None), fs, server)
          else do { (fs', server', res) \<leftarrow> kvserver_handle_tpc fs server req res_calloc;
                    Some (Finished res, fs', server') }
      | Admitted \<Rightarrow>
          if req_type req \<in> {PUTREQ, DELREQ}
          then do { c \<leftarrow> check_res fs server req; Some (Checked c, fs, server) }
          else do { (fs', server') \<leftarrow> log_request fs server req; Some (Logged, fs', server') }
      | Checked c \<Rightarrow>
          if c = 0 then do { (fs', server') \<leftarrow> log_request fs server req; Some (Logged, fs', server') }
          else Some (Finished (mk_res VOTE (Some (GETMSG c))), fs, server)
      | Logged \<Rightarrow>
          if req_type req \<in> {PUTREQ, DELREQ}
          then Some (Finished (mk_res VOTE (Some MSG_COMMIT)), fs, server\<lparr>srv_state := TPC_READY\<rparr>)
          else if req_type req = COMMIT
          then do { (fs', server') \<leftarrow> do_log fs (server\<lparr>srv_state := TPC_COMMIT\<rparr>);
                    Some (Applied, fs', server') }
          else do { (fs', server') \<leftarrow> server_clear_log fs (server\<lparr>srv_state := TPC_ABORT\<rparr>);
                    Some (Cleared, fs', server') }
      | Applied \<Rightarrow> do { (fs', server') \<leftarrow> server_clear_log fs server; Some (Cleared, fs', server') }
      | Cleared \<Rightarrow> Some (Finished (mk_res ACK None), fs, server\<lparr>srv_state := TPC_WAIT\<rparr>)
      | Finished res \<Rightarrow> Some (th, fs, server))"

fun thread_run :: "kvrequest_t \<Rightarrow> nat \<Rightarrow> srv_thread \<times> fs \<times> kvserver_t \<Rightarrow> (srv_thread \<times> fs \<times> kvserver_t) option" where
  "thread_run req 0 s = Some s"
| "thread_run req (Suc n) (th, fs, server) =
     do { s \<leftarrow> srv_step req th fs server; thread_run req n s }"

text \<open>Two threads on one server; the schedule says which of them makes the next step.\<close>

fun srv_two ::
  "kvrequest_t \<Rightarrow> kvrequest_t \<Rightarrow> turn list \<Rightarrow> srv_thread \<times> srv_thread \<times> fs \<times> kvserver_t
     \<Rightarrow> (srv_thread \<times> srv_thread \<times> fs \<times> kvserver_t) option" where
  "srv_two req1 req2 [] s = Some s"
| "srv_two req1 req2 (First # ts) (th1, th2, fs, server) =
     do { (th1, fs, server) \<leftarrow> srv_step req1 th1 fs server; srv_two req1 req2 ts (th1, th2, fs, server) }"
| "srv_two req1 req2 (Second # ts) (th1, th2, fs, server) =
     do { (th2, fs, server) \<leftarrow> srv_step req2 th2 fs server; srv_two req1 req2 ts (th1, th2, fs, server) }"

subsection \<open>A thread undisturbed\<close>

lemma run_finished [simp]: "thread_run req n (Finished res, fs, server) = Some (Finished res, fs, server)"
  by (induction n) (simp_all add: srv_step_def)

text \<open>Five steps are enough for every request, and they do what the handler does.\<close>

lemma thread_is_handler:
  "thread_run req 5 (Received, fs, server) =
     do { (fs', server', res) \<leftarrow> kvserver_handle_tpc fs server req res_calloc;
          Some (Finished res, fs', server') }"
proof -
  have five: "(5 :: nat) = Suc (Suc (Suc (Suc (Suc 0))))" by simp
  show ?thesis
  proof (cases "req_type req")
    case PUTREQ
    then show ?thesis unfolding five
      by (cases "req_key req"; cases "req_val req")
        (auto simp: srv_step_def check_res_def log_request_def kvserver_handle_tpc_def Let_def split: bind_splits)
  next
    case DELREQ
    then show ?thesis unfolding five
      by (cases "req_key req")
        (auto simp: srv_step_def check_res_def log_request_def kvserver_handle_tpc_def Let_def split: bind_splits)
  qed (unfold five, auto simp: srv_step_def log_request_def kvserver_handle_tpc_def split: bind_splits)
qed

subsection \<open>Two threads that prepare\<close>

lemma check_res_verdict:
  assumes "srv_on s d" "kv_rel fs d m" "request_complete req" "req_type req \<in> {PUTREQ, DELREQ}"
  shows "check_res fs s req = Some (op_verdict m req)"
proof -
  have kv: "kv_rel fs (store_dirname (srv_store s)) m" using assms(1,2) by (simp add: srv_on_def)
  have "kvserver_put_check fs s k v = put_verdict k v" for k v
    using kv_rel_stat [OF kv]
    by (simp add: kvserver_put_check_def put_verdict_def kvstore_put_check_def Let_def)
  then show ?thesis
    using kvserver_del_check_spec [OF kv] assms(3,4)
    by (auto simp: check_res_def op_verdict_def request_complete_def)
qed

lemma verdict_op_ok:
  assumes "request_ok req" "request_complete req" "req_type req \<in> {PUTREQ, DELREQ}" "op_verdict m req = 0"
  shows "op_ok (req_op req)"
  using assms
  by (auto simp: op_verdict_def put_verdict_def del_verdict_def request_ok_def request_complete_def
      key_ok_def val_ok_def error_codes req_op.simps split: if_splits)

lemma log_request_spec:
  assumes "srv_on s d" "kv_rel fs d m" "log_rel fs (srv_log s) rs"
    and "request_ok req" "request_complete req" "req_type req \<in> {PUTREQ, DELREQ}" "op_verdict m req = 0"
  shows "\<exists>fs' s'. log_request fs s req = Some (fs', s') \<and> srv_on s' d \<and> srv_state s' = srv_state s
     \<and> kv_rel fs' d m \<and> log_rel fs' (srv_log s') (rs @ [op_rec (req_op req)])"
proof -
  have "rec_ok (op_rec (req_op req))" by (rule rec_ok_op_rec [OF verdict_op_ok [OF assms(4-7)]])
  from server_log_spec [OF assms(1-3) this refl refl refl] show ?thesis
    using assms(5,6) by (auto simp: log_request_def request_complete_def req_op.simps)
qed

text \<open>Both pass the test before either has set the state; both check and log.\<close>

definition both_prepare :: "turn list" where
  "both_prepare = [First, Second, First, First, First, Second, Second, Second]"

lemma both_prepared:
  assumes rel: "srv_rel d fs s (m, None)"
    and req1: "request_ok req1" "request_complete req1" "req_type req1 \<in> {PUTREQ, DELREQ}" "op_verdict m req1 = 0"
    and req2: "request_ok req2" "request_complete req2" "req_type req2 \<in> {PUTREQ, DELREQ}" "op_verdict m req2 = 0"
  shows "\<exists>fs' s'. srv_two req1 req2 both_prepare (Received, Received, fs, s)
       = Some (Finished (mk_res VOTE (Some MSG_COMMIT)), Finished (mk_res VOTE (Some MSG_COMMIT)), fs', s')
     \<and> srv_on s' d \<and> srv_state s' = TPC_READY \<and> kv_rel fs' d m
     \<and> log_rel fs' (srv_log s') [op_rec (req_op req1), op_rec (req_op req2)]"
proof -
  have on: "srv_on s d" and kv: "kv_rel fs d m" and log: "log_rel fs (srv_log s) []"
    and state: "srv_state s = TPC_INIT \<or> srv_state s = TPC_WAIT"
    using rel by (auto simp: pending_log_def)
  obtain fs1 s1 where 1: "log_request fs s req1 = Some (fs1, s1)" "srv_on s1 d" "kv_rel fs1 d m"
    "log_rel fs1 (srv_log s1) [op_rec (req_op req1)]"
    using log_request_spec [OF on kv log req1] by auto
  let ?s1 = "s1\<lparr>srv_state := TPC_READY\<rparr>"
  have on1: "srv_on ?s1 d" "log_rel fs1 (srv_log ?s1) [op_rec (req_op req1)]"
    using 1 by (simp_all add: srv_on_def)
  obtain fs2 s2 where 2: "log_request fs1 ?s1 req2 = Some (fs2, s2)" "srv_on s2 d" "kv_rel fs2 d m"
    "log_rel fs2 (srv_log s2) [op_rec (req_op req1), op_rec (req_op req2)]"
    using log_request_spec [OF on1(1) 1(3) on1(2) req2] by auto
  have c: "check_res fs s req1 = Some 0" "check_res fs1 ?s1 req2 = Some 0"
    using check_res_verdict [OF on kv req1(2,3)] check_res_verdict [OF on1(1) 1(3) req2(2,3)] req1(4) req2(4)
    by simp_all
  have "srv_two req1 req2 both_prepare (Received, Received, fs, s)
      = Some (Finished (mk_res VOTE (Some MSG_COMMIT)), Finished (mk_res VOTE (Some MSG_COMMIT)), fs2,
          s2\<lparr>srv_state := TPC_READY\<rparr>)"
    using state c 1(1) 2(1) req1(3) req2(3) by (simp add: both_prepare_def srv_step_def)
  then show ?thesis using 2 by (simp add: srv_on_def)
qed

text \<open>What the decisions do to a log of two operations.\<close>

lemma commit_of_two:
  assumes "srv_on s d" "srv_state s = TPC_READY" "kv_rel fs d m" "log_rel fs (srv_log s) [op_rec op1, op_rec op2]"
    and "op_ok op1" "op_ok op2"
  shows "\<exists>fs' s'. kvserver_handle_tpc fs s (decision True) res_calloc = Some (fs', s', mk_res ACK None)
     \<and> srv_rel d fs' s' (kv_apply (kv_apply m op1) op2, None)"
proof -
  obtain fs1 s1 where 1: "server_log fs s COMMIT None None = Some (fs1, s1)" "srv_on s1 d" "kv_rel fs1 d m"
    "log_rel fs1 (srv_log s1) [op_rec op1, op_rec op2, LCommit]"
    using server_log_spec [OF assms(1,3,4), of LCommit COMMIT None None] by auto
  let ?s1 = "s1\<lparr>srv_state := TPC_COMMIT\<rparr>"
  have s1: "srv_on ?s1 d" "log_rel fs1 (srv_log ?s1) [op_rec op1, op_rec op2, LCommit]"
    using 1 by (simp_all add: srv_on_def)
  obtain fs2 s2 where 2: "do_log fs1 ?s1 = Some (fs2, s2)" "srv_on s2 d"
    "kv_rel fs2 d (kv_apply (kv_apply m op1) op2)" "log_rel fs2 (srv_log s2) [op_rec op1, op_rec op2, LCommit]"
    using do_log_spec [OF s1(1) 1(3) s1(2)] assms(5,6) by (auto simp: rec_apply_op)
  obtain fs3 s3 where 3: "server_clear_log fs2 s2 = Some (fs3, s3)" "srv_on s3 d"
    "kv_rel fs3 d (kv_apply (kv_apply m op1) op2)" "log_rel fs3 (srv_log s3) []"
    using server_clear_log_spec [OF 2(2-4)] by blast
  show ?thesis using assms(2) 1(1) 2(1) 3
    by (simp add: kvserver_handle_tpc_def decision_def pending_log_def srv_on_def)
qed

lemma abort_of_two:
  assumes "srv_on s d" "srv_state s = TPC_READY" "kv_rel fs d m" "log_rel fs (srv_log s) rs"
  shows "\<exists>fs' s'. kvserver_handle_tpc fs s (decision False) res_calloc = Some (fs', s', mk_res ACK None)
     \<and> srv_rel d fs' s' (m, None)"
proof -
  obtain fs1 s1 where 1: "server_log fs s ABORT None None = Some (fs1, s1)" "srv_on s1 d" "kv_rel fs1 d m"
    "log_rel fs1 (srv_log s1) (rs @ [LAbort])"
    using server_log_spec [OF assms(1,3,4), of LAbort ABORT None None] by auto
  let ?s1 = "s1\<lparr>srv_state := TPC_ABORT\<rparr>"
  have s1: "srv_on ?s1 d" "log_rel fs1 (srv_log ?s1) (rs @ [LAbort])"
    using 1 by (simp_all add: srv_on_def)
  obtain fs2 s2 where 2: "server_clear_log fs1 ?s1 = Some (fs2, s2)" "srv_on s2 d" "kv_rel fs2 d m"
    "log_rel fs2 (srv_log s2) []"
    using server_clear_log_spec [OF s1(1) 1(3) s1(2)] by blast
  show ?thesis using assms(2) 1(1) 2
    by (simp add: kvserver_handle_tpc_def decision_def pending_log_def srv_on_def)
qed

lemma late_decision:
  assumes "srv_rel d fs s (m, None)"
  shows "kvserver_handle_tpc fs s (decision b) res_calloc = Some (fs, s, mk_res ACK None)"
  using assms by (auto simp: kvserver_handle_tpc_def decision_def)

subsection \<open>Property\<close>

text \<open>C7: two requests that reach a follower at rest together can both be voted for, whichever keys
  they name: both threads find the state INIT or WAIT before either sets it. The two operations then
  share one log. If the COMMIT of one transaction comes first, the operation of the other is applied
  with it, and the ABORT of that other is acknowledged without effect; if its ABORT comes first, both
  operations are dropped, and the COMMIT is acknowledged without effect.\<close>

theorem concurrent_prepares_share_fate:
  assumes "srv_rel d fs s (m, None)"
    and "request_ok req1" "request_complete req1" "req_type req1 \<in> {PUTREQ, DELREQ}" "op_verdict m req1 = 0"
    and "request_ok req2" "request_complete req2" "req_type req2 \<in> {PUTREQ, DELREQ}" "op_verdict m req2 = 0"
  shows "\<exists>turns fs1 s1 fs2 s2 fs3 s3.
       srv_two req1 req2 turns (Received, Received, fs, s)
         = Some (Finished (mk_res VOTE (Some MSG_COMMIT)), Finished (mk_res VOTE (Some MSG_COMMIT)), fs1, s1)
     \<and> kvserver_handle_tpc fs1 s1 (decision True) res_calloc = Some (fs2, s2, mk_res ACK None)
     \<and> kvserver_handle_tpc fs2 s2 (decision False) res_calloc = Some (fs2, s2, mk_res ACK None)
     \<and> srv_rel d fs2 s2 (kv_apply (kv_apply m (req_op req1)) (req_op req2), None)
     \<and> kvserver_handle_tpc fs1 s1 (decision False) res_calloc = Some (fs3, s3, mk_res ACK None)
     \<and> kvserver_handle_tpc fs3 s3 (decision True) res_calloc = Some (fs3, s3, mk_res ACK None)
     \<and> srv_rel d fs3 s3 (m, None)"
proof -
  obtain fs1 s1 where 1: "srv_two req1 req2 both_prepare (Received, Received, fs, s)
       = Some (Finished (mk_res VOTE (Some MSG_COMMIT)), Finished (mk_res VOTE (Some MSG_COMMIT)), fs1, s1)"
    "srv_on s1 d" "srv_state s1 = TPC_READY" "kv_rel fs1 d m"
    "log_rel fs1 (srv_log s1) [op_rec (req_op req1), op_rec (req_op req2)]"
    using both_prepared [OF assms] by blast
  obtain fs2 s2 where 2: "kvserver_handle_tpc fs1 s1 (decision True) res_calloc = Some (fs2, s2, mk_res ACK None)"
    "srv_rel d fs2 s2 (kv_apply (kv_apply m (req_op req1)) (req_op req2), None)"
    using commit_of_two [OF 1(2-5) verdict_op_ok [OF assms(2-5)] verdict_op_ok [OF assms(6-9)]] by blast
  obtain fs3 s3 where 3: "kvserver_handle_tpc fs1 s1 (decision False) res_calloc = Some (fs3, s3, mk_res ACK None)"
    "srv_rel d fs3 s3 (m, None)"
    using abort_of_two [OF 1(2-5)] by blast
  show ?thesis
    using 1(1) 2 3 late_decision [OF 2(2), of False] late_decision [OF 3(2), of True] by blast
qed

lemma concurrent_prepares_share_fate_witness:
  "\<exists>turns fs1 s1 fs2 s2.
       srv_two (put_req ''k'' ''v'') (put_req ''x'' ''y'') turns (Received, Received, fs0, srv0)
         = Some (Finished (mk_res VOTE (Some MSG_COMMIT)), Finished (mk_res VOTE (Some MSG_COMMIT)), fs1, s1)
     \<and> kvserver_handle_tpc fs1 s1 (decision True) res_calloc = Some (fs2, s2, mk_res ACK None)
     \<and> kvserver_handle_tpc fs2 s2 (decision False) res_calloc = Some (fs2, s2, mk_res ACK None)
     \<and> srv_rel ''d'' fs2 s2 ([''k'' \<mapsto> ''v'', ''x'' \<mapsto> ''y''], None)"
proof -
  have xy: "request_ok (put_req ''x'' ''y'')" "request_complete (put_req ''x'' ''y'')"
    by (simp_all add: put_req_def request_ok_def request_complete_def NUL_def)
  have v: "op_verdict Map.empty (put_req ''k'' ''v'') = 0" "op_verdict Map.empty (put_req ''x'' ''y'') = 0"
    by (simp_all add: op_verdict_def put_verdict_def put_req_def MAX_KEYLEN_def MAX_VALLEN_def)
  have t: "req_type (put_req k w) \<in> {PUTREQ, DELREQ}" for k w by (simp add: put_req_def)
  have op: "req_op (put_req k w) = KPut k w" for k w by (simp add: put_req_def req_op.simps)
  from concurrent_prepares_share_fate [OF srv0_rel put_kv_ok t v(1) xy t v(2), unfolded op] show ?thesis
    unfolding kv_apply.simps by blast
qed

end
