(* ===== verification/StoreThreads.thy ===== *)
theory StoreThreads
  imports KVScenario
begin

text \<open>
  Two threads in \<open>kvstore_put\<close> of hw4/src/kvstore.c. It tests the directory without a lock, then
  calls \<open>find_entry\<close>, which takes and releases the read lock, and takes the write lock only
  for the rest. Here the function is a thread that makes one of these three steps at a time;
  undisturbed, it does what \<open>kvstore_put\<close> of \<open>KVStore\<close> does. Disturbed, it lets a key come into
  its chain twice.
\<close>

subsection \<open>The function in steps\<close>

text \<open>Where a thread is: before \<open>kvstore_put_check\<close>, before \<open>find_entry\<close>, with its result at the
  write lock, or past its end.\<close>

datatype put_thread = PutChecks | PutLooks | PutWrites int | PutReturned int

definition put_step ::
  "kvstore_t \<Rightarrow> string \<Rightarrow> string \<Rightarrow> put_thread \<Rightarrow> fs \<Rightarrow> (put_thread \<times> fs) option" where
  "put_step store key value th fs =
     (case th of
        PutChecks \<Rightarrow>
          let check = kvstore_put_check fs store key value
          in Some (if check < 0 then PutReturned check else PutLooks, fs)
      | PutLooks \<Rightarrow> do { (counter, _) \<leftarrow> find_entry fs store key False; Some (PutWrites counter, fs) }
      | PutWrites counter \<Rightarrow>
          do { (ret, fs') \<leftarrow> kvstore_put_locked fs store key value counter; Some (PutReturned ret, fs') }
      | PutReturned ret \<Rightarrow> Some (th, fs))"

fun put_run :: "kvstore_t \<Rightarrow> string \<Rightarrow> string \<Rightarrow> nat \<Rightarrow> put_thread \<times> fs \<Rightarrow> (put_thread \<times> fs) option" where
  "put_run store key value 0 s = Some s"
| "put_run store key value (Suc n) (th, fs) =
     do { s \<leftarrow> put_step store key value th fs; put_run store key value n s }"

text \<open>Two threads that put values for one key; the schedule says which of them makes the next step.\<close>

fun put_two ::
  "kvstore_t \<Rightarrow> string \<Rightarrow> string \<Rightarrow> string \<Rightarrow> turn list \<Rightarrow> put_thread \<times> put_thread \<times> fs
     \<Rightarrow> (put_thread \<times> put_thread \<times> fs) option" where
  "put_two store key v w [] s = Some s"
| "put_two store key v w (First # ts) (th1, th2, fs) =
     do { (th1, fs) \<leftarrow> put_step store key v th1 fs; put_two store key v w ts (th1, th2, fs) }"
| "put_two store key v w (Second # ts) (th1, th2, fs) =
     do { (th2, fs) \<leftarrow> put_step store key w th2 fs; put_two store key v w ts (th1, th2, fs) }"

lemma put_alone:
  "put_run store key value 3 (PutChecks, fs) =
     do { (ret, fs') \<leftarrow> kvstore_put fs store key value; Some (PutReturned ret, fs') }"
proof -
  have three: "(3 :: nat) = Suc (Suc (Suc 0))" by simp
  show ?thesis unfolding three
    by (auto simp: put_step_def kvstore_put_def Let_def case_prod_beta split: bind_splits)
qed

lemma put_two_first:
  "put_run store key v n (th1, fs) = Some (th1', fs') \<Longrightarrow>
   put_two store key v w (replicate n First @ ts) (th1, th2, fs) = put_two store key v w ts (th1', th2, fs')"
  by (induction n arbitrary: th1 fs) (auto split: bind_splits)

lemma put_two_second:
  "put_run store key w n (th2, fs) = Some (th2', fs') \<Longrightarrow>
   put_two store key v w (replicate n Second @ ts) (th1, th2, fs) = put_two store key v w ts (th1, th2', fs')"
  by (induction n arbitrary: th2 fs) (auto split: bind_splits)

subsection \<open>A key that is there twice\<close>

lemma put_locked_appends:
  assumes rel: "kv_rel fs (store_dirname store) m"
    and ch: "chain fs (store_dirname store) (strhash64 k) es"
    and p: "p = entry_path (store_dirname store) (strhash64 k) (length es)"
  shows "kvstore_put_locked fs store k v ERRNOKEY = Some (0, fs\<lparr>fs_files := (fs_files fs)
       (p \<mapsto> written_file fs p (kventry_bytes k v))\<rparr>) \<and> fs_files fs p = None"
proof -
  have new: "fs_files fs p = None" "fs_dirs fs p = None" using ch p by (auto simp: chain_def)
  then obtain fs1 where fs1: "fs_fopen_w fs p = Some fs1"
    using kv_rel_dir_writable [OF rel] p by (auto simp: fs_fopen_w_def)
  have "chain_end fs (store_dirname store) (strhash64 k) 0 = Some (length es)"
    using chain_end_chain [OF ch] by simp
  then show ?thesis
    using fs1 fopen_w_write [OF fs1] new p
    by (simp add: kvstore_put_locked_def ERRNOKEY_def Let_def)
qed

text \<open>A search that ends at a position does not depend on the files behind it.\<close>

lemma find_entry_agrees:
  assumes same: "\<forall>j \<le> i. fs_files fs' (entry_path d h j) = fs_files fs (entry_path d h j)"
    "fs_dirs fs' = fs_dirs fs" "fs_root fs' = fs_root fs"
    and ch: "chain fs d h es" "key_pos key es i" and c: "c \<le> i"
  shows "find_entry_loop fs' d h key want c = find_entry_loop fs d h key want c"
  using c
proof (induction "i - c" arbitrary: c)
  have "file_readable fs' = file_readable fs" using same(3) by (simp add: fun_eq_iff file_readable_def)
  then have open_read: "fs_open_read fs' p = fs_open_read fs p" if "fs_files fs' p = fs_files fs p" for p
    using that by (simp add: fs_open_read_def split: option.split)
  have stat: "fs_stat fs' p = fs_stat fs p" if "fs_files fs' p = fs_files fs p" for p
    using that same(2) by (simp add: fs_stat_def)
  {
    case 0
    then have c: "c = i" by simp
    moreover have "key_pos key es c" using ch(2) c by simp
    ultimately show ?case
      using same(1) chain_read [OF ch(1), of c] chain_entry_ok [OF ch(1), of c]
      by (subst (1 2) find_entry_loop.simps)
        (auto simp: key_pos_def entry_ok_def stat open_read)
  next
    case (Suc n)
    then have next_round: "find_entry_loop fs' d h key want (c + 1) = find_entry_loop fs d h key want (c + 1)"
      by simp
    have "fs_stat fs' (entry_path d h c) = fs_stat fs (entry_path d h c)"
      "fs_open_read fs' (entry_path d h c) = fs_open_read fs (entry_path d h c)"
      using same(1) Suc.hyps Suc.prems by (simp_all add: stat open_read)
    with next_round show ?case by (subst (1 2) find_entry_loop.simps) (simp only:)
  }
qed

text \<open>Two entries of a new key at the end of a chain: a get reads the first, and deleting the key
  takes that one away.\<close>

lemma twin_entries:
  assumes rel: "kv_rel fs (store_dirname store) m" and ok: "entry_ok k v" "entry_ok k w"
    and ch: "chain fs (store_dirname store) (strhash64 k) es" and new: "k \<notin> fst ` set es"
    and p: "p = entry_path (store_dirname store) (strhash64 k) (length es)"
    and q: "q = entry_path (store_dirname store) (strhash64 k) (length es + 1)"
    and f: "fcontents f = kventry_bytes k v" "file_readable fs f" "file_writable fs f"
    and g: "fcontents g = kventry_bytes k w" "file_readable fs g" "file_writable fs g"
    and fs2: "fs2 = fs\<lparr>fs_files := (fs_files fs)(p \<mapsto> f, q \<mapsto> g)\<rparr>"
  shows "kvstore_get fs2 store k = Some (0, Some v)
     \<and> (\<exists>fs3. kvstore_del fs2 store k = Some (0, fs3) \<and> kv_rel fs3 (store_dirname store) (m(k \<mapsto> w)))"
proof -
  let ?d = "store_dirname store" and ?h = "strhash64 k" and ?n = "length es"
  let ?fs1 = "fs\<lparr>fs_files := (fs_files fs)(p \<mapsto> f)\<rparr>"
  have len: "length k \<le> MAX_KEYLEN" using ok(1) by (simp add: entry_ok_def)
  have pq: "p \<noteq> q" using p q by simp
  have ch1: "chain ?fs1 ?d ?h (es @ [(k, v)])"
    using chain_write [OF ch le_refl ok(1) refl _ _ f] new p by simp
  have pos: "key_pos k (es @ [(k, v)]) ?n" by (simp add: key_pos_def)
  have "find_entry_loop fs2 ?d ?h k want 0 = find_entry_loop ?fs1 ?d ?h k want 0" for want
    by (rule find_entry_agrees [OF _ _ _ ch1 pos]) (use p q in \<open>simp_all add: fs2\<close>)
  then have loop: "find_entry_loop fs2 ?d ?h k want 0 = Some (int ?n, if want then Some v else None)" for want
    using find_entry_hit [OF ch1 pos, of 0 want] by simp
  have "fs_stat fs2 ?d" using kv_rel_stat [OF rel] p q by (auto simp: fs2 fs_stat_def)
  then have find: "find_entry fs2 store k want = Some (int ?n, if want then Some v else None)" for want
    using loop len by (simp add: find_entry_def)
  have get: "kvstore_get fs2 store k = Some (0, Some v)" using find by (simp add: kvstore_get_def)
  have "\<not> fs_stat fs2 (entry_path ?d ?h (?n + 2))"
    using ch p q by (simp add: fs2 chain_def fs_stat_def)
  moreover have "fs_stat fs2 q" by (simp add: fs2 fs_stat_def)
  ultimately have stop: "chain_end fs2 ?d ?h (?n + 1) = Some (?n + 2)"
    using q by (subst chain_end.simps, simp, subst chain_end.simps) simp
  let ?fs3 = "fs\<lparr>fs_files := (fs_files fs)(p \<mapsto> g)\<rparr>"
  have "fs_files fs q = None" using ch q by (simp add: chain_def)
  then have "(fs_files fs2)(q := None, p \<mapsto> g) = (fs_files fs)(p \<mapsto> g)"
    using pq by (auto simp: fs2 fun_eq_iff)
  moreover have "dir_writable fs2 p" "dir_writable fs2 q"
    using kv_rel_dir_writable [OF rel] p q by (simp_all add: fs2)
  ultimately have "fs_rename fs2 q p = Inr ?fs3" by (simp add: fs_rename_def fs2)
  then have "kvstore_del fs2 store k = Some (0, ?fs3)"
    using find stop p q by (simp add: kvstore_del_def Let_def nat_add_distrib)
  moreover have "kv_rel ?fs3 ?d (m(k \<mapsto> w))"
    unfolding p by (rule kv_rel_write [OF rel ch le_refl ok(2) _ _ g]) (simp_all add: new)
  ultimately show ?thesis using get by blast
qed

subsection \<open>Property\<close>

text \<open>C18: \<open>kvstore_put\<close> looks the key up before it takes the write lock. One put after the other
  leaves the second value. Two threads that put the same new key can run so that both return 0 and
  the chain holds the key twice, in its last two files: a get then answers the first value, and
  when the key is deleted the store has the second one.\<close>

theorem store_put_race:
  assumes "kv_rel fs (store_dirname store) m" "m k = None" "entry_ok k v" "entry_ok k w"
  shows "(\<exists>fs1 fs2. kvstore_put fs store k v = Some (0, fs1) \<and> kvstore_put fs1 store k w = Some (0, fs2)
       \<and> kv_rel fs2 (store_dirname store) (m(k \<mapsto> w)))
   \<and> (\<exists>turns fs2 n f g. put_two store k v w turns (PutChecks, PutChecks, fs) = Some (PutReturned 0, PutReturned 0, fs2)
       \<and> fs_files fs2 (entry_path (store_dirname store) (strhash64 k) n) = Some f \<and> fcontents f = kventry_bytes k v
       \<and> fs_files fs2 (entry_path (store_dirname store) (strhash64 k) (n + 1)) = Some g \<and> fcontents g = kventry_bytes k w
       \<and> kvstore_get fs2 store k = Some (0, Some v)
       \<and> (\<exists>fs3. kvstore_del fs2 store k = Some (0, fs3) \<and> kv_rel fs3 (store_dirname store) (m(k \<mapsto> w))))"
proof
  show "\<exists>fs1 fs2. kvstore_put fs store k v = Some (0, fs1) \<and> kvstore_put fs1 store k w = Some (0, fs2)
      \<and> kv_rel fs2 (store_dirname store) (m(k \<mapsto> w))"
    using kvstore_put_spec [OF assms(1,3)] kvstore_put_spec [OF _ assms(4)] by (metis fun_upd_upd)
next
  let ?d = "store_dirname store" and ?h = "strhash64 k"
  have len: "length k \<le> MAX_KEYLEN" "length v \<le> MAX_VALLEN" "length w \<le> MAX_VALLEN"
    using assms(3,4) by (simp_all add: entry_ok_def)
  from find_entry_absent [OF assms(1) len(1) assms(2)] obtain es where ch: "chain fs ?d ?h es"
    and none: "\<forall>i. \<not> key_pos k es i" and fe: "\<forall>want. find_entry fs store k want = Some (ERRNOKEY, None)" by blast
  have miss: "k \<notin> fst ` set es" using none by (metis map_of_None_key_pos map_of_eq_None_iff)
  let ?p = "entry_path ?d ?h (length es)" and ?q = "entry_path ?d ?h (length es + 1)"
  let ?f = "written_file fs ?p (kventry_bytes k v)"
  let ?fs1 = "fs\<lparr>fs_files := (fs_files fs)(?p \<mapsto> ?f)\<rparr>"
  have one: "kvstore_put_locked fs store k v ERRNOKEY = Some (0, ?fs1)" "fs_files fs ?p = None"
    using put_locked_appends [OF assms(1) ch refl] by blast+
  have f: "file_readable fs ?f" "file_writable fs ?f"
    using one(2) by (simp_all add: written_file_def file_readable_def file_writable_def)
  have rel1: "kv_rel ?fs1 ?d (m(k \<mapsto> v))"
    by (rule kv_rel_write [OF assms(1) ch le_refl assms(3) _ _ _ f]) (simp_all add: miss)
  have ch1: "chain ?fs1 ?d ?h (es @ [(k, v)])"
    using chain_write [OF ch le_refl assms(3) refl _ _ _ f] miss by simp
  let ?g = "written_file ?fs1 ?q (kventry_bytes k w)"
  let ?fs2 = "?fs1\<lparr>fs_files := (fs_files ?fs1)(?q \<mapsto> ?g)\<rparr>"
  have two: "kvstore_put_locked ?fs1 store k w ERRNOKEY = Some (0, ?fs2)" "fs_files ?fs1 ?q = None"
    using put_locked_appends [OF rel1 ch1, of ?q w] by simp_all
  have g: "file_readable fs ?g" "file_writable fs ?g"
    using two(2) by (simp_all add: written_file_def file_readable_def file_writable_def)
  have check: "kvstore_put_check fs store k v = 0" "kvstore_put_check fs store k w = 0"
    using len kv_rel_stat [OF assms(1)] by (simp_all add: kvstore_put_check_def)
  have "put_two store k v w [First, Second, First, Second, First, Second] (PutChecks, PutChecks, fs)
      = Some (PutReturned 0, PutReturned 0, ?fs2)"
    using check fe one(1) two(1) by (simp add: put_step_def)
  moreover have "?fs2 = fs\<lparr>fs_files := (fs_files fs)(?p \<mapsto> ?f, ?q \<mapsto> ?g)\<rparr>" by simp
  note twin_entries [OF assms(1,3,4) ch miss refl refl _ f _ g this]
  moreover have "fs_files ?fs2 ?p = Some ?f" "fs_files ?fs2 ?q = Some ?g" by simp_all
  ultimately show "\<exists>turns fs2 n f g. put_two store k v w turns (PutChecks, PutChecks, fs) = Some (PutReturned 0, PutReturned 0, fs2)
       \<and> fs_files fs2 (entry_path ?d ?h n) = Some f \<and> fcontents f = kventry_bytes k v
       \<and> fs_files fs2 (entry_path ?d ?h (n + 1)) = Some g \<and> fcontents g = kventry_bytes k w
       \<and> kvstore_get fs2 store k = Some (0, Some v)
       \<and> (\<exists>fs3. kvstore_del fs2 store k = Some (0, fs3) \<and> kv_rel fs3 ?d (m(k \<mapsto> w)))"
    by (metis fcontents_written_file)
qed

theorem store_put_race_witness:
  "\<exists>turns fs2. put_two store0 ''k'' ''v'' ''w'' turns (PutChecks, PutChecks, fs0)
       = Some (PutReturned 0, PutReturned 0, fs2)
     \<and> kvstore_get fs2 store0 ''k'' = Some (0, Some ''v'')
     \<and> (\<exists>fs3. kvstore_del fs2 store0 ''k'' = Some (0, fs3) \<and> kv_rel fs3 ''d'' [''k'' \<mapsto> ''w''])"
proof -
  have rel: "kv_rel fs0 (store_dirname store0) Map.empty" using fs0_store by (simp add: store0_def)
  have "entry_ok ''k'' ''v''" "entry_ok ''k'' ''w''"
    by (simp_all add: entry_ok_def NUL_def MAX_KEYLEN_def MAX_VALLEN_def)
  from store_put_race [OF rel _ this] show ?thesis by (auto simp: store0_def)
qed

end
