(* ===== verification/KVMemory.thy ===== *)
theory KVMemory
  imports KVMessage "HOL-Library.Multiset"
begin

text \<open>
  The memory behind the messages of hw4: which \<open>malloc\<close> a string or a struct comes from, who owns
  its address, and which \<open>free\<close> gives it back (hw4/src/liburl.c, hw4/src/libhttp.c). The functions
  are those of \<open>LibURL\<close> and \<open>LibHTTP\<close> once more, now with every \<open>malloc\<close>, \<open>calloc\<close> and \<open>free\<close>
  they make; what they compute is taken from there, and the lemmas show that the structs in memory
  stand for it.

  A block that is not live has no contents: loading, storing or freeing it is undefined (\<open>None\<close>),
  so a double \<open>free\<close> or a use after \<open>free\<close> has no result. An address is given out once only.
\<close>

subsection \<open>Memory\<close>

type_synonym ptr = "nat option"

text \<open>What \<open>malloc\<close> is called for: a string, or one of the structs with its pointers.\<close>

datatype block =
    Chars string
  | HttpRequest ptr ptr
  | HttpResponse int ptr
  | UrlParams ptr ptr ptr
  | KVRequest msgtype_t ptr ptr
  | KVResponse msgtype_t ptr
  | Outbound int ptr

record memory =
  mem_blocks :: "nat \<rightharpoonup> block"
  mem_next :: nat

definition malloc :: "block \<Rightarrow> memory \<Rightarrow> nat \<times> memory" where
  "malloc b m = (mem_next m, m\<lparr>mem_blocks := (mem_blocks m)(mem_next m \<mapsto> b), mem_next := mem_next m + 1\<rparr>)"

definition mem_free :: "ptr \<Rightarrow> memory \<Rightarrow> memory option" where
  "mem_free p m =
     (case p of
        None \<Rightarrow> Some m
      | Some a \<Rightarrow>
          if mem_blocks m a = None then None
          else Some (m\<lparr>mem_blocks := (mem_blocks m)(a := None)\<rparr>))"

definition mem_load :: "ptr \<Rightarrow> memory \<Rightarrow> block option" where
  "mem_load p m = do { a \<leftarrow> p; mem_blocks m a }"

definition mem_store :: "ptr \<Rightarrow> block \<Rightarrow> memory \<Rightarrow> memory option" where
  "mem_store p b m =
     do { a \<leftarrow> p;
          _ \<leftarrow> mem_blocks m a;
          Some (m\<lparr>mem_blocks := (mem_blocks m)(a \<mapsto> b)\<rparr>) }"

definition load_chars :: "ptr \<Rightarrow> memory \<Rightarrow> string option" where
  "load_chars p m = do { b \<leftarrow> mem_load p m; case b of Chars s \<Rightarrow> Some s | _ \<Rightarrow> None }"

subsection \<open>What is live\<close>

text \<open>
  \<open>owns m0 m bs n\<close>: since the memory was \<open>m0\<close>, the blocks \<open>bs\<close> have been added, and \<open>n\<close> more
  that nobody holds; the blocks of \<open>m0\<close> are as they were.
\<close>

definition mem_ok :: "memory \<Rightarrow> bool" where
  "mem_ok m \<longleftrightarrow> (\<forall>a \<ge> mem_next m. mem_blocks m a = None)"

definition owns :: "memory \<Rightarrow> memory \<Rightarrow> (nat \<times> block) list \<Rightarrow> nat \<Rightarrow> bool" where
  "owns m0 m bs n \<longleftrightarrow>
     mem_ok m \<and> mem_next m0 \<le> mem_next m
     \<and> (\<forall>a < mem_next m0. mem_blocks m a = mem_blocks m0 a)
     \<and> (\<exists>ls. length ls = n \<and> distinct (map fst (bs @ ls)) \<and> (\<forall>x \<in> set (bs @ ls). mem_next m0 \<le> fst x)
          \<and> (\<forall>a \<ge> mem_next m0. mem_blocks m a = map_of (bs @ ls) a))"

lemma owns_refl: "mem_ok m \<Longrightarrow> owns m m [] 0"
  by (simp add: owns_def mem_ok_def)

lemma owns_perm:
  assumes "owns m0 m bs n" "mset bs = mset cs"
  shows "owns m0 m cs n"
proof -
  obtain ls where ls: "length ls = n" "distinct (map fst (bs @ ls))" "\<forall>x \<in> set (bs @ ls). mem_next m0 \<le> fst x"
    "\<forall>a \<ge> mem_next m0. mem_blocks m a = map_of (bs @ ls) a"
    using assms(1) by (auto simp: owns_def)
  have m: "mset (bs @ ls) = mset (cs @ ls)" using assms(2) by simp
  then have s: "set (bs @ ls) = set (cs @ ls)" by (rule mset_eq_setD)
  have "mset (map fst (bs @ ls)) = mset (map fst (cs @ ls))" using m by (metis mset_map)
  then have d: "distinct (map fst (cs @ ls))" using ls(2) mset_eq_imp_distinct_iff by blast
  then have "map_of (bs @ ls) = map_of (cs @ ls)" using map_of_inject_set [OF ls(2) d] s by blast
  then have "\<exists>ls. length ls = n \<and> distinct (map fst (cs @ ls)) \<and> (\<forall>x \<in> set (cs @ ls). mem_next m0 \<le> fst x)
      \<and> (\<forall>a \<ge> mem_next m0. mem_blocks m a = map_of (cs @ ls) a)"
    using ls d s by (intro exI [of _ ls]) metis
  then show ?thesis using assms(1) by (simp add: owns_def)
qed

lemma owns_malloc:
  assumes "owns m0 m bs n" "malloc b m = (a, m')"
  shows "owns m0 m' ((a, b) # bs) n"
proof -
  obtain ls where ls: "length ls = n" "distinct (map fst (bs @ ls))" "\<forall>x \<in> set (bs @ ls). mem_next m0 \<le> fst x"
    "\<forall>a \<ge> mem_next m0. mem_blocks m a = map_of (bs @ ls) a"
    using assms(1) by (auto simp: owns_def)
  have ok: "mem_ok m" "mem_next m0 \<le> mem_next m" "\<forall>a < mem_next m0. mem_blocks m a = mem_blocks m0 a"
    using assms(1) by (auto simp: owns_def)
  have "map_of (bs @ ls) (mem_next m) = None" using ls(4) ok by (simp add: mem_ok_def)
  then have "mem_next m \<notin> fst ` set (bs @ ls)" by (simp only: map_of_eq_None_iff not_False_eq_True)
  then have "length ls = n \<and> distinct (map fst (((a, b) # bs) @ ls)) \<and> (\<forall>x \<in> set (((a, b) # bs) @ ls). mem_next m0 \<le> fst x)
      \<and> (\<forall>a' \<ge> mem_next m0. mem_blocks m' a' = map_of (((a, b) # bs) @ ls) a')"
    using assms(2) ls ok(2) by (auto simp: malloc_def)
  moreover have "mem_ok m'" "mem_next m0 \<le> mem_next m'" "\<forall>a < mem_next m0. mem_blocks m' a = mem_blocks m0 a"
    using assms(2) ok by (auto simp: malloc_def mem_ok_def)
  ultimately show ?thesis unfolding owns_def by blast
qed

lemma owns_block:
  assumes "owns m0 m ((a, b) # bs) n"
  shows "mem_blocks m a = Some b"
  using assms by (auto simp: owns_def)

lemma owns_load: "owns m0 m ((a, b) # bs) n \<Longrightarrow> mem_load (Some a) m = Some b"
  by (simp add: mem_load_def owns_block)

lemma owns_chars: "owns m0 m ((a, Chars s) # bs) n \<Longrightarrow> load_chars (Some a) m = Some s"
  by (simp add: load_chars_def owns_load)

lemma owns_free:
  assumes "owns m0 m ((a, b) # bs) n"
  shows "\<exists>m'. mem_free (Some a) m = Some m' \<and> owns m0 m' bs n"
proof -
  let ?m = "m\<lparr>mem_blocks := (mem_blocks m)(a := None)\<rparr>"
  obtain ls where ls: "length ls = n" "distinct (map fst (((a, b) # bs) @ ls))"
    "\<forall>x \<in> set (((a, b) # bs) @ ls). mem_next m0 \<le> fst x"
    "\<forall>a' \<ge> mem_next m0. mem_blocks m a' = map_of (((a, b) # bs) @ ls) a'"
    using assms by (auto simp: owns_def)
  have "a \<notin> fst ` set (bs @ ls)" using ls(2) by auto
  then have "map_of (bs @ ls) a = None" by (simp only: map_of_eq_None_iff not_False_eq_True)
  then have "mem_blocks ?m a' = map_of (bs @ ls) a'" if "mem_next m0 \<le> a'" for a'
    using ls(4) that by (cases "a' = a") (simp_all del: map_of_append)
  moreover have "distinct (map fst (bs @ ls))" "\<forall>x \<in> set (bs @ ls). mem_next m0 \<le> fst x" using ls(2,3) by auto
  moreover have "mem_ok ?m" "mem_next m0 \<le> mem_next ?m" "\<forall>a' < mem_next m0. mem_blocks ?m a' = mem_blocks m0 a'"
    using assms ls(3) by (auto simp: owns_def mem_ok_def)
  ultimately have "owns m0 ?m bs n" using ls(1) unfolding owns_def by blast
  then show ?thesis using owns_block [OF assms] by (simp add: mem_free_def)
qed

lemma owns_store:
  assumes "owns m0 m ((a, b) # bs) n"
  shows "\<exists>m'. mem_store (Some a) b' m = Some m' \<and> owns m0 m' ((a, b') # bs) n"
proof -
  let ?m = "m\<lparr>mem_blocks := (mem_blocks m)(a \<mapsto> b')\<rparr>"
  obtain ls where ls: "length ls = n" "distinct (map fst (((a, b) # bs) @ ls))"
    "\<forall>x \<in> set (((a, b) # bs) @ ls). mem_next m0 \<le> fst x"
    "\<forall>a' \<ge> mem_next m0. mem_blocks m a' = map_of (((a, b) # bs) @ ls) a'"
    using assms by (auto simp: owns_def)
  have ok: "mem_ok m" "mem_next m0 \<le> mem_next m" "\<forall>a < mem_next m0. mem_blocks m a = mem_blocks m0 a"
    using assms by (auto simp: owns_def)
  have "a < mem_next m" 
    using owns_block [OF assms] ok(1) by (cases "mem_next m \<le> a") (auto simp: mem_ok_def)
  then have "mem_ok ?m" using ok(1) by (auto simp: mem_ok_def)
  moreover have "length ls = n \<and> distinct (map fst (((a, b') # bs) @ ls))
      \<and> (\<forall>x \<in> set (((a, b') # bs) @ ls). mem_next m0 \<le> fst x)
      \<and> (\<forall>a' \<ge> mem_next m0. mem_blocks ?m a' = map_of (((a, b') # bs) @ ls) a')"
    using ls by auto
  moreover have "\<forall>a < mem_next m0. mem_blocks ?m a = mem_blocks m0 a" using ok(3) ls(3) by auto
  ultimately have "owns m0 ?m ((a, b') # bs) n" using ok(2) unfolding owns_def by auto
  then show ?thesis using owns_block [OF assms] by (simp add: mem_store_def)
qed

lemma owns_drop:
  assumes "owns m0 m ((a, b) # bs) n"
  shows "owns m0 m bs (Suc n)"
proof -
  obtain ls where ls: "length ls = n" "distinct (map fst (((a, b) # bs) @ ls))"
    "\<forall>x \<in> set (((a, b) # bs) @ ls). mem_next m0 \<le> fst x"
    "\<forall>a' \<ge> mem_next m0. mem_blocks m a' = map_of (((a, b) # bs) @ ls) a'"
    using assms by (auto simp: owns_def)
  have d: "distinct (map fst (bs @ (a, b) # ls))" using ls(2) by auto
  have "map_of (bs @ (a, b) # ls) = map_of (((a, b) # bs) @ ls)"
    using map_of_inject_set [OF d ls(2)] by auto
  then have "\<exists>ls. length ls = Suc n \<and> distinct (map fst (bs @ ls)) \<and> (\<forall>x \<in> set (bs @ ls). mem_next m0 \<le> fst x)
      \<and> (\<forall>a' \<ge> mem_next m0. mem_blocks m a' = map_of (bs @ ls) a')"
    using ls d by (intro exI [of _ "(a, b) # ls"]) auto
  then show ?thesis using assms by (simp add: owns_def)
qed

text \<open>When nothing is held any more, memory is as it was, but for the \<open>n\<close> blocks nobody holds.\<close>

definition leaked :: "memory \<Rightarrow> memory \<Rightarrow> nat \<Rightarrow> bool" where
  "leaked m0 m n \<longleftrightarrow>
     (\<forall>a. mem_blocks m0 a \<noteq> None \<longrightarrow> mem_blocks m a = mem_blocks m0 a)
     \<and> finite (dom (mem_blocks m) - dom (mem_blocks m0))
     \<and> card (dom (mem_blocks m) - dom (mem_blocks m0)) = n"

lemma owns_nothing:
  assumes "mem_ok m0" "owns m0 m [] n"
  shows "leaked m0 m n"
proof -
  obtain ls where ls: "length ls = n" "distinct (map fst ls)" "\<forall>x \<in> set ls. mem_next m0 \<le> fst x"
    "\<forall>a \<ge> mem_next m0. mem_blocks m a = map_of ls a"
    using assms(2) by (auto simp: owns_def)
  have old: "\<forall>a < mem_next m0. mem_blocks m a = mem_blocks m0 a" using assms(2) by (simp add: owns_def)
  have none: "mem_blocks m0 a = None" if "mem_next m0 \<le> a" for a using assms(1) that by (simp add: mem_ok_def)
  have "dom (mem_blocks m) - dom (mem_blocks m0) = fst ` set ls"
  proof (intro set_eqI iffI)
    fix a assume "a \<in> dom (mem_blocks m) - dom (mem_blocks m0)"
    then have a: "mem_blocks m a \<noteq> None" "mem_blocks m0 a = None" by auto
    then have "mem_next m0 \<le> a" using old by (cases "mem_next m0 \<le> a") auto
    then have "map_of ls a \<noteq> None" using ls(4) a(1) by auto
    then show "a \<in> fst ` set ls" by (simp only: map_of_eq_None_iff not_not)
  next
    fix a assume "a \<in> fst ` set ls"
    then have "mem_next m0 \<le> a" using ls(3) by auto
    moreover from \<open>a \<in> fst ` set ls\<close> have "map_of ls a \<noteq> None" by (simp only: map_of_eq_None_iff not_not)
    ultimately show "a \<in> dom (mem_blocks m) - dom (mem_blocks m0)" using ls(4) none by auto
  qed
  moreover have "card (fst ` set ls) = n" using ls(1) distinct_card [OF ls(2)] by simp
  moreover have "mem_blocks m a = mem_blocks m0 a" if "mem_blocks m0 a \<noteq> None" for a
    using that old none [of a] by (cases "a < mem_next m0") auto
  ultimately show ?thesis by (simp add: leaked_def)
qed

lemma leaked_0: "leaked m0 m 0 \<Longrightarrow> mem_blocks m = mem_blocks m0"
proof
  fix a assume l: "leaked m0 m 0"
  show "mem_blocks m a = mem_blocks m0 a"
  proof (cases "mem_blocks m0 a")
    case None
    moreover have "dom (mem_blocks m) - dom (mem_blocks m0) = {}"
      using l card_0_eq [of "dom (mem_blocks m) - dom (mem_blocks m0)"] by (auto simp: leaked_def)
    ultimately show ?thesis by (auto simp: domIff)
  qed (use l in \<open>simp add: leaked_def\<close>)
qed

subsection \<open>Parameters of a URL\<close>

text \<open>\<open>*struct_param_ptr = param_value\<close>: the pointer that was there is overwritten.\<close>

definition store_param :: "param \<Rightarrow> ptr \<Rightarrow> ptr \<Rightarrow> memory \<Rightarrow> memory option" where
  "store_param f v params m =
     do { b \<leftarrow> mem_load params m;
          case b of
            UrlParams path key val \<Rightarrow>
              mem_store params (case f of KeyParam \<Rightarrow> UrlParams path v val | ValParam \<Rightarrow> UrlParams path key v) m
          | _ \<Rightarrow> None }"

function param_loop_mem :: "string \<Rightarrow> ptr \<Rightarrow> memory \<Rightarrow> memory option" where
  "param_loop_mem url params m =
     (case strchr url CHR ''='' of
        None \<Rightarrow> Some m
      | Some key_end \<Rightarrow>
          let read_end = (case strchr url CHR ''&'' of None \<Rightarrow> length url | Some n \<Rightarrow> n)
          in do { m' \<leftarrow> (case param_ptr url key_end of
                      None \<Rightarrow> Some m
                    | Some f \<Rightarrow>
                        let (param_value, m1) =
                          malloc (Chars (take (read_end - key_end - 1) (drop (key_end + 1) url))) m
                        in store_param f (Some param_value) params m1);
                  if read_end = length url then Some m'
                  else param_loop_mem (drop (read_end + 1) url) params m' })"
  by pat_completeness auto
termination
  by (relation "measure (length \<circ> fst)") (auto dest!: strchr_SomeD(1) split: option.splits)

declare param_loop_mem.simps [simp del]

definition url_decode_mem :: "string \<Rightarrow> memory \<Rightarrow> (ptr \<times> memory) option" where
  "url_decode_mem url m =
     (let (params, m) = malloc (UrlParams None None None) m in
      case strchr url CHR ''?'' of
        None \<Rightarrow>
          if 1 < length url
          then let (path, m) = malloc (Chars (drop 1 url)) m
               in do { m \<leftarrow> mem_store (Some params) (UrlParams (Some path) None None) m; Some (Some params, m) }
          else Some (Some params, m)
      | Some pathlen \<Rightarrow>
          do { m \<leftarrow> (if 1 < pathlen
                  then let (path, m) = malloc (Chars (drop 1 (take pathlen url))) m
                       in mem_store (Some params) (UrlParams (Some path) None None) m
                  else Some m);
               m \<leftarrow> param_loop_mem (drop (pathlen + 1) url) (Some params) m;
               Some (Some params, m) })"

definition url_params_free :: "ptr \<Rightarrow> memory \<Rightarrow> memory option" where
  "url_params_free params m =
     (if params = None then Some m
      else do {
        b \<leftarrow> mem_load params m;
        case b of
          UrlParams path key val \<Rightarrow>
            do { m \<leftarrow> (if path = None then Some m else mem_free path m);
                 m \<leftarrow> (if key = None then Some m else mem_free key m);
                 m \<leftarrow> (if val = None then Some m else mem_free val m);
                 mem_free params m }
        | _ \<Rightarrow> None })"

subsection \<open>Requests and responses of HTTP\<close>

definition http_request_free :: "ptr \<Rightarrow> memory \<Rightarrow> memory option" where
  "http_request_free req m =
     (if req = None then Some m
      else do {
        b \<leftarrow> mem_load req m;
        case b of
          HttpRequest method path \<Rightarrow>
            do { m \<leftarrow> (if method = None then Some m else mem_free method m);
                 m \<leftarrow> (if path = None then Some m else mem_free path m);
                 mem_free req m }
        | _ \<Rightarrow> None })"

text \<open>\<open>goto error\<close>.\<close>

definition request_error :: "ptr \<Rightarrow> memory \<Rightarrow> (ptr \<times> memory) option" where
  "request_error req m = do { m \<leftarrow> http_request_free req m; Some (None, m) }"

definition http_request_parse_mem :: "string \<Rightarrow> memory \<Rightarrow> (ptr \<times> memory) option" where
  "http_request_parse_mem bytes m =
     (let (req, m) = malloc (HttpRequest None None) m in
      if bytes = [] then request_error (Some req) m
      else let buf = read_string bytes in
        case strchr buf CHR '' '' of
          None \<Rightarrow> request_error (Some req) m
        | Some n \<Rightarrow>
            if \<not> http_is_valid_method buf n then request_error (Some req) m
            else let (method, m) = malloc (Chars (take n buf)) m in
              do {
                m \<leftarrow> mem_store (Some req) (HttpRequest (Some method) None) m;
                case drop (n + 1) buf of
                  [] \<Rightarrow> request_error (Some req) m
                | c # r \<Rightarrow>
                    if c \<noteq> CHR ''/'' then request_error (Some req) m
                    else (case path_scan r of
                        None \<Rightarrow> request_error (Some req) m
                      | Some k \<Rightarrow>
                          let (path, m) = malloc (Chars (c # take k r)) m in
                          do { m \<leftarrow> mem_store (Some req) (HttpRequest (Some method) (Some path)) m;
                               Some (Some req, m) }) })"

definition http_response_free :: "ptr \<Rightarrow> memory \<Rightarrow> memory option" where
  "http_response_free res m =
     (if res = None then Some m
      else do {
        b \<leftarrow> mem_load res m;
        case b of
          HttpResponse status body \<Rightarrow>
            do { m \<leftarrow> (if body = None then Some m else mem_free body m); mem_free res m }
        | _ \<Rightarrow> None })"

text \<open>The body is allocated when nothing can fail any more; what the fields are comes from
  \<open>http_response_parse\<close>.\<close>

definition http_response_parse_mem :: "string \<Rightarrow> memory \<Rightarrow> (ptr \<times> memory) option" where
  "http_response_parse_mem bytes m =
     (let (res, m) = malloc (HttpResponse 0 None) m in
      do {
        parsed \<leftarrow> http_response_parse bytes;
        case parsed of
          None \<Rightarrow> do { m \<leftarrow> http_response_free (Some res) m; Some (None, m) }
        | Some r \<Rightarrow>
            let (body, m) = malloc (Chars (http_body r)) m in
            do { m \<leftarrow> mem_store (Some res) (HttpResponse (http_status r) (Some body)) m;
                 Some (Some res, m) } })"

subsection \<open>The blocks of a struct\<close>

text \<open>A string held through a pointer, when there is one.\<close>

definition chars_at :: "ptr \<Rightarrow> string option \<Rightarrow> (nat \<times> block) list" where
  "chars_at p s = (case p of None \<Rightarrow> [] | Some a \<Rightarrow> [(a, Chars (the s))])"

definition agrees :: "ptr \<Rightarrow> string option \<Rightarrow> bool" where
  "agrees p s \<longleftrightarrow> (p = None \<longleftrightarrow> s = None)"

lemma chars_at_simps [simp]: "chars_at None s = []" "chars_at (Some a) s = [(a, Chars (the s))]"
  by (simp_all add: chars_at_def)

lemma agrees_simps [simp]:
  "agrees None None" "agrees (Some a) (Some t)" "agrees p None \<longleftrightarrow> p = None" "agrees None u \<longleftrightarrow> u = None"
  by (auto simp: agrees_def)

lemma owns_front:
  "owns m0 m (xs @ ys @ zs) n \<Longrightarrow> owns m0 m (ys @ xs @ zs) n"
  by (erule owns_perm) simp

lemma free_chars_at:
  assumes "owns m0 m (chars_at p s @ bs) n"
  shows "\<exists>m'. (if p = None then Some m else mem_free p m) = Some m' \<and> owns m0 m' bs n"
  using assms owns_free [of m0 m _ _ bs n] by (cases p) auto

text \<open>A struct and two strings are freed as \<open>http_request_free\<close> and \<open>kvrequest_free\<close> do it.\<close>

lemma free_struct2:
  assumes "owns m0 m ((a, b) # chars_at p s @ chars_at q t @ bs) n"
  shows "\<exists>m'. do { m \<leftarrow> (if p = None then Some m else mem_free p m);
                   m \<leftarrow> (if q = None then Some m else mem_free q m);
                   mem_free (Some a) m } = Some m' \<and> owns m0 m' bs n"
proof -
  have "owns m0 m (chars_at p s @ chars_at q t @ (a, b) # bs) n" by (rule owns_perm [OF assms]) simp
  from free_chars_at [OF this] obtain m1 where 1: "(if p = None then Some m else mem_free p m) = Some m1"
    "owns m0 m1 (chars_at q t @ (a, b) # bs) n" by blast
  from free_chars_at [OF 1(2)] obtain m2 where 2: "(if q = None then Some m1 else mem_free q m1) = Some m2"
    "owns m0 m2 ((a, b) # bs) n" by blast
  from owns_free [OF 2(2)] 1(1) 2(1) show ?thesis by auto
qed

lemma free_struct1:
  assumes "owns m0 m ((a, b) # chars_at p s @ bs) n"
  shows "\<exists>m'. do { m \<leftarrow> (if p = None then Some m else mem_free p m); mem_free (Some a) m } = Some m'
     \<and> owns m0 m' bs n"
  using free_struct2 [of m0 m a b None None p s bs n] assms by simp

lemma http_request_free_spec:
  assumes "owns m0 m ((a, HttpRequest p q) # chars_at p s @ chars_at q t @ bs) n"
  shows "\<exists>m'. http_request_free (Some a) m = Some m' \<and> owns m0 m' bs n"
  using free_struct2 [OF assms] owns_load [OF assms] by (simp add: http_request_free_def)

lemma http_response_free_spec:
  assumes "owns m0 m ((a, HttpResponse c p) # chars_at p s @ bs) n"
  shows "\<exists>m'. http_response_free (Some a) m = Some m' \<and> owns m0 m' bs n"
  using free_struct1 [OF assms] owns_load [OF assms] by (simp add: http_response_free_def)

definition params_blocks :: "nat \<Rightarrow> ptr \<Rightarrow> ptr \<Rightarrow> ptr \<Rightarrow> url_params \<Rightarrow> (nat \<times> block) list" where
  "params_blocks a p k v params =
     (a, UrlParams p k v) # chars_at p (url_path params) @ chars_at k (key_param params) @ chars_at v (val_param params)"

definition params_agree :: "ptr \<Rightarrow> ptr \<Rightarrow> ptr \<Rightarrow> url_params \<Rightarrow> bool" where
  "params_agree p k v params \<longleftrightarrow>
     agrees p (url_path params) \<and> agrees k (key_param params) \<and> agrees v (val_param params)"

lemma url_params_free_spec:
  assumes "owns m0 m (params_blocks a p k v params @ bs) n"
  shows "\<exists>m'. url_params_free (Some a) m = Some m' \<and> owns m0 m' bs n"
proof -
  let ?b = "UrlParams p k v"
  have "owns m0 m (chars_at p (url_path params) @ (a, ?b) # chars_at k (key_param params) @ chars_at v (val_param params) @ bs) n"
    by (rule owns_perm [OF assms]) (simp add: params_blocks_def)
  from free_chars_at [OF this] obtain m1 where "(if p = None then Some m else mem_free p m) = Some m1"
    "owns m0 m1 ((a, ?b) # chars_at k (key_param params) @ chars_at v (val_param params) @ bs) n" by blast
  moreover from free_struct2 [OF this(2)] obtain m2 where
    "do { m \<leftarrow> (if k = None then Some m1 else mem_free k m1);
          m \<leftarrow> (if v = None then Some m else mem_free v m);
          mem_free (Some a) m } = Some m2" "owns m0 m2 bs n" by blast
  moreover have "mem_load (Some a) m = Some ?b"
    using assms owns_load by (auto simp: params_blocks_def)
  ultimately show ?thesis by (simp add: url_params_free_def)
qed

subsection \<open>Receiving into memory\<close>

lemma request_parse_memory:
  assumes "owns m0 m bs n"
  shows "\<exists>p m'. http_request_parse_mem bytes m = Some (p, m')
     \<and> (case http_request_parse bytes of
          None \<Rightarrow> p = None \<and> owns m0 m' bs n
        | Some r \<Rightarrow> \<exists>a x y. p = Some a
            \<and> owns m0 m' ((a, HttpRequest (Some x) (Some y)) # chars_at (Some x) (Some (http_method r))
                 @ chars_at (Some y) (Some (http_path r)) @ bs) n)"
proof -
  obtain a m1 where a: "malloc (HttpRequest None None) m = (a, m1)" by (cases "malloc (HttpRequest None None) m")
  have 1: "owns m0 m1 ((a, HttpRequest None None) # bs) n" by (rule owns_malloc [OF assms a])
  have err1: "\<exists>m'. request_error (Some a) m1 = Some (None, m') \<and> owns m0 m' bs n"
    using http_request_free_spec [of m0 m1 a None None None None bs n] 1 by (auto simp: request_error_def)
  show ?thesis
  proof (cases "bytes = []")
    case True
    then show ?thesis using err1 a by (auto simp: http_request_parse_mem_def http_request_parse_def)
  next
    case False
    note ne = False
    let ?buf = "read_string bytes"
    show ?thesis
    proof (cases "\<exists>l. strchr ?buf CHR '' '' = Some l \<and> http_is_valid_method ?buf l")
      case False
      then show ?thesis using err1 a ne
        by (cases "strchr ?buf CHR '' ''") (auto simp: http_request_parse_mem_def http_request_parse_def Let_def)
    next
      case True
      then obtain l where l: "strchr ?buf CHR '' '' = Some l" "http_is_valid_method ?buf l" by blast
      let ?name = "Chars (take l ?buf)"
      obtain x m2 where x: "malloc ?name m1 = (x, m2)" by (cases "malloc ?name m1")
      have "owns m0 m2 ((a, HttpRequest None None) # (x, ?name) # bs) n"
        by (rule owns_perm [OF owns_malloc [OF 1 x]]) simp
      from owns_store [OF this] obtain m3 where 3: "mem_store (Some a) (HttpRequest (Some x) None) m2 = Some m3"
        "owns m0 m3 ((a, HttpRequest (Some x) None) # (x, ?name) # bs) n" by blast
      have err3: "\<exists>m'. request_error (Some a) m3 = Some (None, m') \<and> owns m0 m' bs n"
        using http_request_free_spec [of m0 m3 a "Some x" None "Some (take l ?buf)" None bs n] 3(2)
        by (auto simp: request_error_def)
      show ?thesis
      proof (cases "\<exists>r k. drop (l + 1) ?buf = CHR ''/'' # r \<and> path_scan r = Some k")
        case False
        then show ?thesis using err3 a ne l x 3(1)
          by (cases "drop (l + 1) ?buf")
            (auto simp: http_request_parse_mem_def http_request_parse_def Let_def split: option.splits)
      next
        case True
        then obtain r k where r: "drop (l + 1) ?buf = CHR ''/'' # r" "path_scan r = Some k" by blast
        let ?path = "Chars (CHR ''/'' # take k r)"
        obtain y m4 where y: "malloc ?path m3 = (y, m4)" by (cases "malloc ?path m3")
        have "owns m0 m4 ((a, HttpRequest (Some x) None) # (x, ?name) # (y, ?path) # bs) n"
          by (rule owns_perm [OF owns_malloc [OF 3(2) y]]) simp
        from owns_store [OF this] obtain m5 where
          "mem_store (Some a) (HttpRequest (Some x) (Some y)) m4 = Some m5"
          "owns m0 m5 ((a, HttpRequest (Some x) (Some y)) # (x, ?name) # (y, ?path) # bs) n" by blast
        then show ?thesis using a ne l x 3(1) r y
          by (auto simp: http_request_parse_mem_def http_request_parse_def Let_def)
      qed
    qed
  qed
qed

lemma response_parse_memory:
  assumes "owns m0 m bs n" "http_response_parse bytes = Some parsed"
  shows "\<exists>p m'. http_response_parse_mem bytes m = Some (p, m')
     \<and> (case parsed of
          None \<Rightarrow> p = None \<and> owns m0 m' bs n
        | Some r \<Rightarrow> \<exists>a x. p = Some a
            \<and> owns m0 m' ((a, HttpResponse (http_status r) (Some x)) # chars_at (Some x) (Some (http_body r)) @ bs) n)"
proof -
  obtain a m1 where a: "malloc (HttpResponse 0 None) m = (a, m1)" by (cases "malloc (HttpResponse 0 None) m")
  have 1: "owns m0 m1 ((a, HttpResponse 0 None) # bs) n" by (rule owns_malloc [OF assms(1) a])
  show ?thesis
  proof (cases parsed)
    case None
    then show ?thesis using http_response_free_spec [of m0 m1 a 0 None None bs n] 1 a assms(2)
      by (auto simp: http_response_parse_mem_def)
  next
    case (Some r)
    obtain x m2 where x: "malloc (Chars (http_body r)) m1 = (x, m2)" by (cases "malloc (Chars (http_body r)) m1")
    have "owns m0 m2 ((a, HttpResponse 0 None) # (x, Chars (http_body r)) # bs) n"
      by (rule owns_perm [OF owns_malloc [OF 1 x]]) simp
    from owns_store [OF this, of "HttpResponse (http_status r) (Some x)"] Some a x assms(2) show ?thesis
      by (auto simp: http_response_parse_mem_def)
  qed
qed

subsection \<open>Decoding into memory\<close>

text \<open>How many values the loop over the parameters drops: a name that comes again overwrites the
  pointer to its earlier value.\<close>

fun get_param :: "param \<Rightarrow> url_params \<Rightarrow> string option" where
  "get_param KeyParam params = key_param params"
| "get_param ValParam params = val_param params"

function param_drops :: "string \<Rightarrow> url_params \<Rightarrow> nat" where
  "param_drops url params =
     (case strchr url CHR ''='' of
        None \<Rightarrow> 0
      | Some key_end \<Rightarrow>
          let read_end = (case strchr url CHR ''&'' of None \<Rightarrow> length url | Some n \<Rightarrow> n);
              (d, params') = (case param_ptr url key_end of
                 None \<Rightarrow> (0, params)
               | Some f \<Rightarrow> (if get_param f params = None then 0 else 1,
                   set_param f (take (read_end - key_end - 1) (drop (key_end + 1) url)) params))
          in d + (if read_end = length url then 0 else param_drops (drop (read_end + 1) url) params'))"
  by pat_completeness auto
termination
  by (relation "measure (length \<circ> fst)") (auto dest!: strchr_SomeD(1) split: option.splits)

declare param_drops.simps [simp del]

definition url_drops :: "string \<Rightarrow> nat" where
  "url_drops url =
     (case strchr url CHR ''?'' of
        None \<Rightarrow> 0
      | Some pathlen \<Rightarrow>
          param_drops (drop (pathlen + 1) url) \<lparr>url_path = None, key_param = None, val_param = None\<rparr>)"

lemma drop_chars_at:
  "owns m0 m (chars_at p s @ bs) n \<Longrightarrow> agrees p s \<Longrightarrow> owns m0 m bs (n + (if s = None then 0 else 1))"
  using owns_drop by (cases p) auto

lemma store_param_spec:
  assumes "owns m0 m ((x, Chars t) # params_blocks a p k v params @ bs) n" "params_agree p k v params"
  shows "\<exists>m' k' v'. store_param f (Some x) (Some a) m = Some m'
     \<and> owns m0 m' (params_blocks a p k' v' (set_param f t params) @ bs)
         (n + (if get_param f params = None then 0 else 1))
     \<and> params_agree p k' v' (set_param f t params)"
proof -
  let ?b = "case f of KeyParam \<Rightarrow> UrlParams p (Some x) v | ValParam \<Rightarrow> UrlParams p k (Some x)"
  have a: "owns m0 m ((a, UrlParams p k v) # (x, Chars t) # chars_at p (url_path params) @ chars_at k (key_param params)
      @ chars_at v (val_param params) @ bs) n"
    by (rule owns_perm [OF assms(1)]) (simp add: params_blocks_def)
  from owns_store [OF this] obtain m1 where 1: "mem_store (Some a) ?b m = Some m1"
    "owns m0 m1 ((a, ?b) # (x, Chars t) # chars_at p (url_path params) @ chars_at k (key_param params)
      @ chars_at v (val_param params) @ bs) n" by blast
  have s: "store_param f (Some x) (Some a) m = Some m1"
    using 1(1) owns_load [OF a] by (simp add: store_param_def)
  show ?thesis
  proof (cases f)
    case KeyParam
    let ?bs = "params_blocks a p (Some x) v (set_param f t params) @ bs"
    have "owns m0 m1 (chars_at k (key_param params) @ ?bs) n"
      by (rule owns_perm [OF 1(2)]) (simp add: KeyParam params_blocks_def)
    from drop_chars_at [OF this] show ?thesis
      using s assms(2) KeyParam by (intro exI [of _ m1] exI [of _ "Some x"] exI [of _ v]) (simp add: params_agree_def)
  next
    case ValParam
    let ?bs = "params_blocks a p k (Some x) (set_param f t params) @ bs"
    have "owns m0 m1 (chars_at v (val_param params) @ ?bs) n"
      by (rule owns_perm [OF 1(2)]) (simp add: ValParam params_blocks_def)
    from drop_chars_at [OF this] show ?thesis
      using s assms(2) ValParam by (intro exI [of _ m1] exI [of _ k] exI [of _ "Some x"]) (simp add: params_agree_def)
  qed
qed

lemma param_loop_memory:
  assumes "owns m0 m (params_blocks a p k v params @ bs) n" "params_agree p k v params"
  shows "\<exists>m' k' v'. param_loop_mem url (Some a) m = Some m'
     \<and> owns m0 m' (params_blocks a p k' v' (param_loop url params) @ bs) (n + param_drops url params)
     \<and> params_agree p k' v' (param_loop url params)"
  using assms
proof (induction url params arbitrary: m k v n rule: param_loop.induct)
  case (1 url params)
  show ?case
  proof (cases "strchr url CHR ''=''")
    case None
    then show ?thesis using "1.prems"
      by (subst param_loop_mem.simps, subst param_loop.simps, subst param_drops.simps, subst (2) param_loop.simps) auto
  next
    case (Some e)
    let ?r = "case strchr url CHR ''&'' of None \<Rightarrow> length url | Some n \<Rightarrow> n"
    let ?t = "take (?r - e - 1) (drop (e + 1) url)"
    let ?p = "case param_ptr url e of None \<Rightarrow> params | Some f \<Rightarrow> set_param f ?t params"
    let ?d = "case param_ptr url e of None \<Rightarrow> 0 | Some f \<Rightarrow> if get_param f params = None then 0 else (1 :: nat)"
    let ?s = "case param_ptr url e of None \<Rightarrow> Some m
        | Some f \<Rightarrow> (let (x, m1) = malloc (Chars ?t) m in store_param f (Some x) (Some a) m1)"
    have "\<exists>m1 k1 v1. ?s = Some m1 \<and> owns m0 m1 (params_blocks a p k1 v1 ?p @ bs) (n + ?d) \<and> params_agree p k1 v1 ?p"
    proof (cases "param_ptr url e")
      case (Some f)
      obtain x m1 where x: "malloc (Chars ?t) m = (x, m1)" by (cases "malloc (Chars ?t) m")
      from store_param_spec [OF owns_malloc [OF "1.prems"(1) x] "1.prems"(2), of f] Some x show ?thesis by simp
    qed (use "1.prems" in auto)
    then obtain m1 k1 v1 where 1: "?s = Some m1" "owns m0 m1 (params_blocks a p k1 v1 ?p @ bs) (n + ?d)"
      "params_agree p k1 v1 ?p" by blast
    have mem: "param_loop_mem url (Some a) m = (if ?r = length url then Some m1 else param_loop_mem (drop (?r + 1) url) (Some a) m1)"
      using Some 1(1) by (subst param_loop_mem.simps) (simp add: Let_def)
    have val: "param_loop url params = (if ?r = length url then ?p else param_loop (drop (?r + 1) url) ?p)"
      using Some by (subst param_loop.simps) (simp add: Let_def)
    have dr: "param_drops url params = ?d + (if ?r = length url then 0 else param_drops (drop (?r + 1) url) ?p)"
      using Some by (subst param_drops.simps) (simp add: Let_def split: option.split)
    show ?thesis
    proof (cases "?r = length url")
      case True
      then show ?thesis using 1 mem val dr by auto
    next
      case False
      from "1.IH" [OF Some refl refl this 1(2,3)] show ?thesis
        using mem val dr False by (simp add: add.assoc)
    qed
  qed
qed

text \<open>What is dropped does not depend on the path.\<close>

lemma get_set_path [simp]: "get_param f (params\<lparr>url_path := p\<rparr>) = get_param f params"
  by (cases f) simp_all

lemma set_param_path: "set_param f v (params\<lparr>url_path := p\<rparr>) = (set_param f v params)\<lparr>url_path := p\<rparr>"
  by (cases f) simp_all

lemma param_drops_path: "param_drops url (params\<lparr>url_path := p\<rparr>) = param_drops url params"
proof (induction "length url" arbitrary: url params rule: less_induct)
  case less
  have "param_drops (drop (Suc r) url) (params'\<lparr>url_path := p\<rparr>) = param_drops (drop (Suc r) url) params'"
    if "strchr url CHR ''='' = Some e" for r e params'
    using less strchr_SomeD(1) [OF that] by simp
  then show ?case
    by (subst (1 2) param_drops.simps) (simp add: Let_def set_param_path split: option.split)
qed

text \<open>The path goes into the struct before the loop.\<close>

definition no_params :: url_params where
  "no_params = \<lparr>url_path = None, key_param = None, val_param = None\<rparr>"

lemma store_path_spec:
  assumes "owns m0 m (params_blocks a None None None no_params @ bs) n"
  shows "\<exists>y m1 m2. malloc (Chars s) m = (y, m1) \<and> mem_store (Some a) (UrlParams (Some y) None None) m1 = Some m2
     \<and> owns m0 m2 (params_blocks a (Some y) None None (no_params\<lparr>url_path := Some s\<rparr>) @ bs) n"
proof -
  obtain y m1 where y: "malloc (Chars s) m = (y, m1)" by (cases "malloc (Chars s) m")
  have "owns m0 m1 ((a, UrlParams None None None) # (y, Chars s) # bs) n"
    by (rule owns_perm [OF owns_malloc [OF assms y]]) (simp add: params_blocks_def no_params_def)
  from owns_store [OF this, of "UrlParams (Some y) None None"] y show ?thesis
    by (auto simp: params_blocks_def no_params_def)
qed

text \<open>Decoding gives the parameters, and drops the values of the names that come again.\<close>

lemma url_decode_memory:
  assumes "owns m0 m bs n"
  shows "\<exists>a m' p k v. url_decode_mem url m = Some (Some a, m')
     \<and> owns m0 m' (params_blocks a p k v (url_decode url) @ bs) (n + url_drops url)
     \<and> params_agree p k v (url_decode url)"
proof -
  obtain a m1 where a: "malloc (UrlParams None None None) m = (a, m1)" by (cases "malloc (UrlParams None None None) m")
  have 1: "owns m0 m1 (params_blocks a None None None no_params @ bs) n"
    using owns_malloc [OF assms a] by (simp add: params_blocks_def no_params_def)
  have agree: "params_agree None None None no_params"
    "params_agree (Some y) None None (no_params\<lparr>url_path := Some s\<rparr>)" for y s
    by (simp_all add: params_agree_def no_params_def)
  show ?thesis
  proof (cases "strchr url CHR ''?''")
    case None
    show ?thesis
    proof (cases "1 < length url")
      case True
      from store_path_spec [OF 1, of "drop 1 url"] a None True agree(2) [of _ "drop 1 url"] show ?thesis
        by (fastforce simp: url_decode_mem_def url_decode_def url_drops_def no_params_def)
    next
      case False
      then show ?thesis using a 1 None agree(1)
        by (fastforce simp: url_decode_mem_def url_decode_def url_drops_def no_params_def)
    qed
  next
    case (Some l)
    let ?s = "drop 1 (take l url)" and ?u = "drop (l + 1) url"
    let ?params = "if 1 < l then no_params\<lparr>url_path := Some ?s\<rparr> else no_params"
    let ?m = "if 1 < l then (let (y, m) = malloc (Chars ?s) m1 in mem_store (Some a) (UrlParams (Some y) None None) m)
      else Some m1"
    have "\<exists>p m2. ?m = Some m2 \<and> owns m0 m2 (params_blocks a p None None ?params @ bs) n \<and> params_agree p None None ?params"
      using store_path_spec [OF 1, of ?s] 1 agree(1) agree(2) [of _ ?s] by (cases "1 < l") fastforce+
    then obtain p m2 where 2: "?m = Some m2" "owns m0 m2 (params_blocks a p None None ?params @ bs) n"
      "params_agree p None None ?params" by blast
    obtain m3 k v where 3: "param_loop_mem ?u (Some a) m2 = Some m3"
      "owns m0 m3 (params_blocks a p k v (param_loop ?u ?params) @ bs) (n + param_drops ?u ?params)"
      "params_agree p k v (param_loop ?u ?params)"
      using param_loop_memory [OF 2(2,3)] by blast
    have "url_decode_mem url m = Some (Some a, m3)" using a Some 2(1) 3(1) by (simp add: url_decode_mem_def)
    moreover have "url_decode url = param_loop ?u ?params"
      using Some by (simp add: url_decode_def no_params_def)
    moreover have "url_drops url = param_drops ?u ?params"
      using Some param_drops_path [of ?u "Some ?s" no_params] by (simp add: url_drops_def no_params_def)
    ultimately show ?thesis using 3(2,3) by metis
  qed
qed

subsection \<open>Encoded URLs drop nothing\<close>

lemma drops_last:
  assumes "param_ptr (n @ ''='' @ v) (length n) = Some f" "CHR ''='' \<notin> set n" "CHR ''&'' \<notin> set (n @ v)"
  shows "param_drops (n @ ''='' @ v) params = (if get_param f params = None then 0 else 1)"
  using assms by (subst param_drops.simps) (simp add: Let_def)

lemma drops_more:
  assumes "param_ptr (n @ ''='' @ v @ ''&'' @ u) (length n) = Some f" "CHR ''='' \<notin> set n"
    "CHR ''&'' \<notin> set (n @ v)"
  shows "param_drops (n @ ''='' @ v @ ''&'' @ u) params =
     (if get_param f params = None then 0 else 1) + param_drops u (set_param f v params)"
proof -
  have "strchr ((n @ ''='' @ v) @ CHR ''&'' # u) CHR ''&'' = Some (length (n @ ''='' @ v))"
    using assms(3) by (intro strchr_append) auto
  then have "strchr (n @ ''='' @ v @ ''&'' @ u) CHR ''&'' = Some (length n + 1 + length v)" by simp
  then show ?thesis using assms(1,2) by (subst param_drops.simps) (simp add: Let_def)
qed

lemma encoded_key_drops:
  assumes "CHR ''&'' \<notin> set x"
  shows "key_param params = None \<Longrightarrow> param_drops (''key='' @ x) params = 0"
    and "key_param params = None \<Longrightarrow>
      param_drops (''key='' @ x @ ''&'' @ u) params = param_drops u (params\<lparr>key_param := Some x\<rparr>)"
  using drops_last [of "''key''" x KeyParam] drops_more [of "''key''" x u KeyParam] assms
  by (simp_all add: param_ptr_def)

lemma encoded_val_drops:
  assumes "CHR ''&'' \<notin> set x" "val_param params = None"
  shows "param_drops (''val='' @ x) params = 0"
  using drops_last [of "''val''" x ValParam] assms by (simp add: param_ptr_def)

lemma path_drops_nothing: "CHR ''?'' \<notin> set p \<Longrightarrow> url_drops (''/'' @ p) = 0"
  by (simp add: url_drops_def)

lemma query_drops:
  assumes "CHR ''?'' \<notin> set p"
  shows "url_drops (''/'' @ p @ ''?'' @ u) = param_drops u no_params"
proof -
  have "strchr ((''/'' @ p) @ CHR ''?'' # u) CHR ''?'' = Some (length (''/'' @ p))"
    using assms by (intro strchr_append) auto
  then show ?thesis by (simp add: url_drops_def no_params_def)
qed

lemma encoded_url_drops:
  assumes "url_encode params = Some url" and "url_safe params"
  shows "url_drops url = 0"
proof -
  obtain p k v where P: "params = \<lparr>url_path = p, key_param = k, val_param = v\<rparr>" by (cases params) auto
  let ?p = "case p of None \<Rightarrow> [] | Some p \<Rightarrow> p"
  have p: "CHR ''?'' \<notin> set ?p" using assms(2) P by (auto simp: url_safe_def split: option.splits)
  have path: "(case p of Some p \<Rightarrow> ''/'' @ p @ ''?'' | None \<Rightarrow> ''/?'') = ''/'' @ ?p @ ''?''"
    by (cases p) simp_all
  have k: "k = Some x \<Longrightarrow> CHR ''&'' \<notin> set x" and v: "v = Some y \<Longrightarrow> CHR ''&'' \<notin> set y" for x y
    using assms(2) P by (simp_all add: url_safe_def)
  have "url = ''/'' @ ?p \<or> (\<exists>y. v = Some y \<and> url = ''/'' @ ?p @ ''?'' @ ''val='' @ y)
      \<or> (\<exists>x. k = Some x \<and> url = ''/'' @ ?p @ ''?'' @ ''key='' @ x)
      \<or> (\<exists>x y. k = Some x \<and> v = Some y \<and> url = ''/'' @ ?p @ ''?'' @ ''key='' @ x @ ''&'' @ ''val='' @ y)"
    using assms(1) P path by (cases k; cases v) (auto simp: url_encode_def Let_def butlast_append split: if_splits)
  then show ?thesis
  proof (elim disjE exE conjE)
    assume "url = ''/'' @ ?p"
    then show ?thesis using path_drops_nothing [OF p] by simp
  next
    fix y assume "v = Some y" "url = ''/'' @ ?p @ ''?'' @ ''val='' @ y"
    then show ?thesis using query_drops [OF p] encoded_val_drops [OF v, of y] by (simp add: no_params_def)
  next
    fix x assume "k = Some x" "url = ''/'' @ ?p @ ''?'' @ ''key='' @ x"
    then show ?thesis using query_drops [OF p] encoded_key_drops(1) [OF k, of x] by (simp add: no_params_def)
  next
    fix x y assume "k = Some x" "v = Some y" "url = ''/'' @ ?p @ ''?'' @ ''key='' @ x @ ''&'' @ ''val='' @ y"
    then show ?thesis using query_drops [OF p] encoded_key_drops(2) [OF k, of x] encoded_val_drops [OF v, of y]
      by (simp add: no_params_def)
  qed
qed

lemma owns_same_blocks:
  assumes "owns m0 m bs 0" "owns m0 m' bs 0"
  shows "mem_blocks m = mem_blocks m'"
proof
  fix a
  show "mem_blocks m a = mem_blocks m' a"
    using assms by (cases "a < mem_next m0") (simp_all add: owns_def)
qed

end
