(* ===== verification/KVOwnership.thy ===== *)
theory KVOwnership
  imports KVMemory
begin

text \<open>
  Who frees a message (hw4/src/kvmessage.c and the outgoing half of hw4/src/libhttp.c). The strings of
  a request move from the parameters of the URL into the request, the body of a response from the
  HTTP response into the response; what is not moved is freed on the way, on success and on every
  error. The functions are those of \<open>KVMessage\<close> with their memory.
\<close>

subsection \<open>Receiving\<close>

definition kvrequest_free :: "ptr \<Rightarrow> memory \<Rightarrow> memory option" where
  "kvrequest_free kvreq m =
     (if kvreq = None then Some m
      else do {
        b \<leftarrow> mem_load kvreq m;
        case b of
          KVRequest t key val \<Rightarrow>
            do { m \<leftarrow> (if key = None then Some m else mem_free key m);
                 m \<leftarrow> (if val = None then Some m else mem_free val m);
                 mem_free kvreq m }
        | _ \<Rightarrow> None })"

definition kvresponse_free :: "ptr \<Rightarrow> memory \<Rightarrow> memory option" where
  "kvresponse_free kvres m =
     (if kvres = None then Some m
      else do {
        b \<leftarrow> mem_load kvres m;
        case b of
          KVResponse t body \<Rightarrow>
            do { m \<leftarrow> (if body = None then Some m else mem_free body m); mem_free kvres m }
        | _ \<Rightarrow> None })"

text \<open>A string of a struct, or NULL.\<close>

definition load_field :: "ptr \<Rightarrow> memory \<Rightarrow> string option option" where
  "load_field p m = (if p = None then Some None else map_option Some (load_chars p m))"

text \<open>\<open>error:\<close> in \<open>kvrequest_recieve\<close>.\<close>

definition recieve_error :: "ptr \<Rightarrow> ptr \<Rightarrow> ptr \<Rightarrow> memory \<Rightarrow> (ptr \<times> memory) option" where
  "recieve_error req params kvreq m =
     do { m \<leftarrow> http_request_free req m;
          m \<leftarrow> url_params_free params m;
          m \<leftarrow> kvrequest_free kvreq m;
          Some (None, m) }"

definition kvrequest_recieve_mem :: "string \<Rightarrow> memory \<Rightarrow> (ptr \<times> memory) option" where
  "kvrequest_recieve_mem bytes m =
     (let (kvreq, m) = malloc (KVRequest EMPTY None None) m in
      do {
        (req, m) \<leftarrow> http_request_parse_mem bytes m;
        if req = None then recieve_error req None (Some kvreq) m
        else do {
          b \<leftarrow> mem_load req m;
          case b of
            HttpRequest method path \<Rightarrow>
              do { url \<leftarrow> load_chars path m;
                   (params, m) \<leftarrow> url_decode_mem url m;
                   name \<leftarrow> load_chars method m;
                   c \<leftarrow> mem_load params m;
                   case c of
                     UrlParams ppath key val \<Rightarrow>
                       do { p \<leftarrow> load_field ppath m;
                            k \<leftarrow> load_field key m;
                            v \<leftarrow> load_field val m;
                            let t = request_type name \<lparr>url_path = p, key_param = k, val_param = v\<rparr>;
                            if t = EMPTY then recieve_error req params (Some kvreq) m
                            else do {
                              m \<leftarrow> mem_store (Some kvreq) (KVRequest t key val) m;
                              m \<leftarrow> http_request_free req m;
                              m \<leftarrow> mem_free ppath m;
                              m \<leftarrow> mem_free params m;
                              Some (Some kvreq, m) } }
                   | _ \<Rightarrow> None }
          | _ \<Rightarrow> None } })"

definition kvresponse_recieve_mem :: "string \<Rightarrow> memory \<Rightarrow> (ptr \<times> memory) option" where
  "kvresponse_recieve_mem bytes m =
     (let (kvres, m) = malloc (KVResponse INDEX None) m in
      do {
        (res, m) \<leftarrow> http_response_parse_mem bytes m;
        if res = None
        then do { m \<leftarrow> http_response_free res m; m \<leftarrow> kvresponse_free (Some kvres) m; Some (None, m) }
        else do {
          b \<leftarrow> mem_load res m;
          case b of
            HttpResponse status body \<Rightarrow>
              let t = kvresponse_get_status_code status in
              do { m \<leftarrow> mem_store (Some kvres) (KVResponse t None) m;
                   if t = EMPTY
                   then do { m \<leftarrow> http_response_free res m; m \<leftarrow> kvresponse_free (Some kvres) m; Some (None, m) }
                   else do { m \<leftarrow> mem_store (Some kvres) (KVResponse t body) m;
                             m \<leftarrow> mem_free res m;
                             Some (Some kvres, m) } }
          | _ \<Rightarrow> None } })"

subsection \<open>Sending\<close>

definition outbound_mem :: "http_outbound option \<Rightarrow> memory \<Rightarrow> (ptr \<times> memory) option" where
  "outbound_mem started m =
     (case started of
        None \<Rightarrow> Some (None, m)
      | Some o' \<Rightarrow>
          let (msg, m) = malloc (Outbound (out_fd o') None) m;
              (body, m) = malloc (Chars (out_body o')) m
          in do { m \<leftarrow> mem_store (Some msg) (Outbound (out_fd o') (Some body)) m; Some (Some msg, m) })"

definition http_start_request_mem :: "int \<Rightarrow> string \<Rightarrow> string \<Rightarrow> memory \<Rightarrow> (ptr \<times> memory) option" where
  "http_start_request_mem fd method url m =
     do { started \<leftarrow> http_start_request fd method url; outbound_mem started m }"

definition http_start_response_mem :: "int \<Rightarrow> int \<Rightarrow> memory \<Rightarrow> (ptr \<times> memory) option" where
  "http_start_response_mem fd code m =
     do { started \<leftarrow> http_start_response fd code; outbound_mem started m }"

text \<open>\<open>http_add_header\<close>, \<open>http_end_headers\<close> and \<open>http_add_string\<close> write into the body.\<close>

definition http_write_mem :: "(http_outbound \<Rightarrow> http_outbound option) \<Rightarrow> ptr \<Rightarrow> memory \<Rightarrow> memory option" where
  "http_write_mem f msg m =
     do { b \<leftarrow> mem_load msg m;
          case b of
            Outbound fd body \<Rightarrow>
              do { s \<leftarrow> load_chars body m;
                   o' \<leftarrow> f \<lparr>out_fd = fd, out_body = s\<rparr>;
                   mem_store body (Chars (out_body o')) m }
          | _ \<Rightarrow> None }"

definition http_send_and_free_mem :: "int list \<Rightarrow> ptr \<Rightarrow> memory \<Rightarrow> ((string \<times> int) \<times> memory) option" where
  "http_send_and_free_mem ws msg m =
     do { b \<leftarrow> mem_load msg m;
          case b of
            Outbound fd body \<Rightarrow>
              do { s \<leftarrow> load_chars body m;
                   (out, r) \<leftarrow> http_send_and_free ws \<lparr>out_fd = fd, out_body = s\<rparr>;
                   if r < 0 then Some ((out, r), m)
                   else do { m \<leftarrow> mem_free body m; m \<leftarrow> mem_free msg m; Some ((out, r), m) } }
          | _ \<Rightarrow> None }"

definition kvrequest_send_mem :: "int list \<Rightarrow> ptr \<Rightarrow> int \<Rightarrow> memory \<Rightarrow> ((string \<times> int) \<times> memory) option" where
  "kvrequest_send_mem ws kvreq sockfd m =
     do { b \<leftarrow> mem_load kvreq m;
          case b of
            KVRequest t key val \<Rightarrow>
              (case http_method_for_request_type t of
                 None \<Rightarrow> Some (([], - 1), m)
               | Some method \<Rightarrow>
                   do { k \<leftarrow> load_field key m;
                        v \<leftarrow> load_field val m;
                        u \<leftarrow> url_encode \<lparr>url_path = path_for_request_type t, key_param = k, val_param = v\<rparr>;
                        let (url, m) = malloc (Chars u) m in
                        do { (msg, m) \<leftarrow> http_start_request_mem sockfd method u m;
                             if msg = None then Some (([], - 1), m)
                             else do { m \<leftarrow> mem_free (Some url) m;
                                       m \<leftarrow> http_write_mem http_end_headers msg m;
                                       http_send_and_free_mem ws msg m } } })
          | _ \<Rightarrow> None }"

definition kvresponse_send_mem :: "int list \<Rightarrow> ptr \<Rightarrow> int \<Rightarrow> memory \<Rightarrow> ((string \<times> int) \<times> memory) option" where
  "kvresponse_send_mem ws kvres sockfd m =
     do { b \<leftarrow> mem_load kvres m;
          case b of
            KVResponse t body \<Rightarrow>
              let code = http_code_for_response_type t in
              if code < 0 then Some (([], - 1), m)
              else do {
                (msg, m) \<leftarrow> http_start_response_mem sockfd code m;
                if msg = None then Some (([], - 1), m)
                else do { s \<leftarrow> load_field body m;
                          len \<leftarrow> lenbuf s;
                          m \<leftarrow> http_write_mem (\<lambda>o'. http_add_header o' ''Content-Length'' len) msg m;
                          m \<leftarrow> http_write_mem http_end_headers msg m;
                          m \<leftarrow> http_write_mem (\<lambda>o'. http_add_string o' s) msg m;
                          http_send_and_free_mem ws msg m } }
          | _ \<Rightarrow> None }"

subsection \<open>A message in memory\<close>

definition load_request :: "ptr \<Rightarrow> memory \<Rightarrow> kvrequest_t option option" where
  "load_request req m =
     (if req = None then Some None
      else do { b \<leftarrow> mem_load req m;
                case b of
                  KVRequest t key val \<Rightarrow>
                    do { k \<leftarrow> load_field key m;
                         v \<leftarrow> load_field val m;
                         Some (Some \<lparr>req_type = t, req_key = k, req_val = v\<rparr>) }
                | _ \<Rightarrow> None })"

definition load_response :: "ptr \<Rightarrow> memory \<Rightarrow> kvresponse_t option option" where
  "load_response res m =
     (if res = None then Some None
      else do { b \<leftarrow> mem_load res m;
                case b of
                  KVResponse t body \<Rightarrow>
                    do { s \<leftarrow> load_field body m; Some (Some \<lparr>res_type = t, res_body = s\<rparr>) }
                | _ \<Rightarrow> None })"

definition request_blocks :: "nat \<Rightarrow> ptr \<Rightarrow> ptr \<Rightarrow> kvrequest_t \<Rightarrow> (nat \<times> block) list" where
  "request_blocks a k v req =
     (a, KVRequest (req_type req) k v) # chars_at k (req_key req) @ chars_at v (req_val req)"

definition response_blocks :: "nat \<Rightarrow> ptr \<Rightarrow> kvresponse_t \<Rightarrow> (nat \<times> block) list" where
  "response_blocks a b res = (a, KVResponse (res_type res) b) # chars_at b (res_body res)"

lemma load_field_spec:
  "owns m0 m (chars_at p s @ bs) n \<Longrightarrow> agrees p s \<Longrightarrow> load_field p m = Some s"
  using owns_chars [of m0 m] by (cases p; cases s) (auto simp: load_field_def agrees_def)

lemma kvrequest_free_spec:
  assumes "owns m0 m (request_blocks a k v req @ bs) n"
  shows "\<exists>m'. kvrequest_free (Some a) m = Some m' \<and> owns m0 m' bs n"
  using free_struct2 [of m0 m a "KVRequest (req_type req) k v"] owns_load [of m0 m a "KVRequest (req_type req) k v"] assms
  by (simp add: kvrequest_free_def request_blocks_def)

lemma kvresponse_free_spec:
  assumes "owns m0 m (response_blocks a b res @ bs) n"
  shows "\<exists>m'. kvresponse_free (Some a) m = Some m' \<and> owns m0 m' bs n"
  using free_struct1 [of m0 m a "KVResponse (res_type res) b"] owns_load [of m0 m a "KVResponse (res_type res) b"] assms
  by (simp add: kvresponse_free_def response_blocks_def)

lemma load_request_spec:
  assumes h: "owns m0 m (request_blocks a k v req @ bs) n" and ag: "agrees k (req_key req)" "agrees v (req_val req)"
  shows "load_request (Some a) m = Some (Some req)"
proof -
  let ?b = "KVRequest (req_type req) k v"
  have "mem_load (Some a) m = Some ?b" using h owns_load [of m0 m a ?b] by (simp add: request_blocks_def)
  moreover have "load_field k m = Some (req_key req)"
    by (rule load_field_spec [of m0 m _ _ "(a, ?b) # chars_at v (req_val req) @ bs" n, OF owns_perm [OF h] ag(1)])
      (simp add: request_blocks_def)
  moreover have "load_field v m = Some (req_val req)"
    by (rule load_field_spec [of m0 m _ _ "(a, ?b) # chars_at k (req_key req) @ bs" n, OF owns_perm [OF h] ag(2)])
      (simp add: request_blocks_def)
  ultimately show ?thesis by (simp add: load_request_def)
qed

text \<open>Values of a request's URL that are overwritten while it is decoded.\<close>

definition request_drops :: "string \<Rightarrow> nat" where
  "request_drops bytes = (case http_request_parse bytes of None \<Rightarrow> 0 | Some r \<Rightarrow> url_drops (http_path r))"

lemma recieve_error_spec:
  assumes "owns m0 m ((r, HttpRequest p q) # chars_at p s @ chars_at q t @ params_blocks a pp k v params
     @ (b, KVRequest EMPTY None None) # bs) n"
  shows "\<exists>m'. recieve_error (Some r) (Some a) (Some b) m = Some (None, m') \<and> owns m0 m' bs n"
proof -
  from http_request_free_spec [OF assms] obtain m1 where 1: "http_request_free (Some r) m = Some m1"
    "owns m0 m1 (params_blocks a pp k v params @ (b, KVRequest EMPTY None None) # bs) n" by blast
  from url_params_free_spec [OF 1(2)] obtain m2 where 2: "url_params_free (Some a) m1 = Some m2"
    "owns m0 m2 ((b, KVRequest EMPTY None None) # bs) n" by blast
  have "owns m0 m2 (request_blocks b None None \<lparr>req_type = EMPTY, req_key = None, req_val = None\<rparr> @ bs) n"
    using 2(2) by (simp add: request_blocks_def)
  from kvrequest_free_spec [OF this] show ?thesis using 1(1) 2(1) by (auto simp: recieve_error_def)
qed

lemma params_eta: "\<lparr>url_path = url_path q, key_param = key_param q, val_param = val_param q\<rparr> = q"
  by simp

lemma free_any: "owns m0 m (chars_at p s @ bs) n \<Longrightarrow> \<exists>m'. mem_free p m = Some m' \<and> owns m0 m' bs n"
  using free_chars_at [of m0 m p s bs n] by (cases p) (auto simp: mem_free_def)

lemma recieve_memory:
  assumes "owns m0 m bs n"
  shows "\<exists>p m'. kvrequest_recieve_mem bytes m = Some (p, m')
     \<and> (case kvrequest_recieve bytes of
          None \<Rightarrow> p = None \<and> owns m0 m' bs (n + request_drops bytes)
        | Some req \<Rightarrow> \<exists>a k v. p = Some a \<and> agrees k (req_key req) \<and> agrees v (req_val req)
            \<and> owns m0 m' (request_blocks a k v req @ bs) (n + request_drops bytes))"
proof -
  let ?kv = "KVRequest EMPTY None None"
  obtain b m1 where b: "malloc ?kv m = (b, m1)" by (cases "malloc ?kv m")
  note 1 = owns_malloc [OF assms b]
  obtain p m2 where p: "http_request_parse_mem bytes m1 = Some (p, m2)"
    and parsed: "case http_request_parse bytes of None \<Rightarrow> p = None \<and> owns m0 m2 ((b, ?kv) # bs) n
        | Some r \<Rightarrow> \<exists>a x y. p = Some a \<and> owns m0 m2 ((a, HttpRequest (Some x) (Some y)) # chars_at (Some x) (Some (http_method r))
              @ chars_at (Some y) (Some (http_path r)) @ (b, ?kv) # bs) n"
    using request_parse_memory [OF 1] by blast
  show ?thesis
  proof (cases "http_request_parse bytes")
    case None
    then have 2: "p = None" "owns m0 m2 (request_blocks b None None \<lparr>req_type = EMPTY, req_key = None, req_val = None\<rparr> @ bs) n"
      using parsed by (simp_all add: request_blocks_def)
    from kvrequest_free_spec [OF 2(2)] show ?thesis using None b p 2(1)
      by (auto simp: kvrequest_recieve_mem_def recieve_error_def http_request_free_def url_params_free_def
          kvrequest_recieve_def request_drops_def)
  next
    case (Some r)
    then obtain a x y where a: "p = Some a" and 2: "owns m0 m2 ((a, HttpRequest (Some x) (Some y)) #
        chars_at (Some x) (Some (http_method r)) @ chars_at (Some y) (Some (http_path r)) @ (b, ?kv) # bs) n"
      using parsed by auto
    let ?req = "(a, HttpRequest (Some x) (Some y)) # chars_at (Some x) (Some (http_method r)) @ chars_at (Some y) (Some (http_path r))"
    let ?params = "url_decode (http_path r)"
    obtain c m3 pp k v where c: "url_decode_mem (http_path r) m2 = Some (Some c, m3)"
      and 3: "owns m0 m3 (params_blocks c pp k v ?params @ ?req @ (b, ?kv) # bs) (n + url_drops (http_path r))"
      and ag: "agrees pp (url_path ?params)" "agrees k (key_param ?params)" "agrees v (val_param ?params)"
      using url_decode_memory [OF 2, of "http_path r"] by (auto simp: params_agree_def)
    let ?pb = "params_blocks c pp k v ?params" and ?n = "n + url_drops (http_path r)"
    have l2: "mem_load (Some a) m2 = Some (HttpRequest (Some x) (Some y))" using 2 by (rule owns_load)
    have "load_chars (Some y) m2 = Some (http_path r)"
      by (rule owns_chars [OF owns_perm [OF 2, of "(y, Chars (http_path r)) # (a, HttpRequest (Some x) (Some y))
        # (x, Chars (http_method r)) # (b, ?kv) # bs"]]) simp
    moreover have "load_chars (Some x) m3 = Some (http_method r)"
      by (rule owns_chars [OF owns_perm [OF 3, of "(x, Chars (http_method r)) # (a, HttpRequest (Some x) (Some y))
        # (y, Chars (http_path r)) # ?pb @ (b, ?kv) # bs"]]) simp
    moreover have "mem_load (Some c) m3 = Some (UrlParams pp k v)"
      using 3 owns_load by (auto simp: params_blocks_def)
    moreover have "load_field pp m3 = Some (url_path ?params)"
      by (rule load_field_spec [OF owns_perm [OF 3, of "chars_at pp (url_path ?params) @ (c, UrlParams pp k v)
        # chars_at k (key_param ?params) @ chars_at v (val_param ?params) @ ?req @ (b, ?kv) # bs"] ag(1)])
        (simp add: params_blocks_def)
    moreover have "load_field k m3 = Some (key_param ?params)"
      by (rule load_field_spec [OF owns_perm [OF 3, of "chars_at k (key_param ?params) @ (c, UrlParams pp k v)
        # chars_at pp (url_path ?params) @ chars_at v (val_param ?params) @ ?req @ (b, ?kv) # bs"] ag(2)])
        (simp add: params_blocks_def)
    moreover have "load_field v m3 = Some (val_param ?params)"
      by (rule load_field_spec [OF owns_perm [OF 3, of "chars_at v (val_param ?params) @ (c, UrlParams pp k v)
        # chars_at pp (url_path ?params) @ chars_at k (key_param ?params) @ ?req @ (b, ?kv) # bs"] ag(3)])
        (simp add: params_blocks_def)
    moreover define t where "t = request_type (http_method r) ?params"
    ultimately have run: "kvrequest_recieve_mem bytes m =
       (if t = EMPTY then recieve_error (Some a) (Some c) (Some b) m3
        else do { m \<leftarrow> mem_store (Some b) (KVRequest t k v) m3;
                  m \<leftarrow> http_request_free (Some a) m;
                  m \<leftarrow> mem_free pp m;
                  m \<leftarrow> mem_free (Some c) m;
                  Some (Some b, m) })"
      using b p a c l2 by (simp add: kvrequest_recieve_mem_def Let_def params_eta)
    have val: "kvrequest_recieve bytes = (if t = EMPTY then None
        else Some \<lparr>req_type = t, req_key = key_param ?params, req_val = val_param ?params\<rparr>)"
      using Some by (simp add: kvrequest_recieve_def t_def Let_def)
    have drops: "request_drops bytes = url_drops (http_path r)" using Some by (simp add: request_drops_def)
    show ?thesis
    proof (cases "t = EMPTY")
      case True
      have "owns m0 m3 ((a, HttpRequest (Some x) (Some y)) # chars_at (Some x) (Some (http_method r))
          @ chars_at (Some y) (Some (http_path r)) @ ?pb @ (b, ?kv) # bs) ?n"
        by (rule owns_perm [OF 3]) simp
      from recieve_error_spec [OF this] show ?thesis using run val drops True by auto
    next
      case False
      have "owns m0 m3 ((b, ?kv) # ?req @ ?pb @ bs) ?n" by (rule owns_perm [OF 3]) simp
      from owns_store [OF this] obtain m4 where 4: "mem_store (Some b) (KVRequest t k v) m3 = Some m4"
        "owns m0 m4 ((b, KVRequest t k v) # ?req @ ?pb @ bs) ?n" by blast
      have "owns m0 m4 ((a, HttpRequest (Some x) (Some y)) # chars_at (Some x) (Some (http_method r))
          @ chars_at (Some y) (Some (http_path r)) @ ?pb @ (b, KVRequest t k v) # bs) ?n"
        by (rule owns_perm [OF 4(2)]) simp
      from http_request_free_spec [OF this] obtain m5 where 5: "http_request_free (Some a) m4 = Some m5"
        "owns m0 m5 (?pb @ (b, KVRequest t k v) # bs) ?n" by blast
      have "owns m0 m5 (chars_at pp (url_path ?params) @ (c, UrlParams pp k v) # (b, KVRequest t k v)
          # chars_at k (key_param ?params) @ chars_at v (val_param ?params) @ bs) ?n"
        by (rule owns_perm [OF 5(2)]) (simp add: params_blocks_def)
      from free_any [OF this] obtain m6 where 6: "mem_free pp m5 = Some m6"
        "owns m0 m6 ((c, UrlParams pp k v) # (b, KVRequest t k v)
          # chars_at k (key_param ?params) @ chars_at v (val_param ?params) @ bs) ?n" by blast
      from owns_free [OF 6(2)] obtain m7 where "mem_free (Some c) m6 = Some m7"
        "owns m0 m7 ((b, KVRequest t k v) # chars_at k (key_param ?params) @ chars_at v (val_param ?params) @ bs) ?n" by blast
      then show ?thesis using run val drops False 4(1) 5(1) 6(1) ag(2,3) by (auto simp: request_blocks_def)
    qed
  qed
qed

lemma load_response_spec:
  assumes h: "owns m0 m (response_blocks a b res @ bs) n" and ag: "agrees b (res_body res)"
  shows "load_response (Some a) m = Some (Some res)"
proof -
  let ?b = "KVResponse (res_type res) b"
  have "mem_load (Some a) m = Some ?b" using h owns_load [of m0 m a ?b] by (simp add: response_blocks_def)
  moreover have "load_field b m = Some (res_body res)"
    by (rule load_field_spec [of m0 m _ _ "(a, ?b) # bs" n, OF owns_perm [OF h] ag]) (simp add: response_blocks_def)
  ultimately show ?thesis by (simp add: load_response_def)
qed

subsection \<open>A response that comes in\<close>

lemma recieve_response_memory:
  assumes h: "owns m0 m bs n" and r: "kvresponse_recieve bytes = Some parsed"
  shows "\<exists>p m'. kvresponse_recieve_mem bytes m = Some (p, m')
     \<and> (case parsed of
          None \<Rightarrow> p = None \<and> owns m0 m' bs n
        | Some res \<Rightarrow> \<exists>a b. p = Some a \<and> agrees b (res_body res) \<and> owns m0 m' (response_blocks a b res @ bs) n)"
proof -
  obtain q where q: "http_response_parse bytes = Some q" using r by (auto simp: kvresponse_recieve_def)
  obtain a m1 where a: "malloc (KVResponse INDEX None) m = (a, m1)" by (cases "malloc (KVResponse INDEX None) m")
  note 1 = owns_malloc [OF h a]
  have free: "\<exists>m'. kvresponse_free (Some a) m = Some m' \<and> owns m0 m' bs n"
    if "owns m0 m ((a, KVResponse t None) # bs) n" for m t
    using kvresponse_free_spec [of m0 m a None "\<lparr>res_type = t, res_body = None\<rparr>" bs n] that
    by (simp add: response_blocks_def)
  obtain p m2 where p: "http_response_parse_mem bytes m1 = Some (p, m2)"
    and parsed: "case q of None \<Rightarrow> p = None \<and> owns m0 m2 ((a, KVResponse INDEX None) # bs) n
        | Some res \<Rightarrow> \<exists>c x. p = Some c \<and> owns m0 m2 ((c, HttpResponse (http_status res) (Some x))
            # chars_at (Some x) (Some (http_body res)) @ (a, KVResponse INDEX None) # bs) n"
    using response_parse_memory [OF 1 q] by blast
  show ?thesis
  proof (cases q)
    case None
    with parsed free [of m2 INDEX] show ?thesis using r q a p
      by (auto simp: kvresponse_recieve_mem_def http_response_free_def kvresponse_recieve_def)
  next
    case (Some res)
    then obtain c x where c: "p = Some c" "owns m0 m2 ((c, HttpResponse (http_status res) (Some x))
        # (x, Chars (http_body res)) # (a, KVResponse INDEX None) # bs) n" using parsed by auto
    let ?t = "kvresponse_get_status_code (http_status res)" and ?hr = "HttpResponse (http_status res) (Some x)"
    have "owns m0 m2 ((a, KVResponse INDEX None) # (c, ?hr) # (x, Chars (http_body res)) # bs) n"
      by (rule owns_perm [OF c(2)]) simp
    from owns_store [OF this] obtain m3 where 3: "mem_store (Some a) (KVResponse ?t None) m2 = Some m3"
      "owns m0 m3 ((a, KVResponse ?t None) # (c, ?hr) # (x, Chars (http_body res)) # bs) n" by blast
    show ?thesis
    proof (cases "?t = EMPTY")
      case True
      have "owns m0 m3 ((c, ?hr) # chars_at (Some x) (Some (http_body res)) @ (a, KVResponse ?t None) # bs) n"
        by (rule owns_perm [OF 3(2)]) simp
      from http_response_free_spec [OF this] obtain m4 where 4: "http_response_free (Some c) m3 = Some m4"
        "owns m0 m4 ((a, KVResponse ?t None) # bs) n" by blast
      from free [OF 4(2)] show ?thesis
        using r q Some a p c(1) owns_load [OF c(2)] 3(1) 4(1) True
        by (auto simp: kvresponse_recieve_mem_def kvresponse_recieve_def Let_def)
    next
      case False
      from owns_store [OF 3(2)] obtain m4 where 4: "mem_store (Some a) (KVResponse ?t (Some x)) m3 = Some m4"
        "owns m0 m4 ((a, KVResponse ?t (Some x)) # (c, ?hr) # (x, Chars (http_body res)) # bs) n" by blast
      have "owns m0 m4 ((c, ?hr) # (a, KVResponse ?t (Some x)) # (x, Chars (http_body res)) # bs) n"
        by (rule owns_perm [OF 4(2)]) simp
      from owns_free [OF this] obtain m5 where "mem_free (Some c) m4 = Some m5"
        "owns m0 m5 ((a, KVResponse ?t (Some x)) # (x, Chars (http_body res)) # bs) n" by blast
      then show ?thesis
        using r q Some a p c(1) owns_load [OF c(2)] 3(1) 4(1) False
        by (auto simp: kvresponse_recieve_mem_def kvresponse_recieve_def Let_def response_blocks_def
            intro!: exI [of _ "Some x"])
    qed
  qed
qed

subsection \<open>A message that goes out\<close>

definition outbound_blocks :: "nat \<Rightarrow> nat \<Rightarrow> http_outbound \<Rightarrow> (nat \<times> block) list" where
  "outbound_blocks a b msg = [(a, Outbound (out_fd msg) (Some b)), (b, Chars (out_body msg))]"

lemma outbound_eta: "\<lparr>out_fd = out_fd msg, out_body = out_body msg\<rparr> = msg"
  by simp

lemma out_fd_kept:
  "http_end_headers msg = Some msg' \<Longrightarrow> out_fd msg' = out_fd msg"
  "http_add_header msg key val = Some msg' \<Longrightarrow> out_fd msg' = out_fd msg"
  "http_add_string msg data = Some msg' \<Longrightarrow> out_fd msg' = out_fd msg"
  by (auto simp: http_end_headers_def http_add_header_def http_add_string_def http_add_data_def out_print_def
      split: if_splits option.splits)

lemma outbound_memory:
  assumes "owns m0 m bs n"
  shows "\<exists>a b m'. outbound_mem (Some msg) m = Some (Some a, m') \<and> owns m0 m' (outbound_blocks a b msg @ bs) n"
proof -
  obtain a m1 where a: "malloc (Outbound (out_fd msg) None) m = (a, m1)" by (cases "malloc (Outbound (out_fd msg) None) m")
  obtain b m2 where b: "malloc (Chars (out_body msg)) m1 = (b, m2)" by (cases "malloc (Chars (out_body msg)) m1")
  have "owns m0 m2 ((a, Outbound (out_fd msg) None) # (b, Chars (out_body msg)) # bs) n"
    by (rule owns_perm [OF owns_malloc [OF owns_malloc [OF assms a] b]]) simp
  from owns_store [OF this, of "Outbound (out_fd msg) (Some b)"] a b show ?thesis
    by (auto simp: outbound_mem_def outbound_blocks_def)
qed

lemma outbound_loads:
  assumes "owns m0 m (outbound_blocks a b msg @ bs) n"
  shows "mem_load (Some a) m = Some (Outbound (out_fd msg) (Some b))" "load_chars (Some b) m = Some (out_body msg)"
proof -
  show "mem_load (Some a) m = Some (Outbound (out_fd msg) (Some b))"
    using assms owns_load by (auto simp: outbound_blocks_def)
  have "owns m0 m ((b, Chars (out_body msg)) # (a, Outbound (out_fd msg) (Some b)) # bs) n"
    by (rule owns_perm [OF assms]) (simp add: outbound_blocks_def)
  then show "load_chars (Some b) m = Some (out_body msg)" by (rule owns_chars)
qed

lemma http_write_memory:
  assumes "owns m0 m (outbound_blocks a b msg @ bs) n" "f msg = Some msg'" "out_fd msg' = out_fd msg"
  shows "\<exists>m'. http_write_mem f (Some a) m = Some m' \<and> owns m0 m' (outbound_blocks a b msg' @ bs) n"
proof -
  have "owns m0 m ((b, Chars (out_body msg)) # (a, Outbound (out_fd msg) (Some b)) # bs) n"
    by (rule owns_perm [OF assms(1)]) (simp add: outbound_blocks_def)
  from owns_store [OF this, of "Chars (out_body msg')"] obtain m' where
    m': "mem_store (Some b) (Chars (out_body msg')) m = Some m'"
    "owns m0 m' ((b, Chars (out_body msg')) # (a, Outbound (out_fd msg) (Some b)) # bs) n" by blast
  have "owns m0 m' (outbound_blocks a b msg' @ bs) n"
    by (rule owns_perm [OF m'(2)]) (simp add: outbound_blocks_def assms(3))
  then show ?thesis using m'(1) outbound_loads [OF assms(1)] assms(2) by (simp add: http_write_mem_def outbound_eta)
qed

lemma http_send_memory:
  assumes "owns m0 m (outbound_blocks a b msg @ bs) n" "http_send_and_free ws msg = Some (out, r)"
  shows "\<exists>m'. http_send_and_free_mem ws (Some a) m = Some ((out, r), m') \<and> owns m0 m' bs (n + (if r < 0 then 2 else 0))"
proof -
  have send: "http_send_and_free ws \<lparr>out_fd = out_fd msg, out_body = out_body msg\<rparr> = Some (out, r)"
    using assms(2) by (simp add: outbound_eta)
  have b: "owns m0 m ((b, Chars (out_body msg)) # (a, Outbound (out_fd msg) (Some b)) # bs) n"
    by (rule owns_perm [OF assms(1)]) (simp add: outbound_blocks_def)
  show ?thesis
  proof (cases "r < 0")
    case True
    then show ?thesis using outbound_loads [OF assms(1)] send owns_drop [OF owns_drop [OF b]]
      by (simp add: http_send_and_free_mem_def)
  next
    case False
    from owns_free [OF b] obtain m1 where 1: "mem_free (Some b) m = Some m1"
      "owns m0 m1 ((a, Outbound (out_fd msg) (Some b)) # bs) n" by blast
    from owns_free [OF 1(2)] show ?thesis using outbound_loads [OF assms(1)] send 1(1) False
      by (auto simp: http_send_and_free_mem_def)
  qed
qed

text \<open>What a failed \<open>write\<close> leaves behind: the struct and its buffer.\<close>

definition send_drops :: "bool \<Rightarrow> int \<Rightarrow> nat" where
  "send_drops started r = (if started \<and> r < 0 then 2 else 0)"

lemma response_started:
  assumes "0 \<le> http_code_for_response_type t" "http_start_response fd (http_code_for_response_type t) = Some started"
  shows "started \<noteq> None"
  using assms by (cases t) (auto simp: http_start_response_def http_get_response_message_def)

lemma response_send_memory:
  assumes h: "owns m0 m (response_blocks a b res @ bs) n" and ag: "agrees b (res_body res)"
    and send: "kvresponse_send ws res fd = Some (out, r)"
  shows "\<exists>m'. kvresponse_send_mem ws (Some a) fd m = Some ((out, r), m')
     \<and> owns m0 m' (response_blocks a b res @ bs)
         (n + send_drops (0 \<le> http_code_for_response_type (res_type res)) r)"
proof -
  let ?code = "http_code_for_response_type (res_type res)" and ?rb = "response_blocks a b res @ bs"
  have load: "mem_load (Some a) m = Some (KVResponse (res_type res) b)"
    using h owns_load by (auto simp: response_blocks_def)
  show ?thesis
  proof (cases "?code < 0")
    case True
    then show ?thesis using load send h by (auto simp: kvresponse_send_mem_def kvresponse_send_def send_drops_def)
  next
    case False
    then obtain msg len msg1 msg2 msg3 where
      v: "http_start_response fd ?code = Some (Some msg)" "lenbuf (res_body res) = Some len"
      "http_add_header msg ''Content-Length'' len = Some msg1" "http_end_headers msg1 = Some msg2"
      "http_add_string msg2 (res_body res) = Some msg3" "http_send_and_free ws msg3 = Some (out, r)"
      using send response_started [of "res_type res" fd]
      by (auto simp: kvresponse_send_def Let_def not_less split: bind_splits option.splits)
    obtain x y m1 where 1: "outbound_mem (Some msg) m = Some (Some x, m1)" "owns m0 m1 (outbound_blocks x y msg @ ?rb) n"
      using outbound_memory [OF h] by blast
    have "owns m0 m1 (chars_at b (res_body res) @ (a, KVResponse (res_type res) b) # outbound_blocks x y msg @ bs) n"
      by (rule owns_perm [OF 1(2)]) (simp add: response_blocks_def)
    then have body: "load_field b m1 = Some (res_body res)" using ag by (rule load_field_spec)
    obtain m2 where 2: "http_write_mem (\<lambda>o'. http_add_header o' ''Content-Length'' len) (Some x) m1 = Some m2"
      "owns m0 m2 (outbound_blocks x y msg1 @ ?rb) n"
      using http_write_memory [OF 1(2), of "\<lambda>o'. http_add_header o' ''Content-Length'' len", OF v(3) out_fd_kept(2) [OF v(3)]] by blast
    obtain m3 where 3: "http_write_mem http_end_headers (Some x) m2 = Some m3" "owns m0 m3 (outbound_blocks x y msg2 @ ?rb) n"
      using http_write_memory [OF 2(2), of http_end_headers, OF v(4) out_fd_kept(1) [OF v(4)]] by blast
    obtain m4 where 4: "http_write_mem (\<lambda>o'. http_add_string o' (res_body res)) (Some x) m3 = Some m4"
      "owns m0 m4 (outbound_blocks x y msg3 @ ?rb) n"
      using http_write_memory [OF 3(2), of "\<lambda>o'. http_add_string o' (res_body res)", OF v(5) out_fd_kept(3) [OF v(5)]] by blast
    obtain m5 where 5: "http_send_and_free_mem ws (Some x) m4 = Some ((out, r), m5)"
      "owns m0 m5 ?rb (n + (if r < 0 then 2 else 0))"
      using http_send_memory [OF 4(2) v(6)] by blast
    have "kvresponse_send_mem ws (Some a) fd m = Some ((out, r), m5)"
      using False load v(1,2) 1(1) body 2(1) 3(1) 4(1) 5(1)
      by (simp add: kvresponse_send_mem_def http_start_response_mem_def Let_def)
    then show ?thesis using 5(2) False by (simp add: send_drops_def)
  qed
qed

lemma request_send_memory:
  assumes h: "owns m0 m (request_blocks a k v req @ bs) n"
    and ag: "agrees k (req_key req)" "agrees v (req_val req)"
    and send: "kvrequest_send ws req fd = Some (out, r)"
  shows "\<exists>m'. kvrequest_send_mem ws (Some a) fd m = Some ((out, r), m')
     \<and> owns m0 m' (request_blocks a k v req @ bs)
         (n + send_drops (http_method_for_request_type (req_type req) \<noteq> None) r)"
proof -
  let ?rb = "request_blocks a k v req @ bs" and ?b = "KVRequest (req_type req) k v"
  have load: "mem_load (Some a) m = Some ?b" using h owns_load by (auto simp: request_blocks_def)
  have fields: "load_field k m = Some (req_key req)" "load_field v m = Some (req_val req)"
  proof -
    have "owns m0 m (chars_at k (req_key req) @ (a, ?b) # chars_at v (req_val req) @ bs) n"
      by (rule owns_perm [OF h]) (simp add: request_blocks_def)
    then show "load_field k m = Some (req_key req)" using ag(1) by (rule load_field_spec)
    have "owns m0 m (chars_at v (req_val req) @ (a, ?b) # chars_at k (req_key req) @ bs) n"
      by (rule owns_perm [OF h]) (simp add: request_blocks_def)
    then show "load_field v m = Some (req_val req)" using ag(2) by (rule load_field_spec)
  qed
  show ?thesis
  proof (cases "http_method_for_request_type (req_type req)")
    case None
    then show ?thesis using load send h by (auto simp: kvrequest_send_mem_def kvrequest_send_def send_drops_def)
  next
    case (Some verb)
    from method_valid [OF Some] have "is_valid_method verb" by simp
    then obtain u msg msg1 where
      u: "url_encode \<lparr>url_path = path_for_request_type (req_type req), key_param = req_key req, val_param = req_val req\<rparr> = Some u"
      "http_start_request fd verb u = Some (Some msg)" "http_end_headers msg = Some msg1"
      "http_send_and_free ws msg1 = Some (out, r)"
      using send Some by (auto simp: kvrequest_send_def http_start_request_def split: bind_splits option.splits)
    obtain x m1 where x: "malloc (Chars u) m = (x, m1)" by (cases "malloc (Chars u) m")
    obtain p q m2 where 2: "outbound_mem (Some msg) m1 = Some (Some p, m2)"
      "owns m0 m2 (outbound_blocks p q msg @ (x, Chars u) # ?rb) n"
      using outbound_memory [OF owns_malloc [OF h x]] by blast
    have "owns m0 m2 ((x, Chars u) # outbound_blocks p q msg @ ?rb) n" by (rule owns_perm [OF 2(2)]) simp
    from owns_free [OF this] obtain m3 where 3: "mem_free (Some x) m2 = Some m3"
      "owns m0 m3 (outbound_blocks p q msg @ ?rb) n" by blast
    obtain m4 where 4: "http_write_mem http_end_headers (Some p) m3 = Some m4" "owns m0 m4 (outbound_blocks p q msg1 @ ?rb) n"
      using http_write_memory [OF 3(2), of http_end_headers, OF u(3) out_fd_kept(1) [OF u(3)]] by blast
    obtain m5 where 5: "http_send_and_free_mem ws (Some p) m4 = Some ((out, r), m5)"
      "owns m0 m5 ?rb (n + (if r < 0 then 2 else 0))"
      using http_send_memory [OF 4(2) u(4)] by blast
    have "kvrequest_send_mem ws (Some a) fd m = Some ((out, r), m5)"
      using Some load fields u(1,2) x 2(1) 3(1) 4(1) 5(1)
      by (simp add: kvrequest_send_mem_def http_start_request_mem_def)
    then show ?thesis using 5(2) Some by (simp add: send_drops_def)
  qed
qed

end
