(* ===== verification/MessageMemory.thy ===== *)
theory MessageMemory
  imports KVOwnership KVScenario
begin

text \<open>
  The memory of a connection (\<open>kvserver_handle\<close> in hw4/src/kvserver.c) and of an exchange of the
  leader with a follower (in hw4/src/tpcleader.c): each frees the messages it allocates, once. The
  blocks that \<open>KVStore\<close> and \<open>TPCLog\<close> read their entries into are not part of it.
\<close>

subsection \<open>The handler of a follower's socket\<close>

text \<open>What a handler puts into \<open>res\<close>: the type, and a body that \<open>alloc_msg\<close> or \<open>kvstore_get\<close>
  has allocated.\<close>

definition set_response :: "ptr \<Rightarrow> kvresponse_t \<Rightarrow> memory \<Rightarrow> memory option" where
  "set_response res r m =
     (case res_body r of
        None \<Rightarrow> mem_store res (KVResponse (res_type r) None) m
      | Some s \<Rightarrow>
          let (body, m) = malloc (Chars s) m in mem_store res (KVResponse (res_type r) (Some body)) m)"

definition reply_send_mem :: "wire_io \<Rightarrow> int \<Rightarrow> ptr \<Rightarrow> reply \<Rightarrow> memory \<Rightarrow> (string \<times> memory) option" where
  "reply_send_mem io sockfd res r m =
     (case r of
        SendIndex \<Rightarrow> do { out \<leftarrow> index_send io False; Some (out, m) }
      | SendResponse x \<Rightarrow>
          do { m \<leftarrow> set_response res x m;
               ((out, _), m) \<leftarrow> kvresponse_send_mem (io_answer io) res sockfd m;
               Some (out, m) })"

definition follower_socket_mem ::
  "wire_io \<Rightarrow> kvnode \<Rightarrow> string \<Rightarrow> int \<Rightarrow> memory \<Rightarrow> ((kvnode \<times> string) \<times> memory) option" where
  "follower_socket_mem io nd bytes sockfd m =
     do { (req, m) \<leftarrow> kvrequest_recieve_mem bytes m;
          let (res, m) = malloc (KVResponse INDEX None) m in
          do { q \<leftarrow> load_request req m;
               (fs', s', r) \<leftarrow> kvserver_handle (nd_fs nd) (nd_srv nd) q;
               (out, m) \<leftarrow> reply_send_mem io sockfd (Some res) r m;
               m \<leftarrow> kvresponse_free (Some res) m;
               m \<leftarrow> kvrequest_free req m;
               Some ((nd\<lparr>nd_fs := fs', nd_srv := s'\<rparr>, out), m) } }"

text \<open>One connection after the other.\<close>

fun connections_mem ::
  "(wire_io \<times> string \<times> int) list \<Rightarrow> kvnode \<Rightarrow> memory \<Rightarrow> ((kvnode \<times> string list) \<times> memory) option" where
  "connections_mem [] nd m = Some ((nd, []), m)"
| "connections_mem ((io, bytes, fd) # cs) nd m =
     do { ((nd, out), m) \<leftarrow> follower_socket_mem io nd bytes fd m;
          ((nd, outs), m) \<leftarrow> connections_mem cs nd m;
          Some ((nd, out # outs), m) }"

fun connections :: "(wire_io \<times> string \<times> int) list \<Rightarrow> kvnode \<Rightarrow> (kvnode \<times> string list) option" where
  "connections [] nd = Some (nd, [])"
| "connections ((io, bytes, fd) # cs) nd =
     do { (nd, out) \<leftarrow> follower_socket io nd bytes fd;
          (nd, outs) \<leftarrow> connections cs nd;
          Some (nd, out # outs) }"

subsection \<open>A connection and an exchange\<close>

lemma set_response_memory:
  assumes "owns m0 m ((a, KVResponse t0 None) # bs) n"
  shows "\<exists>m' b. set_response (Some a) res m = Some m' \<and> owns m0 m' (response_blocks a b res @ bs) n
     \<and> agrees b (res_body res)"
proof (cases "res_body res")
  case None
  from owns_store [OF assms, of "KVResponse (res_type res) None"] None show ?thesis
    by (auto simp: set_response_def response_blocks_def intro!: exI [of _ None])
next
  case (Some s)
  obtain b m1 where b: "malloc (Chars s) m = (b, m1)" by (cases "malloc (Chars s) m")
  have "owns m0 m1 ((a, KVResponse t0 None) # (b, Chars s) # bs) n"
    by (rule owns_perm [OF owns_malloc [OF assms b]]) simp
  from owns_store [OF this, of "KVResponse (res_type res) (Some b)"] b Some show ?thesis
    by (auto simp: set_response_def response_blocks_def intro!: exI [of _ "Some b"])
qed

definition reply_drops :: "wire_io \<Rightarrow> int \<Rightarrow> reply \<Rightarrow> nat" where
  "reply_drops io sockfd r =
     (case r of
        SendIndex \<Rightarrow> 0
      | SendResponse res \<Rightarrow>
          (case kvresponse_send (io_answer io) res sockfd of
             None \<Rightarrow> 0
           | Some (_, k) \<Rightarrow> send_drops (0 \<le> http_code_for_response_type (res_type res)) k))"

lemma reply_send_memory:
  assumes h: "owns m0 m ((a, KVResponse INDEX None) # bs) n" and out: "reply_send io False fd r = Some out"
  shows "\<exists>m1 m2. reply_send_mem io fd (Some a) r m = Some (out, m1) \<and> kvresponse_free (Some a) m1 = Some m2
     \<and> owns m0 m2 bs (n + reply_drops io fd r)"
proof (cases r)
  case SendIndex
  have "owns m0 m (response_blocks a None \<lparr>res_type = INDEX, res_body = None\<rparr> @ bs) n"
    using h by (simp add: response_blocks_def)
  from kvresponse_free_spec [OF this] out SendIndex show ?thesis
    by (auto simp: reply_send_def reply_send_mem_def reply_drops_def)
next
  case (SendResponse res)
  then obtain k where k: "kvresponse_send (io_answer io) res fd = Some (out, k)"
    using out by (auto simp: reply_send_def)
  obtain m1 b where 1: "set_response (Some a) res m = Some m1" "owns m0 m1 (response_blocks a b res @ bs) n"
    "agrees b (res_body res)" using set_response_memory [OF h] by blast
  obtain m2 where 2: "kvresponse_send_mem (io_answer io) (Some a) fd m1 = Some ((out, k), m2)"
    "owns m0 m2 (response_blocks a b res @ bs) (n + send_drops (0 \<le> http_code_for_response_type (res_type res)) k)"
    using response_send_memory [OF 1(2,3) k] by blast
  from kvresponse_free_spec [OF 2(2)] show ?thesis using SendResponse k 1(1) 2(1)
    by (auto simp: reply_send_mem_def reply_drops_def)
qed

text \<open>What one connection leaves behind.\<close>

definition socket_drops :: "wire_io \<Rightarrow> kvnode \<Rightarrow> string \<Rightarrow> int \<Rightarrow> nat" where
  "socket_drops io nd bytes sockfd =
     request_drops bytes
     + (case kvserver_handle (nd_fs nd) (nd_srv nd) (kvrequest_recieve bytes) of
          None \<Rightarrow> 0
        | Some (_, _, r) \<Rightarrow> reply_drops io sockfd r)"

lemma follower_socket_memory:
  assumes h: "owns m0 m [] n" and run: "follower_socket io nd bytes fd = Some (nd', out)"
  shows "\<exists>m'. follower_socket_mem io nd bytes fd m = Some ((nd', out), m')
     \<and> owns m0 m' [] (n + socket_drops io nd bytes fd)"
proof -
  obtain fs' s' r where v: "kvserver_handle (nd_fs nd) (nd_srv nd) (kvrequest_recieve bytes) = Some (fs', s', r)"
    "reply_send io False fd r = Some out" "nd' = nd\<lparr>nd_fs := fs', nd_srv := s'\<rparr>"
    using run by (auto simp: follower_socket_def split: bind_splits)
  have drops: "socket_drops io nd bytes fd = request_drops bytes + reply_drops io fd r"
    using v(1) by (simp add: socket_drops_def)
  obtain p m1 where 1: "kvrequest_recieve_mem bytes m = Some (p, m1)"
    and q: "case kvrequest_recieve bytes of None \<Rightarrow> p = None \<and> owns m0 m1 [] (n + request_drops bytes)
        | Some req \<Rightarrow> \<exists>a k v. p = Some a \<and> agrees k (req_key req) \<and> agrees v (req_val req)
            \<and> owns m0 m1 (request_blocks a k v req @ []) (n + request_drops bytes)"
    using recieve_memory [OF h] by blast
  obtain a m2 where a: "malloc (KVResponse INDEX None) m1 = (a, m2)" by (cases "malloc (KVResponse INDEX None) m1")
  show ?thesis
  proof (cases "kvrequest_recieve bytes")
    case None
    then have p: "p = None" and h1: "owns m0 m1 [] (n + request_drops bytes)" using q by simp_all
    from reply_send_memory [OF owns_malloc [OF h1 a] v(2)] obtain m3 m4 where
      "reply_send_mem io fd (Some a) r m2 = Some (out, m3)" "kvresponse_free (Some a) m3 = Some m4"
      "owns m0 m4 [] (n + request_drops bytes + reply_drops io fd r)" by blast
    then show ?thesis using 1 p a None v(1,3) drops
      by (simp add: follower_socket_mem_def load_request_def kvrequest_free_def add.assoc)
  next
    case (Some req)
    then obtain b k w where p: "p = Some b" and ag: "agrees k (req_key req)" "agrees w (req_val req)"
      and h1: "owns m0 m1 (request_blocks b k w req @ []) (n + request_drops bytes)" using q by auto
    note h2 = owns_malloc [OF h1 a]
    have "owns m0 m2 (request_blocks b k w req @ [(a, KVResponse INDEX None)]) (n + request_drops bytes)"
      by (rule owns_perm [OF h2]) simp
    from load_request_spec [OF this ag] have load: "load_request (Some b) m2 = Some (Some req)" .
    from reply_send_memory [OF h2 v(2)] obtain m3 m4 where 4:
      "reply_send_mem io fd (Some a) r m2 = Some (out, m3)" "kvresponse_free (Some a) m3 = Some m4"
      "owns m0 m4 (request_blocks b k w req @ []) (n + request_drops bytes + reply_drops io fd r)" by blast
    from kvrequest_free_spec [OF 4(3)] obtain m5 where "kvrequest_free (Some b) m4 = Some m5"
      "owns m0 m5 [] (n + request_drops bytes + reply_drops io fd r)" by blast
    then show ?thesis using 1 p a Some load 4(1,2) v(1,3) drops
      by (simp add: follower_socket_mem_def add.assoc)
  qed
qed

fun connections_drops :: "(wire_io \<times> string \<times> int) list \<Rightarrow> kvnode \<Rightarrow> nat" where
  "connections_drops [] nd = 0"
| "connections_drops ((io, bytes, fd) # cs) nd =
     socket_drops io nd bytes fd
     + (case follower_socket io nd bytes fd of None \<Rightarrow> 0 | Some (nd, _) \<Rightarrow> connections_drops cs nd)"

lemma connections_memory:
  assumes "owns m0 m [] n" "connections cs nd = Some (nd', outs)"
  shows "\<exists>m'. connections_mem cs nd m = Some ((nd', outs), m') \<and> owns m0 m' [] (n + connections_drops cs nd)"
  using assms
proof (induction cs arbitrary: nd m n outs)
  case (Cons c cs)
  obtain io bytes fd where c: "c = (io, bytes, fd)" by (cases c)
  obtain nd1 out outs1 where 1: "follower_socket io nd bytes fd = Some (nd1, out)"
    "connections cs nd1 = Some (nd', outs1)" "outs = out # outs1"
    using Cons.prems(2) c by (auto split: bind_splits)
  obtain m1 where m1: "follower_socket_mem io nd bytes fd m = Some ((nd1, out), m1)"
    "owns m0 m1 [] (n + socket_drops io nd bytes fd)"
    using follower_socket_memory [OF Cons.prems(1) 1(1)] by blast
  from Cons.IH [OF m1(2) 1(2)] obtain m2 where "connections_mem cs nd1 m1 = Some ((nd', outs1), m2)"
    "owns m0 m2 [] (n + socket_drops io nd bytes fd + connections_drops cs nd1)" by blast
  then show ?case using c 1 m1(1) by (simp add: add.assoc)
qed simp

subsection \<open>Exchanges of the leader\<close>

text \<open>The leader sends the request of its client to a follower, reads the answer, looks at it and
  frees it; \<open>answer\<close> is what the follower sent.\<close>

definition exchange_mem ::
  "int list \<Rightarrow> ptr \<Rightarrow> int \<Rightarrow> string \<Rightarrow> memory \<Rightarrow> ((string \<times> kvresponse_t option) \<times> memory) option" where
  "exchange_mem ws req sockfd answer m =
     do { ((out, _), m) \<leftarrow> kvrequest_send_mem ws req sockfd m;
          (restmp, m) \<leftarrow> kvresponse_recieve_mem answer m;
          r \<leftarrow> load_response restmp m;
          m \<leftarrow> kvresponse_free restmp m;
          Some ((out, r), m) }"

fun exchanges_mem ::
  "(int list \<times> int \<times> string) list \<Rightarrow> ptr \<Rightarrow> memory \<Rightarrow> ((string \<times> kvresponse_t option) list \<times> memory) option" where
  "exchanges_mem [] req m = Some ([], m)"
| "exchanges_mem ((ws, fd, answer) # xs) req m =
     do { (r, m) \<leftarrow> exchange_mem ws req fd answer m;
          (rs, m) \<leftarrow> exchanges_mem xs req m;
          Some (r # rs, m) }"

fun exchanges :: "(int list \<times> int \<times> string) list \<Rightarrow> kvrequest_t \<Rightarrow> (string \<times> kvresponse_t option) list option" where
  "exchanges [] req = Some []"
| "exchanges ((ws, fd, answer) # xs) req =
     do { (out, _) \<leftarrow> kvrequest_send ws req fd;
          r \<leftarrow> kvresponse_recieve answer;
          rs \<leftarrow> exchanges xs req;
          Some ((out, r) # rs) }"

definition exchange_drops :: "kvrequest_t \<Rightarrow> int list \<times> int \<times> string \<Rightarrow> nat" where
  "exchange_drops req x =
     (case x of (ws, fd, answer) \<Rightarrow>
        (case kvrequest_send ws req fd of
           None \<Rightarrow> 0
         | Some (_, k) \<Rightarrow> send_drops (http_method_for_request_type (req_type req) \<noteq> None) k))"

lemma exchange_memory:
  assumes h: "owns m0 m (request_blocks a k v req @ bs) n" and ag: "agrees k (req_key req)" "agrees v (req_val req)"
    and send: "kvrequest_send ws req fd = Some (out, l)" and ans: "kvresponse_recieve answer = Some r"
  shows "\<exists>m'. exchange_mem ws (Some a) fd answer m = Some ((out, r), m')
     \<and> owns m0 m' (request_blocks a k v req @ bs) (n + exchange_drops req (ws, fd, answer))"
proof -
  let ?rb = "request_blocks a k v req @ bs" and ?n = "n + exchange_drops req (ws, fd, answer)"
  obtain m1 where 1: "kvrequest_send_mem ws (Some a) fd m = Some ((out, l), m1)" "owns m0 m1 ?rb ?n"
    using request_send_memory [OF h ag send] send by (auto simp: exchange_drops_def)
  obtain p m2 where 2: "kvresponse_recieve_mem answer m1 = Some (p, m2)"
    and p: "case r of None \<Rightarrow> p = None \<and> owns m0 m2 ?rb ?n
        | Some res \<Rightarrow> \<exists>c b. p = Some c \<and> agrees b (res_body res) \<and> owns m0 m2 (response_blocks c b res @ ?rb) ?n"
    using recieve_response_memory [OF 1(2) ans] by blast
  show ?thesis
  proof (cases r)
    case None
    then show ?thesis using p 1(1) 2 by (simp add: exchange_mem_def load_response_def kvresponse_free_def)
  next
    case (Some res)
    then obtain c b where c: "p = Some c" "agrees b (res_body res)" "owns m0 m2 (response_blocks c b res @ ?rb) ?n"
      using p by auto
    from kvresponse_free_spec [OF c(3)] load_response_spec [OF c(3,2)] Some 1(1) 2 c(1) show ?thesis
      by (auto simp: exchange_mem_def)
  qed
qed

lemma exchanges_memory:
  assumes "owns m0 m (request_blocks a k v req @ bs) n" "agrees k (req_key req)" "agrees v (req_val req)"
    and "exchanges xs req = Some rs"
  shows "\<exists>m'. exchanges_mem xs (Some a) m = Some (rs, m')
     \<and> owns m0 m' (request_blocks a k v req @ bs) (n + sum_list (map (exchange_drops req) xs))"
  using assms(1,4)
proof (induction xs arbitrary: m n rs)
  case (Cons x xs)
  obtain ws fd answer where x: "x = (ws, fd, answer)" by (cases x)
  obtain out l r rs' where 1: "kvrequest_send ws req fd = Some (out, l)" "kvresponse_recieve answer = Some r"
    "exchanges xs req = Some rs'" "rs = (out, r) # rs'"
    using Cons.prems(2) x by (auto split: bind_splits)
  obtain m1 where m1: "exchange_mem ws (Some a) fd answer m = Some ((out, r), m1)"
    "owns m0 m1 (request_blocks a k v req @ bs) (n + exchange_drops req x)"
    using exchange_memory [OF Cons.prems(1) assms(2,3) 1(1,2)] x by auto
  from Cons.IH [OF m1(2) 1(3)] m1(1) 1(4) x show ?case by (auto simp: add.assoc)
qed simp

subsection \<open>Requests of the store's own clients drop nothing\<close>

lemma response_send_succeeds:
  assumes "\<forall>w \<in> set ws. 0 \<le> w" "kvresponse_send ws res fd = Some (out, r)"
  shows "send_drops (0 \<le> http_code_for_response_type (res_type res)) r = 0"
proof (cases "0 \<le> http_code_for_response_type (res_type res)")
  case True
  then obtain msg where msg: "http_send_and_free ws msg = Some (out, r)"
    using assms(2) response_started [OF True, of fd]
    by (auto simp: kvresponse_send_def Let_def split: bind_splits option.splits)
  show ?thesis using send_succeeds [OF assms(1) msg] by (simp add: send_drops_def)
qed (simp add: send_drops_def)

lemma reply_succeeds: "io_ok io \<Longrightarrow> reply_drops io fd r = 0"
  using response_send_succeeds [of "io_answer io"]
  by (auto simp: reply_drops_def io_ok_def split: reply.split option.split)

lemma request_send_succeeds:
  assumes "io_ok io" "kvrequest_send (io_request io) req fd = Some (out, r)"
    and "http_method_for_request_type (req_type req) = Some method"
  shows "0 \<le> r"
proof -
  obtain msg where msg: "http_send_and_free (io_request io) msg = Some (out, r)"
    using assms(2,3) method_valid [OF assms(3)]
    by (auto simp: kvrequest_send_def http_start_request_def split: bind_splits option.splits)
  have "\<forall>w \<in> set (io_request io). 0 \<le> w" using assms(1) by (simp add: io_ok_def)
  from send_succeeds [OF this msg] show ?thesis .
qed

lemma sent_request_drops:
  assumes s: "sendable req" and out: "kvrequest_send ws req fd = Some (bytes, r)" "0 \<le> r"
  shows "request_drops bytes = 0"
proof -
  obtain m url where mu: "http_method_for_request_type (req_type req) = Some m" "request_url req = Some url"
    using s by (auto simp: sendable_def)
  have p: "pred_option plain (req_key req)" "pred_option plain (req_val req)"
    using s by (auto simp: sendable_def)
  have "url_drops url = 0"
  proof (rule encoded_url_drops [OF mu(2) [unfolded request_url_def]])
    show "url_safe \<lparr>url_path = path_for_request_type (req_type req), key_param = req_key req, val_param = req_val req\<rparr>"
      using p by (rule request_url_safe)
  qed
  then show ?thesis using sent_request_parses [OF mu p out] by (simp add: request_drops_def)
qed

subsection \<open>Properties\<close>

text \<open>C25: a follower frees what it allocates for its connections, once, and uses nothing it has freed.
  Whatever bytes it is sent, its handler with its memory does what the handler without memory does;
  after any number of connections memory is as before, but for the values of parameters that came
  twice in a URL, which are lost, and two blocks for each answer whose \<open>write\<close> failed.\<close>

theorem follower_frees_messages:
  assumes "mem_ok m" and "connections cs nd = Some (nd', outs)"
  shows "\<exists>m'. connections_mem cs nd m = Some ((nd', outs), m') \<and> leaked m m' (connections_drops cs nd)"
proof -
  from connections_memory [OF owns_refl [OF assms(1)] assms(2)] obtain m' where
    "connections_mem cs nd m = Some ((nd', outs), m')" "owns m m' [] (connections_drops cs nd)" by auto
  then show ?thesis using owns_nothing [OF assms(1)] by blast
qed

definition empty_memory :: memory where
  "empty_memory = \<lparr>mem_blocks = Map.empty, mem_next = 0\<rparr>"

definition io_one :: wire_io where
  "io_one = \<lparr>io_payload = [], io_request = [8192], io_answer = [8192], io_line = 0\<rparr>"

lemma io_one_ok: "io_ok io_one"
  by (simp add: io_one_def io_ok_def)

lemma repeated_key_parse:
  "http_request_parse ''PUT /?key=a&key=b HTTP/1.1'' = Some \<lparr>http_method = ''PUT'', http_path = ''/?key=a&key=b''\<rparr>"
  using http_request_parse_line [of "''PUT''" "''?key=a&key=b''" "CHR '' ''" "''HTTP/1.1''"]
  by (simp add: LF_def NUL_def LIBHTTP_MESSAGE_MAX_SIZE_def)

lemma repeated_key_decode:
  "url_decode ''/?key=a&key=b'' = \<lparr>url_path = None, key_param = Some ''b'', val_param = None\<rparr>"
  "url_drops ''/?key=a&key=b'' = 1"
proof -
  let ?q = "''key='' @ ''a'' @ ''&'' @ ''key='' @ ''b''"
  have u: "''/?key=a&key=b'' = ''/'' @ [] @ ''?'' @ ?q" by simp
  have "url_decode (''/'' @ [] @ ''?'' @ ?q) = \<lparr>url_path = None, key_param = Some ''b'', val_param = None\<rparr>"
    by (subst decode_query, simp, subst decode_key(2), simp, subst decode_key(1)) simp_all
  then show "url_decode ''/?key=a&key=b'' = \<lparr>url_path = None, key_param = Some ''b'', val_param = None\<rparr>"
    unfolding u .
  have "param_drops (''key='' @ ''b'') (no_params\<lparr>key_param := Some ''a''\<rparr>) = 1"
    using drops_last [of "''key''" "''b''" KeyParam] by (simp add: param_ptr_def)
  moreover have "param_drops ?q no_params = param_drops (''key='' @ ''b'') (no_params\<lparr>key_param := Some ''a''\<rparr>)"
    by (rule encoded_key_drops(2)) (simp_all add: no_params_def)
  ultimately have "url_drops (''/'' @ [] @ ''?'' @ ?q) = 1" by (subst query_drops) simp_all
  then show "url_drops ''/?key=a&key=b'' = 1" unfolding u .
qed

lemma repeated_key_request: "kvrequest_recieve ''PUT /?key=a&key=b HTTP/1.1'' = None"
  by (simp add: kvrequest_recieve_def repeated_key_parse repeated_key_decode(1) request_type_def)

text \<open>Here the key comes twice; one block is lost.\<close>

lemma follower_frees_messages_witness:
  "\<exists>out m'. connections_mem [(io_one, ''PUT /?key=a&key=b HTTP/1.1'', 5)] node0 empty_memory
       = Some ((node0, [out]), m')
     \<and> leaked empty_memory m' 1"
proof -
  let ?b = "''PUT /?key=a&key=b HTTP/1.1''"
  let ?res = "mk_res ERROR (Some ERRMSG_INVALID_REQUEST)"
  have h: "kvserver_handle (nd_fs node0) (nd_srv node0) (kvrequest_recieve ?b)
      = Some (nd_fs node0, nd_srv node0, SendResponse ?res)"
    unfolding repeated_key_request by (simp add: kvserver_handle_def)
  have "pred_option (\<lambda>b. length b \<le> 8000) (res_body ?res)" by (simp add: ERRMSG_INVALID_REQUEST_def)
  then obtain out where "kvresponse_send (io_answer io_one) ?res 5 = Some (out, int (length out))"
    using kvresponse_send_whole [of ?res "io_answer io_one" 5] by (auto simp: io_one_def)
  then have run: "connections [(io_one, ?b, 5)] node0 = Some (node0, [out])"
    using h by (simp add: follower_socket_def reply_send_def)
  have "connections_drops [(io_one, ?b, 5)] node0 = 1"
    using h run repeated_key_parse repeated_key_decode(2) reply_succeeds [OF io_one_ok]
    by (simp add: socket_drops_def request_drops_def split: option.split)
  moreover have "mem_ok empty_memory" by (simp add: empty_memory_def mem_ok_def)
  ultimately show ?thesis using follower_frees_messages [OF _ run, of empty_memory] by auto
qed

text \<open>C26: what the leader and its followers send each other leaves nothing behind. When the strings of
  a request hold no separator and no \<open>write\<close> fails, the exchange of the bytes ends with the memory of
  the leader and of the follower as they were: every block either of them allocated is free again,
  and the request the leader owns is still there for the next follower.\<close>

theorem exchange_leaves_nothing:
  assumes "byte_exchange io nd req fd1 fd2 = Some (nd', r)" "sendable req" "io_ok io"
    and "mem_ok mf" "owns m0 ml (request_blocks a k v req @ bs) 0" "agrees k (req_key req)" "agrees v (req_val req)"
  shows "\<exists>bytes answer ml' mf'.
       exchange_mem (io_request io) (Some a) fd1 answer ml = Some ((bytes, r), ml')
     \<and> follower_socket_mem io nd bytes fd2 mf = Some ((nd', answer), mf')
     \<and> mem_blocks ml' = mem_blocks ml \<and> mem_blocks mf' = mem_blocks mf"
proof -
  obtain bytes l answer where x: "kvrequest_send (io_request io) req fd1 = Some (bytes, l)"
    "follower_socket io nd bytes fd2 = Some (nd', answer)" "kvresponse_recieve answer = Some r"
    using assms(1) by (auto simp: byte_exchange_def split: bind_splits)
  obtain m where m: "http_method_for_request_type (req_type req) = Some m" using assms(2) by (auto simp: sendable_def)
  have l: "0 \<le> l" by (rule request_send_succeeds [OF assms(3) x(1) m])
  then have "exchange_drops req (io_request io, fd1, answer) = 0"
    using x(1) by (simp add: exchange_drops_def send_drops_def)
  with exchange_memory [OF assms(5-7) x(1,3)] obtain ml' where
    ml: "exchange_mem (io_request io) (Some a) fd1 answer ml = Some ((bytes, r), ml')"
    "owns m0 ml' (request_blocks a k v req @ bs) 0" by auto
  have "socket_drops io nd bytes fd2 = 0"
    using sent_request_drops [OF assms(2) x(1) l] reply_succeeds [OF assms(3)]
    by (simp add: socket_drops_def split: option.split)
  with follower_socket_memory [OF owns_refl [OF assms(4)] x(2)] obtain mf' where
    mf: "follower_socket_mem io nd bytes fd2 mf = Some ((nd', answer), mf')" "owns mf mf' [] 0" by auto
  have "mem_blocks mf' = mem_blocks mf" by (rule leaked_0 [OF owns_nothing [OF assms(4) mf(2)]])
  then show ?thesis using ml(1) mf(1) owns_same_blocks [OF ml(2) assms(5)] by blast
qed

text \<open>The leader has a COMMIT to send, and the follower has nothing prepared.\<close>

lemma exchange_leaves_nothing_witness:
  "\<exists>a ml bytes answer ml' mf'. malloc (KVRequest COMMIT None None) empty_memory = (a, ml)
     \<and> exchange_mem [8192] (Some a) 5 answer ml = Some ((bytes, Some (wire (mk_res ACK None))), ml')
     \<and> follower_socket_mem io_one node0 bytes 6 empty_memory = Some ((node0, answer), mf')
     \<and> mem_blocks ml' = mem_blocks ml \<and> mem_blocks mf' = mem_blocks empty_memory"
proof -
  obtain a ml where a: "malloc (KVRequest COMMIT None None) empty_memory = (a, ml)"
    by (cases "malloc (KVRequest COMMIT None None) empty_memory")
  have ok: "mem_ok empty_memory" by (simp add: empty_memory_def mem_ok_def)
  have req: "owns empty_memory ml (request_blocks a None None (decision True) @ []) 0"
    using owns_malloc [OF owns_refl [OF ok] a] by (simp add: request_blocks_def decision_def)
  have send: "sendable (decision True)"
    by (simp add: sendable_def decision_def request_complete_def request_url_def url_encode_def)
  have h: "kvserver_handle (nd_fs node0) (nd_srv node0) (Some (decision True))
      = Some (nd_fs node0, nd_srv node0, SendResponse (mk_res ACK None))"
    by (simp add: kvserver_handle_def kvserver_handle_tpc_def decision_def node0_def srv0_def)
  obtain bytes where b: "kvrequest_send (io_request io_one) (decision True) 5 = Some (bytes, int (length bytes))"
    "kvrequest_recieve bytes = Some (decision True)"
    using request_arrives [OF send io_one_ok] by blast
  obtain out where "reply_send io_one False 6 (SendResponse (mk_res ACK None)) = Some out"
    "kvresponse_recieve out = Some (Some (wire (mk_res ACK None)))"
    using response_arrives [of "mk_res ACK None" io_one False 6] io_one_ok by auto
  with b h have x: "byte_exchange io_one node0 (decision True) 5 6 = Some (node0, Some (wire (mk_res ACK None)))"
    by (simp add: byte_exchange_def follower_socket_def)
  have "agrees None (req_key (decision True))" "agrees None (req_val (decision True))"
    by (simp_all add: decision_def)
  from exchange_leaves_nothing [OF x send io_one_ok ok req this] a show ?thesis
    by (simp add: io_one_def)
qed

end
