(* ===== verification/WorkQueue.thy ===== *)
theory WorkQueue
  imports CPrelude
begin

text \<open>
  The work queue of hw4 (hw4/src/wq.c): a doubly linked list with the macros \<open>DL_APPEND\<close> and
  \<open>DL_DELETE\<close> of utlist.h, where \<open>prev\<close> of the head is the last item. The mutex makes each
  operation one step; \<open>wq_pop\<close> waits on the condition variable while \<open>size\<close> is 0.

  \<open>wq_rel h wq ps xs\<close> says that the items at \<open>ps\<close> hold the jobs \<open>xs\<close> in order. The locale
  \<open>job_queue\<close> is what the server relies on; the queue of the code provides it.
\<close>

record wq_item =
  wi_item :: int
  wi_next :: "nat option"
  wi_prev :: "nat option"

type_synonym wq_heap = "nat \<rightharpoonup> wq_item"

record wq_t =
  wq_size :: int
  wq_head :: "nat option"

definition wq_init :: wq_t where
  "wq_init = \<lparr>wq_size = 0, wq_head = None\<rparr>"

text \<open>Setting a field through a pointer.\<close>

definition set_item :: "wq_heap \<Rightarrow> nat option \<Rightarrow> (wq_item \<Rightarrow> wq_item) \<Rightarrow> wq_heap option" where
  "set_item h p f = do { a \<leftarrow> p; v \<leftarrow> h a; Some (h(a \<mapsto> f v)) }"

definition get_item :: "wq_heap \<Rightarrow> nat option \<Rightarrow> wq_item option" where
  "get_item h p = do { a \<leftarrow> p; h a }"

text \<open>The macros; they return the heap and the new head.\<close>

definition DL_APPEND :: "wq_heap \<Rightarrow> nat option \<Rightarrow> nat \<Rightarrow> (wq_heap \<times> nat option) option" where
  "DL_APPEND h head add =
     (case head of
        Some hd_addr \<Rightarrow>
          do { v \<leftarrow> get_item h head;
               h1 \<leftarrow> set_item h (Some add) (wi_prev_update (\<lambda>_. wi_prev v));
               v1 \<leftarrow> get_item h1 head;
               h2 \<leftarrow> set_item h1 (wi_prev v1) (wi_next_update (\<lambda>_. Some add));
               h3 \<leftarrow> set_item h2 head (wi_prev_update (\<lambda>_. Some add));
               h4 \<leftarrow> set_item h3 (Some add) (wi_next_update (\<lambda>_. None));
               Some (h4, head) }
      | None \<Rightarrow>
          do { h1 \<leftarrow> set_item h (Some add) (wi_prev_update (\<lambda>_. Some add));
               h2 \<leftarrow> set_item h1 (Some add) (wi_next_update (\<lambda>_. None));
               Some (h2, Some add) })"

definition DL_DELETE :: "wq_heap \<Rightarrow> nat option \<Rightarrow> nat option \<Rightarrow> (wq_heap \<times> nat option) option" where
  "DL_DELETE h head del =
     do { d \<leftarrow> get_item h del;
          if wi_prev d = None then None
          else if wi_prev d = del then Some (h, None)
          else if del = head then
            do { h1 \<leftarrow> set_item h (wi_next d) (wi_prev_update (\<lambda>_. wi_prev d));
                 d1 \<leftarrow> get_item h1 del;
                 Some (h1, wi_next d1) }
          else
            do { h1 \<leftarrow> set_item h (wi_prev d) (wi_next_update (\<lambda>_. wi_next d));
                 d1 \<leftarrow> get_item h1 del;
                 h2 \<leftarrow> (case wi_next d1 of
                     Some n \<Rightarrow> set_item h1 (Some n) (wi_prev_update (\<lambda>_. wi_prev d1))
                   | None \<Rightarrow> set_item h1 head (wi_prev_update (\<lambda>_. wi_prev d1)));
                 Some (h2, head) } }"

text \<open>\<open>calloc\<close> gives the address \<open>new\<close>, not in use; \<open>size\<close> is an \<open>int\<close>.\<close>

definition wq_push :: "wq_heap \<times> wq_t \<Rightarrow> nat \<Rightarrow> int \<Rightarrow> (wq_heap \<times> wq_t) option" where
  "wq_push q new item =
     (case q of (h, wq) \<Rightarrow>
        do { (h', head) \<leftarrow> DL_APPEND (h(new \<mapsto> \<lparr>wi_item = item, wi_next = None, wi_prev = None\<rparr>)) (wq_head wq) new;
             if wq_size wq = 2 ^ 31 - 1 then None
             else Some (h', wq\<lparr>wq_head := head, wq_size := wq_size wq + 1\<rparr>) })"

text \<open>The condition \<open>wq_pop\<close> waits for, and what it does then.\<close>

definition wq_ready :: "wq_heap \<times> wq_t \<Rightarrow> bool" where
  "wq_ready q \<longleftrightarrow> wq_size (snd q) \<noteq> 0"

definition wq_pop :: "wq_heap \<times> wq_t \<Rightarrow> (int \<times> wq_heap \<times> wq_t) option" where
  "wq_pop q =
     (case q of (h, wq) \<Rightarrow>
        do { a \<leftarrow> wq_head wq;
             v \<leftarrow> h a;
             (h', head) \<leftarrow> DL_DELETE h (wq_head wq) (wq_head wq);
             Some (wi_item v, h'(a := None), wq\<lparr>wq_size := wq_size wq - 1, wq_head := head\<rparr>) })"

subsection \<open>The list behind the queue\<close>

definition wq_rel :: "wq_heap \<Rightarrow> wq_t \<Rightarrow> nat list \<Rightarrow> int list \<Rightarrow> bool" where
  "wq_rel h wq ps xs \<longleftrightarrow>
     length ps = length xs \<and> distinct ps \<and> wq_size wq = int (length xs)
     \<and> wq_head wq = (if ps = [] then None else Some (hd ps))
     \<and> (\<forall>i < length ps. h (ps ! i) = Some
          \<lparr>wi_item = xs ! i, wi_next = (if Suc i < length ps then Some (ps ! Suc i) else None),
           wi_prev = Some (if i = 0 then last ps else ps ! (i - 1))\<rparr>)"

lemma wq_rel_init [simp]: "wq_rel h wq_init [] []"
  by (simp add: wq_rel_def wq_init_def)

lemma wq_rel_push:
  assumes r: "wq_rel h wq ps xs" and new: "new \<notin> set ps" and room: "int (length xs) < 2 ^ 31 - 1"
  shows "\<exists>h' wq'. wq_push (h, wq) new x = Some (h', wq') \<and> wq_rel h' wq' (ps @ [new]) (xs @ [x])"
proof (cases "ps = []")
  case True
  then show ?thesis using r room
    by (simp add: wq_rel_def wq_push_def DL_APPEND_def set_item_def)
next
  case False
  let ?n = "length ps"
  have item: "h (ps ! i) = Some \<lparr>wi_item = xs ! i,
      wi_next = (if Suc i < ?n then Some (ps ! Suc i) else None),
      wi_prev = Some (if i = 0 then last ps else ps ! (i - 1))\<rparr>" if "i < ?n" for i
    using r that by (simp add: wq_rel_def)
  have hd: "hd ps = ps ! 0" "last ps = ps ! (?n - 1)" "0 < ?n" using False by (simp_all add: hd_conv_nth last_conv_nth)
  have head: "wq_head wq = Some (ps ! 0)" using r False hd by (simp add: wq_rel_def)
  have ne: "ps ! i \<noteq> new" if "i < ?n" for i using new that by auto
  have dist: "ps ! i = ps ! j \<longleftrightarrow> i = j" if "i < ?n" "j < ?n" for i j
    using r that by (simp add: wq_rel_def nth_eq_iff_index_eq)
  let ?h0 = "h(new \<mapsto> \<lparr>wi_item = x, wi_next = None, wi_prev = None\<rparr>)"
  let ?h1 = "h(new \<mapsto> \<lparr>wi_item = x, wi_next = None, wi_prev = Some (last ps)\<rparr>)"
  let ?h2 = "?h1(last ps \<mapsto> (the (h (last ps)))\<lparr>wi_next := Some new\<rparr>)"
  let ?h3 = "?h2(ps ! 0 \<mapsto> (the (?h2 (ps ! 0)))\<lparr>wi_prev := Some new\<rparr>)"
  have "DL_APPEND ?h0 (wq_head wq) new = Some (?h3, wq_head wq)"
    using head item [of 0] item [of "?n - 1"] ne [of 0] ne [of "?n - 1"] hd
    by (auto simp: DL_APPEND_def set_item_def get_item_def fun_upd_twist)
  then have p: "wq_push (h, wq) new x = Some (?h3, wq\<lparr>wq_size := wq_size wq + 1\<rparr>)"
    using r room by (simp add: wq_push_def wq_rel_def)
  have old: "?h3 (ps ! i) = Some \<lparr>wi_item = xs ! i, wi_next = Some ((ps @ [new]) ! Suc i),
      wi_prev = Some (if i = 0 then new else ps ! (i - 1))\<rparr>" if i: "i < ?n" for i
  proof (cases "Suc i < ?n")
    case True
    then have "ps ! i \<noteq> last ps" using hd dist i by auto
    then show ?thesis using item [OF i] item [of 0] ne [OF i] ne [of 0] dist [OF i, of 0] hd True i
      by (auto simp: nth_append)
  next
    case False
    then have "i = ?n - 1" using i by simp
    then show ?thesis using item [OF i] ne [OF i] dist [OF i, of 0] hd i
      by (auto simp: nth_append)
  qed
  have "new \<noteq> last ps" "new \<noteq> ps ! 0" using hd ne [of 0] ne [of "?n - 1"] by auto
  then have newest: "?h3 new = Some \<lparr>wi_item = x, wi_next = None, wi_prev = Some (last ps)\<rparr>" by simp
  have "wq_rel ?h3 (wq\<lparr>wq_size := wq_size wq + 1\<rparr>) (ps @ [new]) (xs @ [x])"
    unfolding wq_rel_def
  proof (intro conjI allI impI)
    fix i assume i: "i < length (ps @ [new])"
    show "?h3 ((ps @ [new]) ! i) = Some
      \<lparr>wi_item = (xs @ [x]) ! i,
       wi_next = (if Suc i < length (ps @ [new]) then Some ((ps @ [new]) ! Suc i) else None),
       wi_prev = Some (if i = 0 then last (ps @ [new]) else (ps @ [new]) ! (i - 1))\<rparr>"
    proof (cases "i < ?n")
      case True
      then show ?thesis using old [OF True] r by (auto simp: nth_append wq_rel_def)
    next
      case False
      then have i: "i = ?n" using i by simp
      have a: "(ps @ [new]) ! i = new" "(xs @ [x]) ! i = x" using i r by (simp_all add: wq_rel_def nth_append)
      show ?thesis unfolding a newest using hd i by (simp add: nth_append)
    qed
  qed (use r new head hd False in \<open>auto simp: wq_rel_def\<close>)
  then show ?thesis using p by blast
qed

lemma wq_rel_pop:
  assumes r: "wq_rel h wq ps (x # xs)"
  shows "\<exists>p ps' h' wq'. ps = p # ps' \<and> wq_pop (h, wq) = Some (x, h', wq') \<and> wq_rel h' wq' ps' xs"
proof -
  obtain p qs where ps: "ps = p # qs" using r by (cases ps) (simp_all add: wq_rel_def)
  have item: "h (ps ! i) = Some \<lparr>wi_item = (x # xs) ! i,
      wi_next = (if Suc i < length ps then Some (ps ! Suc i) else None),
      wi_prev = Some (if i = 0 then last ps else ps ! (i - 1))\<rparr>" if "i < length ps" for i
    using r that by (simp add: wq_rel_def)
  have head: "wq_head wq = Some p" using r ps by (simp add: wq_rel_def)
  have i0: "h p = Some \<lparr>wi_item = x, wi_next = (if qs = [] then None else Some (hd qs)), wi_prev = Some (last ps)\<rparr>"
    using item [of 0] ps by (cases qs) simp_all
  show ?thesis
  proof (cases qs)
    case Nil
    then have "xs = []" using r ps by (simp add: wq_rel_def)
    then show ?thesis using ps Nil i0 head r
      by (simp add: wq_pop_def DL_DELETE_def get_item_def wq_rel_def)
  next
    case (Cons q qs')
    let ?h' = "(h(q \<mapsto> \<lparr>wi_item = hd xs, wi_next = (if qs' = [] then None else Some (hd qs')), wi_prev = Some (last ps)\<rparr>))(p := None)"
    have "last ps \<noteq> p" using r ps Cons by (auto simp: wq_rel_def)
    moreover have i1: "h q = Some \<lparr>wi_item = hd xs, wi_next = (if qs' = [] then None else Some (hd qs')), wi_prev = Some p\<rparr>"
      using item [of 1] ps Cons r by (cases qs'; cases xs) (auto simp: wq_rel_def)
    moreover have pq: "p \<noteq> q" "p \<notin> set qs" "distinct qs" using r ps Cons by (auto simp: wq_rel_def)
    ultimately have pop: "wq_pop (h, wq) = Some (x, ?h', wq\<lparr>wq_size := wq_size wq - 1, wq_head := Some q\<rparr>)"
      using head i0 Cons by (simp add: wq_pop_def DL_DELETE_def get_item_def set_item_def)
    have "wq_rel ?h' (wq\<lparr>wq_size := wq_size wq - 1, wq_head := Some q\<rparr>) qs xs"
      unfolding wq_rel_def
    proof (intro conjI allI impI)
      fix i assume i: "i < length qs"
      have it: "h (qs ! i) = Some \<lparr>wi_item = xs ! i,
        wi_next = (if Suc i < length qs then Some (qs ! Suc i) else None), wi_prev = Some (ps ! i)\<rparr>"
        using item [of "Suc i"] ps i by auto
      have "qs ! i \<noteq> p" using pq(2) i by auto
      moreover have "qs ! i = q \<longleftrightarrow> i = 0" using pq(3) Cons i nth_eq_iff_index_eq [OF pq(3), of i 0] by auto
      ultimately show "?h' (qs ! i) = Some \<lparr>wi_item = xs ! i,
        wi_next = (if Suc i < length qs then Some (qs ! Suc i) else None),
        wi_prev = Some (if i = 0 then last qs else qs ! (i - 1))\<rparr>"
        using it i1 ps Cons i by (auto simp: nth_Cons')
    qed (use r ps Cons pq in \<open>auto simp: wq_rel_def\<close>)
    then show ?thesis using ps pop by blast
  qed
qed

lemma wq_ready_iff: "wq_rel h wq ps xs \<Longrightarrow> wq_ready (h, wq) \<longleftrightarrow> xs \<noteq> []"
  by (auto simp: wq_rel_def wq_ready_def)


subsection \<open>The interface\<close>

record 'q queue_ops =
  qo_push :: "'q \<Rightarrow> nat \<Rightarrow> int \<Rightarrow> 'q option"
  qo_ready :: "'q \<Rightarrow> bool"
  qo_pop :: "'q \<Rightarrow> (int \<times> 'q) option"

locale job_queue =
  fixes ops :: "'q queue_ops"
    and jobs :: "'q \<Rightarrow> int list \<Rightarrow> bool"
    and unused :: "'q \<Rightarrow> nat \<Rightarrow> bool"
  assumes push_law: "jobs q xs \<Longrightarrow> unused q new \<Longrightarrow> int (length xs) < 2 ^ 31 - 1 \<Longrightarrow>
      \<exists>q'. qo_push ops q new x = Some q' \<and> jobs q' (xs @ [x])"
    and pop_law: "jobs q (x # xs) \<Longrightarrow> \<exists>q'. qo_pop ops q = Some (x, q') \<and> jobs q' xs"
    and ready_law: "jobs q xs \<Longrightarrow> qo_ready ops q \<longleftrightarrow> xs \<noteq> []"

definition wq_ops :: "(wq_heap \<times> wq_t) queue_ops" where
  "wq_ops = \<lparr>qo_push = wq_push, qo_ready = wq_ready, qo_pop = wq_pop\<rparr>"

definition wq_jobs :: "wq_heap \<times> wq_t \<Rightarrow> int list \<Rightarrow> bool" where
  "wq_jobs q xs \<longleftrightarrow> (\<exists>ps. wq_rel (fst q) (snd q) ps xs)"

definition wq_unused :: "wq_heap \<times> wq_t \<Rightarrow> nat \<Rightarrow> bool" where
  "wq_unused q new \<longleftrightarrow> fst q new = None"

lemma wq_rel_addr: "wq_rel h wq ps xs \<Longrightarrow> h a = None \<Longrightarrow> a \<notin> set ps"
  by (auto simp: wq_rel_def in_set_conv_nth)

interpretation wq: job_queue wq_ops wq_jobs wq_unused
proof unfold_locales
  fix q :: "wq_heap \<times> wq_t" and xs new x
  assume "wq_jobs q xs" "wq_unused q new" "int (length xs) < 2 ^ 31 - 1"
  then show "\<exists>q'. qo_push wq_ops q new x = Some q' \<and> wq_jobs q' (xs @ [x])"
    using wq_rel_push [of "fst q" "snd q" _ xs new x] wq_rel_addr
    by (fastforce simp: wq_jobs_def wq_unused_def wq_ops_def)
next
  fix q :: "wq_heap \<times> wq_t" and xs x
  assume "wq_jobs q (x # xs)"
  then show "\<exists>q'. qo_pop wq_ops q = Some (x, q') \<and> wq_jobs q' xs"
    using wq_rel_pop [of "fst q" "snd q" _ x xs] by (fastforce simp: wq_jobs_def wq_ops_def)
next
  fix q :: "wq_heap \<times> wq_t" and xs
  assume "wq_jobs q xs"
  then show "qo_ready wq_ops q \<longleftrightarrow> xs \<noteq> []"
    using wq_ready_iff [of "fst q" "snd q"] by (auto simp: wq_jobs_def wq_ops_def)
qed

end
