(* ===== verification/SocketServer.thy ===== *)
theory SocketServer
  imports WorkQueue Descriptors "HOL-Library.Multiset"
begin

text \<open>
  The threads of a server of hw4 (hw4/src/socket_server.c): the main thread accepts sockets and
  pushes them on the work queue, \<open>max_threads\<close> workers take them, handle and close them, and
  \<open>server_stop\<close> ends the loops. One event is one step of one thread; the handler of a socket is
  what KVServer and TPCLeader model. Threads can always be created.

  \<open>sv_accepted\<close>, \<open>sv_taken\<close> and \<open>sv_closed\<close> record the sockets in the order of these steps; no
  step reads them.
\<close>

datatype worker = AtLoop | InPop | Serving int | Ended

text \<open>The main thread: before the test of its loop, in \<open>accept\<close>, behind the loop.\<close>

datatype acceptor = AtTest | InAccept | LoopLeft

record 'q server =
  sv_queue :: 'q
  sv_listening :: bool
  sv_main :: acceptor
  sv_workers :: "worker list"
  sv_accepted :: "int list"
  sv_taken :: "int list"
  sv_closed :: "int list"

definition server_start :: "'q \<Rightarrow> nat \<Rightarrow> 'q server" where
  "server_start q max_threads =
     \<lparr>sv_queue = q, sv_listening = True, sv_main = AtTest,
      sv_workers = replicate max_threads AtLoop, sv_accepted = [], sv_taken = [], sv_closed = []\<rparr>"

text \<open>
  \<open>server_run\<close> up to its loop: \<open>Inl\<close> is the exit code, 55 for \<open>fatal_malloc\<close>; otherwise
  \<open>server->sockfd\<close>, the descriptors and the threads that start on the empty queue.
\<close>

definition server_run ::
    "bool \<Rightarrow> listen_os \<Rightarrow> 'f \<Rightarrow> 'f fd_table \<Rightarrow> 'q \<Rightarrow> nat \<Rightarrow> int + (nat \<times> 'f fd_table \<times> 'q server)" where
  "server_run hostname_allocated os listener fds queue max_threads =
     (if \<not> hostname_allocated then Inl 55
      else case open_listener os listener fds of
          Inl errno \<Rightarrow> Inl errno
        | Inr (sock_fd, fds) \<Rightarrow> Inr (sock_fd, fds, server_start queue max_threads))"

text \<open>
  \<open>MainTests\<close>: the main thread tests \<open>server->listening\<close>. \<open>Accept fd new\<close>: its \<open>accept\<close> returns
  \<open>fd\<close>, and \<open>calloc\<close> would give the address \<open>new\<close>; a socket is pushed also when \<open>server_stop\<close> has
  run since the test.
\<close>

datatype sv_event = MainTests | Accept int nat | Worker nat | Stop

definition worker_step :: "'q queue_ops \<Rightarrow> nat \<Rightarrow> 'q server \<Rightarrow> 'q server option" where
  "worker_step ops i st =
     (case sv_workers st ! i of
        AtLoop \<Rightarrow> Some (st\<lparr>sv_workers := (sv_workers st)[i := if sv_listening st then InPop else Ended]\<rparr>)
      | InPop \<Rightarrow>
          if qo_ready ops (sv_queue st) then
            do { (fd, q) \<leftarrow> qo_pop ops (sv_queue st);
                 Some (st\<lparr>sv_queue := q, sv_workers := (sv_workers st)[i := Serving fd],
                          sv_taken := sv_taken st @ [fd]\<rparr>) }
          else Some st
      | Serving fd \<Rightarrow>
          Some (st\<lparr>sv_workers := (sv_workers st)[i := AtLoop], sv_closed := sv_closed st @ [fd]\<rparr>)
      | Ended \<Rightarrow> Some st)"

fun server_event :: "'q queue_ops \<Rightarrow> sv_event \<Rightarrow> 'q server \<Rightarrow> 'q server option" where
  "server_event ops MainTests st =
     (if sv_main st = AtTest
      then Some (st\<lparr>sv_main := if sv_listening st then InAccept else LoopLeft\<rparr>)
      else Some st)"
| "server_event ops (Accept fd new) st =
     (if sv_main st \<noteq> InAccept then Some st
      else if 0 < fd then
        do { q \<leftarrow> qo_push ops (sv_queue st) new fd;
             Some (st\<lparr>sv_queue := q, sv_main := AtTest, sv_accepted := sv_accepted st @ [fd]\<rparr>) }
      else Some (st\<lparr>sv_main := AtTest\<rparr>))"
| "server_event ops (Worker i) st =
     (if i < length (sv_workers st) then worker_step ops i st else Some st)"
| "server_event ops Stop st = Some (st\<lparr>sv_listening := False\<rparr>)"

fun server_events :: "'q queue_ops \<Rightarrow> sv_event list \<Rightarrow> 'q server \<Rightarrow> 'q server option" where
  "server_events ops [] st = Some st"
| "server_events ops (e # es) st = Option.bind (server_event ops e st) (server_events ops es)"

text \<open>What the system promises: a fresh address from \<open>calloc\<close>, and fewer than \<open>2 ^ 31 - 1\<close> sockets
  waiting.\<close>

fun possible :: "('q \<Rightarrow> nat \<Rightarrow> bool) \<Rightarrow> sv_event \<Rightarrow> 'q server \<Rightarrow> bool" where
  "possible unused (Accept fd new) st \<longleftrightarrow>
     unused (sv_queue st) new \<and> int (length (sv_accepted st)) < int (length (sv_taken st)) + 2 ^ 31 - 1"
| "possible unused _ st \<longleftrightarrow> True"

inductive server_reach :: "'q queue_ops \<Rightarrow> ('q \<Rightarrow> nat \<Rightarrow> bool) \<Rightarrow> 'q server \<Rightarrow> 'q server \<Rightarrow> bool"
  for ops unused st0 where
  start: "server_reach ops unused st0 st0"
| event: "server_reach ops unused st0 st \<Longrightarrow> possible unused e st \<Longrightarrow>
     server_event ops e st = Some st' \<Longrightarrow> server_reach ops unused st0 st'"

definition serving :: "worker \<Rightarrow> int multiset" where
  "serving w = (case w of Serving fd \<Rightarrow> {#fd#} | _ \<Rightarrow> {#})"

lemma serving_simps [simp]:
  "serving AtLoop = {#}" "serving InPop = {#}" "serving (Serving fd) = {#fd#}" "serving Ended = {#}"
  by (simp_all add: serving_def)

abbreviation in_service :: "'q server \<Rightarrow> int multiset" where
  "in_service st \<equiv> sum_list (map serving (sv_workers st))"

lemma in_service_update:
  assumes "i < length ws"
  shows "sum_list (map serving (ws[i := w])) + serving (ws ! i) = sum_list (map serving ws) + serving w"
  using assms
proof (induction ws arbitrary: i)
  case (Cons v ws)
  then show ?case by (cases i) (auto simp: ac_simps)
qed simp

lemma idle_workers: "sum_list (replicate n ({#} :: 'a multiset)) = {#}"
  by (induction n) simp_all

context job_queue
begin

text \<open>Jobs are taken in the order they came; a taken one is closed or in the hands of one worker.\<close>

definition inv :: "'q server \<Rightarrow> bool" where
  "inv st \<longleftrightarrow> (\<exists>xs. jobs (sv_queue st) xs \<and> sv_accepted st = sv_taken st @ xs)
     \<and> mset (sv_taken st) = mset (sv_closed st) + in_service st"

lemma inv_event:
  assumes i: "inv st" and p: "possible unused e st"
  shows "\<exists>st'. server_event ops e st = Some st' \<and> inv st'"
proof -
  from i obtain xs where xs: "jobs (sv_queue st) xs" "sv_accepted st = sv_taken st @ xs"
    and m: "mset (sv_taken st) = mset (sv_closed st) + in_service st" unfolding inv_def by blast
  show ?thesis
  proof (cases e)
    case (Accept fd new)
    then have "unused (sv_queue st) new" "int (length xs) < 2 ^ 31 - 1" using p xs(2) by simp_all
    from push_law [OF xs(1) this, of fd] show ?thesis
      using Accept i xs m by (auto simp: inv_def)
  next
    case MainTests
    then show ?thesis using i by (simp add: inv_def)
  next
    case (Worker k)
    show ?thesis
    proof (cases "k < length (sv_workers st)")
      case True
      note upd = in_service_update [OF True]
      show ?thesis
      proof (cases "sv_workers st ! k")
        case AtLoop
        then show ?thesis using Worker True i upd [of InPop] upd [of Ended]
          by (simp add: worker_step_def inv_def)
      next
        case InPop
        show ?thesis
        proof (cases xs)
          case Nil
          then show ?thesis using Worker True InPop ready_law [OF xs(1)] i by (simp add: worker_step_def)
        next
          case (Cons x ys)
          from pop_law [OF xs(1) [unfolded Cons]] obtain q' where
            q': "qo_pop ops (sv_queue st) = Some (x, q')" "jobs q' ys" by blast
          then show ?thesis using Worker True InPop ready_law [OF xs(1)] Cons xs(2) m upd [of "Serving x"]
            by (auto simp: worker_step_def inv_def)
        qed
      next
        case (Serving fd)
        then show ?thesis using Worker True xs m upd [of AtLoop]
          by (auto simp: worker_step_def inv_def)
      next
        case Ended
        then show ?thesis using Worker True i by (simp add: worker_step_def)
      qed
    qed (use Worker i in simp)
  next
    case Stop
    then show ?thesis using i by (simp add: inv_def)
  qed
qed

lemma inv_start: "jobs q [] \<Longrightarrow> inv (server_start q n)"
  by (simp add: inv_def server_start_def idle_workers)

lemma inv_reach: "server_reach ops unused st0 st \<Longrightarrow> inv st0 \<Longrightarrow> inv st"
  by (induction rule: server_reach.induct) (use inv_event in force)+

end


inductive_cases reachE: "server_reach ops unused st0 st"

lemma wq_jobs_init: "wq_jobs (Map.empty, wq_init) []"
  unfolding wq_jobs_def by (intro exI [of _ "[]"]) simp

subsection \<open>Properties\<close>

text \<open>C29: no socket is lost, served twice or overtaken. In every state the server reaches from its
  set-up, the accepted sockets are those taken, in the order of arrival, and then those still in
  the queue; a taken socket has been closed or is in the hands of one worker; and no step of a
  thread is undefined.\<close>

theorem sockets_served_once:
  assumes "server_run allocated os listener fds (Map.empty, wq_init) max_threads = Inr (sock_fd, fds', st0)"
    and "server_reach wq_ops wq_unused st0 st"
  shows "\<exists>xs. wq_jobs (sv_queue st) xs \<and> sv_accepted st = sv_taken st @ xs
     \<and> mset (sv_taken st) = mset (sv_closed st) + in_service st
     \<and> (\<forall>e. possible wq_unused e st \<longrightarrow> server_event wq_ops e st \<noteq> None)"
proof -
  have "st0 = server_start (Map.empty, wq_init) max_threads"
    using assms(1) by (auto simp: server_run_def split: if_splits sum.splits)
  with assms(2) have "wq.inv st" using wq.inv_reach wq.inv_start [OF wq_jobs_init] by blast
  then show ?thesis using wq.inv_event unfolding wq.inv_def by blast
qed

lemma server_events_append:
  "server_events ops (es @ fs) st = Option.bind (server_events ops es st) (server_events ops fs)"
  by (induction es arbitrary: st) (auto split: bind_splits)

lemma server_reach_events:
  assumes "server_events ops es st = Some st'" "server_reach ops unused st0 st"
    and "\<And>e s. e \<in> set es \<Longrightarrow> possible unused e s"
  shows "server_reach ops unused st0 st'"
  using assms
proof (induction es arbitrary: st)
  case (Cons e es)
  then obtain s where s: "server_event ops e st = Some s" "server_events ops es s = Some st'"
    by (auto split: bind_splits)
  show ?case
    by (rule Cons.IH [OF s(2) server_reach.event [OF Cons.prems(2) _ s(1)]]) (use Cons.prems in auto)
qed simp

lemma sockets_served_once_witness:
  "\<exists>st. server_reach wq_ops wq_unused (server_start (Map.empty, wq_init) 1) st
     \<and> sv_accepted st = [7] \<and> sv_taken st = [7] \<and> sv_closed st = []
     \<and> mset (sv_taken st) = mset (sv_closed st) + in_service st"
proof -
  let ?st0 = "server_start (Map.empty, wq_init) 1 :: (wq_heap \<times> wq_t) server"
  let ?s1 = "?st0\<lparr>sv_main := InAccept\<rparr>"
  let ?q = "([64 \<mapsto> \<lparr>wi_item = 7, wi_next = None, wi_prev = Some 64\<rparr>], \<lparr>wq_size = 1, wq_head = Some 64\<rparr>)"
  let ?s2 = "?st0\<lparr>sv_queue := ?q, sv_accepted := [7]\<rparr>"
  have s1: "server_event wq_ops MainTests ?st0 = Some ?s1"
    by (simp add: server_start_def)
  have s2: "server_event wq_ops (Accept 7 64) ?s1 = Some ?s2"
    by (simp add: server_start_def wq_ops_def wq_push_def DL_APPEND_def set_item_def wq_init_def)
  have "\<exists>s3. server_events wq_ops [Worker 0, Worker 0] ?s2 = Some s3 \<and>
      sv_accepted s3 = [7] \<and> sv_taken s3 = [7] \<and> sv_closed s3 = []"
    by (simp add: server_start_def worker_step_def wq_ops_def wq_ready_def wq_pop_def DL_DELETE_def get_item_def)
  then obtain s3 where s3: "server_events wq_ops [Worker 0, Worker 0] ?s2 = Some s3"
      "sv_accepted s3 = [7]" "sv_taken s3 = [7]" "sv_closed s3 = []" by blast
  have "server_reach wq_ops wq_unused ?st0 ?s1"
    by (rule server_reach.event [OF server_reach.start _ s1]) simp
  then have "server_reach wq_ops wq_unused ?st0 ?s2"
    by (rule server_reach.event [OF _ _ s2]) (simp add: server_start_def wq_unused_def)
  then have r: "server_reach wq_ops wq_unused ?st0 s3"
    by (rule server_reach_events [OF s3(1)]) auto
  have "0 \<in> free_fds (Map.empty :: unit fd_table)" by (simp add: free_fds_def FD_LIMIT_def)
  then have "free_fds (Map.empty :: unit fd_table) \<noteq> {}" by blast
  then obtain n where "server_run True \<lparr>ls_socket = 0, ls_setsockopt = 0, ls_bind = 0, ls_listen = 0\<rparr> ()
      Map.empty (Map.empty, wq_init) 1 = Inr (n, Map.empty(n \<mapsto> ()), ?st0)"
    by (rule sys_open_some [of Map.empty "()"]) (simp add: server_run_def open_listener_def)
  from sockets_served_once [OF this r] s3 r show ?thesis by blast
qed

text \<open>\<open>server_stop\<close> does not reach a worker that waits for a job. Once the main thread has left its
  loop with an empty queue, a worker inside \<open>wq_pop\<close> stays there in every later state.\<close>

lemma stop_leaves_worker_waiting:
  assumes "server_events wq_ops es st = Some st'" and "sv_main st = LoopLeft"
    and "wq_jobs (sv_queue st) []" and "i < length (sv_workers st)" and "sv_workers st ! i = InPop"
  shows "sv_workers st' ! i = InPop"
  using assms
proof (induction es arbitrary: st)
  case (Cons e es)
  from Cons.prems(1) obtain s where s: "server_event wq_ops e st = Some s" "server_events wq_ops es s = Some st'"
    by (auto split: bind_splits)
  have "\<not> qo_ready wq_ops (sv_queue st)" using wq.ready_law [OF Cons.prems(3)] by simp
  then have "sv_main s = LoopLeft \<and> sv_queue s = sv_queue st \<and> length (sv_workers s) = length (sv_workers st)
      \<and> sv_workers s ! i = InPop"
    using s(1) Cons.prems
    by (cases e) (auto simp: worker_step_def nth_list_update split: if_splits worker.splits)
  then show ?case using Cons.IH [OF s(2)] Cons.prems by simp
qed simp

lemma stop_leaves_worker_waiting_witness:
  "\<exists>st. server_events wq_ops [Worker 0, MainTests, Stop, Accept (- 1) 64, MainTests, Worker 0]
       (server_start (Map.empty, wq_init) 1) = Some st \<and> sv_workers st ! 0 = InPop"
proof -
  let ?st0 = "server_start (Map.empty, wq_init) 1"
  let ?s = "?st0\<lparr>sv_listening := False, sv_main := LoopLeft, sv_workers := [InPop]\<rparr>"
  have s: "server_events wq_ops [Worker 0, MainTests, Stop, Accept (- 1) 64, MainTests] ?st0 = Some ?s"
    by (simp add: server_start_def worker_step_def)
  obtain st where st: "server_events wq_ops [Worker 0] ?s = Some st"
    by (simp add: server_start_def worker_step_def wq_ops_def wq_ready_def wq_init_def)
  from stop_leaves_worker_waiting [OF st, of 0] wq_jobs_init have "sv_workers st ! 0 = InPop"
    by (simp add: server_start_def)
  moreover have "server_events wq_ops ([Worker 0, MainTests, Stop, Accept (- 1) 64, MainTests] @ [Worker 0]) ?st0 = Some st"
    unfolding server_events_append s using st by simp
  ultimately show ?thesis by (intro exI [of _ st]) simp
qed

end
