(* ===== verification/MD5Constants.thy ===== *)
theory MD5Constants
  imports Complex_Main "HOL-Library.Word"
begin

text \<open>
  The 64 additive constants of MD5 as RFC 1321, section 3.4, defines them: \<open>T[i]\<close> is the integer
  part of 4294967296 times \<open>abs (sin i)\<close>, \<open>i\<close> in radians. To compare them with the table of
  hw4/src/md5.c, sine and cosine of 1, 2, ... 64 are enclosed in fixed-point numbers with 80
  binary places: those of 1 by their Taylor polynomials, the others by addition of angles.
\<close>

definition rfc_T :: "nat \<Rightarrow> 32 word" where
  "rfc_T i = word_of_int \<lfloor>4294967296 * \<bar>sin (real i)\<bar>\<rfloor>"

subsection \<open>Sine and cosine of 1\<close>

definition unit80 :: int where "unit80 = 2 ^ 80"
definition sin_one :: int where "sin_one = 1017275999990815458903785"
definition cos_one :: int where "cos_one = 653185407961314874212934"


text \<open>The coefficients up to the 27th power, over a common denominator.\<close>

lemma taylor_error: "inverse (fact 28) \<le> (1 / 2 ^ 97 :: real)"
  by (simp add: fact_numeral)

lemma sin_one: "\<bar>sin 1 * 2 ^ 80 - of_int sin_one\<bar> \<le> (1 :: real)"
proof -
  define p :: real where "p = (\<Sum>m<28. sin_coeff m * 1 ^ m)"
  have "\<bar>sin (1 :: real) - p\<bar> \<le> inverse (fact 28) * \<bar>1\<bar> ^ 28"
    unfolding p_def by (rule Maclaurin_sin_bound)
  then have "\<bar>sin 1 - p\<bar> \<le> 1 / 2 ^ 97" using taylor_error by simp
  moreover have "p = 9162667699888149594768114701 / 10888869450418352160768000000"
    unfolding p_def by (simp add: sin_coeff_def lessThan_nat_numeral fact_numeral)
  ultimately show ?thesis unfolding abs_le_iff sin_one_def by simp linarith?
qed

lemma cos_one: "\<bar>cos 1 * 2 ^ 80 - of_int cos_one\<bar> \<le> (1 :: real)"
proof -
  define p :: real where "p = (\<Sum>m<28. cos_coeff m * 1 ^ m)"
  obtain t where t: "cos (1 :: real) = (\<Sum>m<28. cos_coeff m * 1 ^ m) + cos (t + 1 / 2 * real 28 * pi) / fact 28 * 1 ^ 28"
    using Maclaurin_cos_expansion [of 1 28] by blast
  have "\<bar>cos (t + 1 / 2 * real 28 * pi)\<bar> \<le> 1" by (rule abs_cos_le_one)
  then have "\<bar>cos (t + 1 / 2 * real 28 * pi)\<bar> * inverse (fact 28) \<le> 1 * inverse (fact 28)"
    by (rule mult_right_mono) simp
  moreover have "cos 1 - p = cos (t + 1 / 2 * real 28 * pi) * inverse (fact 28)"
    unfolding p_def t by (simp only: divide_inverse power_one mult_1_right add_diff_cancel_left')
  then have "\<bar>cos 1 - p\<bar> = \<bar>cos (t + 1 / 2 * real 28 * pi)\<bar> * inverse (fact 28)"
    by (simp add: abs_mult)
  ultimately have "\<bar>cos 1 - p\<bar> \<le> 1 / 2 ^ 97" using taylor_error by linarith
  moreover have "p = 217899306383636256824687449 / 403291461126605635584000000"
    unfolding p_def by (simp add: cos_coeff_def lessThan_nat_numeral fact_numeral)
  ultimately show ?thesis unfolding abs_le_iff cos_one_def by simp linarith?
qed

subsection \<open>Addition of angles\<close>

text \<open>Fixed-point values of sine and cosine, and a bound of their error; the next such triple.\<close>

definition turn :: "int \<times> int \<times> int \<Rightarrow> int \<times> int \<times> int" where
  "turn p = (case p of (s, c, e) \<Rightarrow>
     ((s * cos_one + c * sin_one) div unit80, (c * cos_one - s * sin_one) div unit80, 7 * e div 5 + 8))"

definition encloses :: "real \<Rightarrow> int \<times> int \<times> int \<Rightarrow> bool" where
  "encloses x p \<longleftrightarrow> (case p of (s, c, e) \<Rightarrow>
     \<bar>sin x * 2 ^ 80 - of_int s\<bar> \<le> of_int e \<and> \<bar>cos x * 2 ^ 80 - of_int c\<bar> \<le> of_int e \<and> e \<le> 2 ^ 40)"

lemma product_error:
  fixes a b a' b' u d e :: real
  assumes "\<bar>a * u - a'\<bar> \<le> e" "\<bar>b * u - b'\<bar> \<le> d" "\<bar>a\<bar> \<le> 1" "\<bar>b'\<bar> \<le> r * u" "0 < u"
  shows "\<bar>a * b * u - a' * b' / u\<bar> \<le> d + r * e"
proof -
  have 1: "\<bar>a * (b * u - b')\<bar> \<le> d"
    using mult_mono [of "\<bar>a\<bar>" 1 "\<bar>b * u - b'\<bar>" d] assms by (simp add: abs_mult)
  have "\<bar>(a * u - a') * b'\<bar> \<le> e * (r * u)"
    unfolding abs_mult by (rule mult_mono) (use assms in auto)
  then have 2: "\<bar>(a * u - a') * b' / u\<bar> \<le> r * e" using assms(5) by (simp add: divide_le_eq ac_simps)
  have "a * b * u - a' * b' / u = a * (b * u - b') + (a * u - a') * b' / u"
    using assms(5) by (simp add: field_simps)
  then show ?thesis
    using order_trans [OF abs_triangle_ineq add_mono [OF 1 2]] by simp
qed

lemma encloses_turn:
  assumes enc: "encloses x (s, c, e)" and e: "7 * e div 5 + 8 \<le> 2 ^ 40"
  shows "encloses (x + 1) (turn (s, c, e))"
proof -
  let ?u = "2 ^ 80 :: real"
  have s: "\<bar>sin x * ?u - of_int s\<bar> \<le> of_int e" and c: "\<bar>cos x * ?u - of_int c\<bar> \<le> of_int e"
    using enc by (simp_all add: encloses_def)
  have one: "\<bar>of_int cos_one\<bar> \<le> 0.5405 * ?u" "\<bar>of_int sin_one\<bar> \<le> 0.8415 * ?u" "0 < ?u"
    by (simp_all add: cos_one_def sin_one_def)
  have "0 \<le> real_of_int e" using s abs_ge_zero order_trans by blast
  moreover have "of_int (7 * e div 5) \<ge> 1.4 * real_of_int e - 1"
    using floor_divide_of_int_eq [of "7 * e" 5, where ?'a = real] floor_correct [of "7 * real_of_int e / 5"] by simp
  ultimately have room: "1 + 0.5405 * real_of_int e + (1 + 0.8415 * of_int e) + 1 \<le> of_int (7 * e div 5 + 8)" by simp
  have near: "\<bar>y - of_int (m div unit80)\<bar> \<le> k + 1" if "\<bar>y - of_int m / ?u\<bar> \<le> k" for y k :: real and m
  proof -
    have "\<lfloor>of_int m / ?u\<rfloor> = m div unit80"
      using floor_divide_of_int_eq [of m unit80, where ?'a = real] by (simp add: unit80_def)
    then show ?thesis using that floor_correct [of "of_int m / ?u"] by linarith
  qed
  have "\<bar>sin x * cos 1 * ?u - of_int s * of_int cos_one / ?u\<bar> \<le> 1 + 0.5405 * of_int e"
    by (rule product_error [OF s cos_one _ one(1,3)]) simp
  moreover have "\<bar>cos x * sin 1 * ?u - of_int c * of_int sin_one / ?u\<bar> \<le> 1 + 0.8415 * of_int e"
    by (rule product_error [OF c sin_one _ one(2,3)]) simp
  ultimately have 1: "\<bar>(sin x * cos 1 + cos x * sin 1) * ?u - of_int (s * cos_one + c * sin_one) / ?u\<bar>
      \<le> 1 + 0.5405 * of_int e + (1 + 0.8415 * of_int e)"
    by (simp add: distrib_right add_divide_distrib)
  have "\<bar>cos x * cos 1 * ?u - of_int c * of_int cos_one / ?u\<bar> \<le> 1 + 0.5405 * of_int e"
    by (rule product_error [OF c cos_one _ one(1,3)]) simp
  moreover have "\<bar>sin x * sin 1 * ?u - of_int s * of_int sin_one / ?u\<bar> \<le> 1 + 0.8415 * of_int e"
    by (rule product_error [OF s sin_one _ one(2,3)]) simp
  ultimately have 2: "\<bar>(cos x * cos 1 - sin x * sin 1) * ?u - of_int (c * cos_one - s * sin_one) / ?u\<bar>
      \<le> 1 + 0.5405 * of_int e + (1 + 0.8415 * of_int e)"
    by (simp add: left_diff_distrib diff_divide_distrib)
  show ?thesis
    using near [OF 1] near [OF 2] room e by (simp add: encloses_def turn_def sin_add cos_add)
qed

subsection \<open>The table\<close>

fun agree :: "int \<times> int \<times> int \<Rightarrow> int list \<Rightarrow> bool" where
  "agree p [] \<longleftrightarrow> True"
| "agree p (t # ts) \<longleftrightarrow>
     (case turn p of (s, c, e) \<Rightarrow>
        e \<le> 2 ^ 40 \<and> t * 2 ^ 48 + e \<le> \<bar>s\<bar> \<and> \<bar>s\<bar> + e < (t + 1) * 2 ^ 48 \<and> agree (s, c, e) ts)"

lemma agree_sound:
  assumes "encloses (real i) p" "agree p ts" "j < length ts"
  shows "\<lfloor>4294967296 * \<bar>sin (real (i + j + 1))\<bar>\<rfloor> = ts ! j"
  using assms
proof (induction ts arbitrary: i j p)
  case (Cons t ts)
  obtain s c e where p: "p = (s, c, e)" by (cases p)
  obtain s' c' e' where q: "turn (s, c, e) = (s', c', e')" by (cases "turn (s, c, e)")
  have a: "e' \<le> 2 ^ 40" "t * 2 ^ 48 + e' \<le> \<bar>s'\<bar>" "\<bar>s'\<bar> + e' < (t + 1) * 2 ^ 48" "agree (s', c', e') ts"
    using Cons.prems(2) by (simp_all add: p q)
  have "7 * e div 5 + 8 \<le> 2 ^ 40" using a(1) q by (simp add: turn_def)
  then have enc: "encloses (real (i + 1)) (s', c', e')"
    using encloses_turn [OF Cons.prems(1) [unfolded p]] q by (simp add: add.commute)
  show ?case
  proof (cases j)
    case 0
    have "\<bar>sin (real (i + 1)) * 2 ^ 80 - of_int s'\<bar> \<le> of_int e'" using enc by (simp add: encloses_def)
    moreover have "of_int t * 2 ^ 48 + of_int e' \<le> \<bar>real_of_int s'\<bar>"
      "\<bar>real_of_int s'\<bar> + of_int e' < (of_int t + 1) * 2 ^ 48"
      using a(2) [folded of_int_le_iff [where ?'a = real]] a(3) [folded of_int_less_iff [where ?'a = real]] by simp_all
    moreover have "\<bar>\<bar>sin (real (i + 1)) * 2 ^ 80\<bar> - \<bar>real_of_int s'\<bar>\<bar> \<le> \<bar>sin (real (i + 1)) * 2 ^ 80 - of_int s'\<bar>"
      by (rule abs_triangle_ineq3)
    ultimately have "of_int t * 2 ^ 48 \<le> \<bar>sin (real (i + 1)) * 2 ^ 80\<bar>"
      "\<bar>sin (real (i + 1)) * 2 ^ 80\<bar> < (of_int t + 1) * 2 ^ 48" by linarith+
    then have "of_int t \<le> 4294967296 * \<bar>sin (real (i + 1))\<bar>" "4294967296 * \<bar>sin (real (i + 1))\<bar> < of_int t + 1"
      by (simp_all add: abs_mult)
    then have "\<lfloor>4294967296 * \<bar>sin (real (i + 1))\<bar>\<rfloor> = t" by (intro floor_unique)
    then show ?thesis using 0 by simp
  next
    case (Suc k)
    then have "k < length ts" using Cons.prems(3) by simp
    from Cons.IH [OF enc a(4) this] Suc show ?thesis by simp
  qed
qed simp

definition sine_table :: "int list" where
  "sine_table =
    [0xd76aa478, 0xe8c7b756, 0x242070db, 0xc1bdceee,
     0xf57c0faf, 0x4787c62a, 0xa8304613, 0xfd469501,
     0x698098d8, 0x8b44f7af, 0xffff5bb1, 0x895cd7be,
     0x6b901122, 0xfd987193, 0xa679438e, 0x49b40821,
     0xf61e2562, 0xc040b340, 0x265e5a51, 0xe9b6c7aa,
     0xd62f105d, 0x02441453, 0xd8a1e681, 0xe7d3fbc8,
     0x21e1cde6, 0xc33707d6, 0xf4d50d87, 0x455a14ed,
     0xa9e3e905, 0xfcefa3f8, 0x676f02d9, 0x8d2a4c8a,
     0xfffa3942, 0x8771f681, 0x6d9d6122, 0xfde5380c,
     0xa4beea44, 0x4bdecfa9, 0xf6bb4b60, 0xbebfbc70,
     0x289b7ec6, 0xeaa127fa, 0xd4ef3085, 0x04881d05,
     0xd9d4d039, 0xe6db99e5, 0x1fa27cf8, 0xc4ac5665,
     0xf4292244, 0x432aff97, 0xab9423a7, 0xfc93a039,
     0x655b59c3, 0x8f0ccc92, 0xffeff47d, 0x85845dd1,
     0x6fa87e4f, 0xfe2ce6e0, 0xa3014314, 0x4e0811a1,
     0xf7537e82, 0xbd3af235, 0x2ad7d2bb, 0xeb86d391]"

lemma length_sine_table: "length sine_table = 64"
  by (simp add: sine_table_def)

lemma sine_table_agrees: "agree (0, unit80, 0) sine_table"
  by code_simp

lemma rfc_T_table: "map rfc_T [1..<65] = map word_of_int sine_table"
proof (rule nth_equalityI)
  fix j assume "j < length (map rfc_T [1..<65])"
  then have j: "j < length sine_table" by (simp add: length_sine_table)
  have "encloses (real 0) (0, unit80, 0)" by (simp add: encloses_def unit80_def)
  from agree_sound [OF this sine_table_agrees j] have "rfc_T (1 + j) = word_of_int (sine_table ! j)"
    by (simp add: rfc_T_def add.commute)
  moreover have "map rfc_T [1..<65] ! j = rfc_T (1 + j)"
    using j nth_upt [of 1 j 65] by (simp only: length_sine_table nth_map length_upt)
  ultimately show "map rfc_T [1..<65] ! j = map word_of_int sine_table ! j" using j by simp
qed (simp add: length_sine_table)

end
