(* ===== verification/MD5Reference.thy ===== *)
theory MD5Reference
  imports MD5 MD5Constants
begin

text \<open>
  MD5 as RFC 1321 describes it, and the proof that the streaming implementation of
  hw4/src/md5.c computes it: the functions F, G, H and I with \<open>and\<close>, \<open>or\<close> and \<open>not\<close>, the
  order of the words and the rotations by formulas, the additive constants from the sine
  (MD5Constants), left rotation, padding with a one bit, zeros and the length in bits, and the
  compression of the 64-byte blocks one after the other. Nothing of it is taken from the code.
\<close>

unbundle bit_operations_syntax

subsection \<open>The reference\<close>

definition rfc_F :: "u32 \<Rightarrow> u32 \<Rightarrow> u32 \<Rightarrow> u32" where "rfc_F x y z = (x AND y) OR (NOT x AND z)"
definition rfc_G :: "u32 \<Rightarrow> u32 \<Rightarrow> u32 \<Rightarrow> u32" where "rfc_G x y z = (x AND z) OR (y AND NOT z)"
definition rfc_H :: "u32 \<Rightarrow> u32 \<Rightarrow> u32 \<Rightarrow> u32" where "rfc_H x y z = x XOR y XOR z"
definition rfc_I :: "u32 \<Rightarrow> u32 \<Rightarrow> u32 \<Rightarrow> u32" where "rfc_I x y z = y XOR (x OR NOT z)"

text \<open>\<open>X[n]\<close>: four bytes as a word, the low-order byte first.\<close>

definition rfc_X :: "string \<Rightarrow> nat \<Rightarrow> u32" where
  "rfc_X block n = (\<Sum>j<4. 256 ^ j * of_char (block ! (4 * n + j)))"

text \<open>Function, word and rotation of operation \<open>i\<close>.\<close>

definition rfc_fun :: "nat \<Rightarrow> u32 \<Rightarrow> u32 \<Rightarrow> u32 \<Rightarrow> u32" where
  "rfc_fun i = (if i < 16 then rfc_F else if i < 32 then rfc_G else if i < 48 then rfc_H else rfc_I)"

definition rfc_word :: "nat \<Rightarrow> nat" where
  "rfc_word i = (if i < 16 then i else if i < 32 then (5 * i + 1) mod 16
     else if i < 48 then (3 * i + 5) mod 16 else 7 * i mod 16)"

definition rfc_shift :: "nat \<Rightarrow> nat" where
  "rfc_shift i = [[7, 12, 17, 22], [5, 9, 14, 20], [4, 11, 16, 23], [6, 10, 15, 21]] ! (i div 16) ! (i mod 4)"

fun rfc_op :: "string \<Rightarrow> md5_regs \<Rightarrow> nat \<Rightarrow> md5_regs" where
  "rfc_op block (a, b, c, d) i =
     (d, b + word_rotl (rfc_shift i)
            (a + rfc_fun i b c d + rfc_X block (rfc_word i) + rfc_T (i + 1)), b, c)"

definition rfc_compress :: "md5_regs \<Rightarrow> string \<Rightarrow> md5_regs" where
  "rfc_compress r block =
     (case (r, foldl (rfc_op block) r [0..<64]) of
        ((a, b, c, d), (a', b', c', d')) \<Rightarrow> (a + a', b + b', c + c', d + d'))"

function blocks64 :: "string \<Rightarrow> string list" where
  "blocks64 s = (if length s < 64 then [] else take 64 s # blocks64 (drop 64 s))"
  by pat_completeness auto
termination by (relation "measure length") auto

declare blocks64.simps [simp del]

definition rfc_iv :: md5_regs where
  "rfc_iv = (0x67452301, 0xefcdab89, 0x98badcfe, 0x10325476)"

text \<open>The length in bits as 64 bits, low-order word first.\<close>

definition rfc_length :: "nat \<Rightarrow> string" where
  "rfc_length n = le32 (word_of_nat (8 * n)) @ le32 (word_of_nat (8 * n div 2 ^ 32))"

text \<open>Zeros up to 56 bytes modulo 64.\<close>

definition rfc_zeros :: "nat \<Rightarrow> nat" where
  "rfc_zeros n = (if n mod 64 < 56 then 55 - n mod 64 else 119 - n mod 64)"

definition rfc_pad :: "string \<Rightarrow> string" where
  "rfc_pad m = m @ char_of (0x80 :: nat) # replicate (rfc_zeros (length m)) NUL @ rfc_length (length m)"

definition rfc_md5 :: "string \<Rightarrow> string" where
  "rfc_md5 m =
     (case foldl rfc_compress rfc_iv (blocks64 (rfc_pad m)) of
        (a, b, c, d) \<Rightarrow> le32 a @ le32 b @ le32 c @ le32 d)"

subsection \<open>The compression function\<close>

lemma F_eq: "md5_F = rfc_F"
  by (intro ext bit_word_eqI) (auto simp: md5_F_def rfc_F_def bit_simps)

lemma G_eq: "md5_G = rfc_G"
  by (intro ext bit_word_eqI) (auto simp: md5_G_def rfc_G_def bit_simps)

lemma H_eq: "md5_H = rfc_H" "md5_H2 = rfc_H"
  by (auto simp: md5_H_def md5_H2_def rfc_H_def xor.assoc fun_eq_iff)

lemma I_eq: "md5_I = rfc_I"
  by (simp add: md5_I_def rfc_I_def fun_eq_iff)

lemma rotate_eq:
  fixes w :: u32
  assumes "0 < s" "s < 32"
  shows "push_bit s w OR drop_bit (32 - s) (w AND 0xffffffff) = word_rotl s w"
proof -
  have all: "(0xffffffff :: u32) = - 1" by simp
  have ones: "w AND 0xffffffff = w" unfolding all by simp
  show ?thesis unfolding ones
  proof (rule bit_word_eqI)
    fix n assume n: "n < LENGTH(32)"
    show "bit (push_bit s w OR drop_bit (32 - s) w) n = bit (word_rotl s w) n"
    proof (cases "s \<le> n")
      case True
      then have e: "n + (32 - s) = (n - s) + 32" using assms by simp
      have "(n + (32 - s)) mod 32 = n - s" unfolding e using n by simp
      moreover have "\<not> bit w (32 - s + n)" using True assms by (auto dest: bit_imp_le_length)
      ultimately show ?thesis using True n assms by (simp add: bit_simps)
    next
      case False
      then have e: "(n + (32 - s)) mod 32 = 32 - s + n" using assms by simp
      have "bit (word_rotl s w) n \<longleftrightarrow> bit w ((n + (32 - s)) mod 32)"
        using n assms by (simp add: bit_word_rotl_iff)
      moreover have "bit (push_bit s w OR drop_bit (32 - s) w) n \<longleftrightarrow> bit w (32 - s + n)"
        using False by (simp add: bit_or_iff bit_push_bit_iff bit_drop_bit_eq del: add_diff_assoc2 add_diff_assoc)
      ultimately show ?thesis unfolding e by blast
    qed
  qed
qed

lemma STEP_eq:
  assumes "0 < s" "s < 32"
  shows "md5_STEP f a b c d x t s = b + word_rotl s (a + f b c d + x + t)"
  by (simp only: md5_STEP_def Let_def rotate_eq [OF assms]) (simp add: ac_simps)


lemma SET_eq: "md5_SET block n = rfc_X block n"
  by (simp add: md5_SET_def rfc_X_def eval_nat_numeral)

text \<open>The lines of the code are the operations of the reference, one by one.\<close>

definition md5_lines :: "md5_line list" where
  "md5_lines = md5_round1 @ md5_round2 @ md5_round3 @ md5_round4"

lemma lines_length: "length md5_lines = 64"
  by (simp add: md5_lines_def md5_round1_def md5_round2_def md5_round3_def md5_round4_def)

definition line_matches :: "md5_line \<Rightarrow> nat \<Rightarrow> bool" where
  "line_matches l i \<longleftrightarrow> (case l of (f, k, t, s) \<Rightarrow>
     f = rfc_fun i \<and> k = rfc_word i \<and> t = rfc_T (i + 1) \<and> s = rfc_shift i \<and> 0 < s \<and> s < 32)"

lemma line_eq: "line_matches l i \<Longrightarrow> md5_line block r l = rfc_op block r i"
  by (cases r; cases l) (auto simp: line_matches_def STEP_eq SET_eq)

lemma rfc_T_eval: "0 < i \<Longrightarrow> i \<le> 64 \<Longrightarrow> rfc_T i = word_of_int (sine_table ! (i - 1))"
  using arg_cong [OF rfc_T_table, of "\<lambda>l. l ! (i - 1)"] by (simp add: length_sine_table)

lemmas match_simps = line_matches_def F_eq G_eq H_eq I_eq rfc_fun_def rfc_word_def rfc_shift_def
  upt_rec rfc_T_eval sine_table_def md5_round1_def md5_round2_def md5_round3_def md5_round4_def

lemma rounds_match:
  "list_all2 line_matches md5_round1 [0..<16]" "list_all2 line_matches md5_round2 [16..<32]"
  "list_all2 line_matches md5_round3 [32..<48]" "list_all2 line_matches md5_round4 [48..<64]"
  by (simp_all add: match_simps)

lemma lines_match: "list_all2 line_matches md5_lines [0..<64]"
proof -
  have "[0..<64] = [0..<16] @ [16..<32] @ [32..<48] @ [48..<(64 :: nat)]"
    using upt_add_eq_append [of 0 16 48] upt_add_eq_append [of 16 32 32] upt_add_eq_append [of 32 48 16] by simp
  then show ?thesis unfolding md5_lines_def by (simp only:) (intro list_all2_appendI rounds_match)
qed

lemma foldl_lines: "list_all2 line_matches ls is \<Longrightarrow> foldl (md5_line block) r ls = foldl (rfc_op block) r is"
  by (induction arbitrary: r rule: list_all2_induct) (simp_all add: line_eq)

lemma compress_eq: "md5_compress r block = rfc_compress r block"
  using foldl_lines [OF lines_match, of block r]
  by (simp add: md5_compress_def md5_rounds_def rfc_compress_def md5_lines_def add.commute split: prod.splits)

subsection \<open>Blocks\<close>

definition absorb :: "md5_regs \<Rightarrow> string \<Rightarrow> md5_regs" where
  "absorb r s = foldl md5_compress r (blocks64 s)"

lemma blocks64_short: "length s < 64 \<Longrightarrow> blocks64 s = []"
  by (subst blocks64.simps) simp

lemma blocks64_step: "64 \<le> length s \<Longrightarrow> blocks64 s = take 64 s # blocks64 (drop 64 s)"
  by (subst blocks64.simps) simp

lemma blocks64_append: "64 dvd length s \<Longrightarrow> blocks64 (s @ t) = blocks64 s @ blocks64 t"
proof (induction s rule: blocks64.induct)
  case (1 s)
  show ?case
  proof (cases "length s < 64")
    case True
    then have "s = []" using 1(2) by (cases s) (auto dest: dvd_imp_le)
    then show ?thesis by (simp add: blocks64_short)
  next
    case False
    moreover have "64 dvd length (drop 64 s)" using 1(2) False by (simp add: dvd_diff_nat)
    ultimately show ?thesis using 1(1) by (simp add: blocks64_step)
  qed
qed

lemma absorb_append: "64 dvd length s \<Longrightarrow> absorb r (s @ t) = absorb (absorb r s) t"
  by (simp add: absorb_def blocks64_append)

lemma absorb_short [simp]: "length s < 64 \<Longrightarrow> absorb r s = r"
  by (simp add: absorb_def blocks64_short)

lemma absorb_one: "length s = 64 \<Longrightarrow> absorb r s = md5_compress r s"
  by (simp add: absorb_def blocks64_step blocks64_short)

lemma body_loop_spec:
  assumes "sz = 64 * Suc k" "sz \<le> length data"
  shows "md5_body_loop r data sz = (absorb r (take sz data), drop sz data)"
  using assms
proof (induction k arbitrary: r data sz)
  case 0
  then show ?case by (subst md5_body_loop.simps) (simp add: Let_def absorb_one)
next
  case (Suc k)
  have IH: "md5_body_loop (md5_compress r (take 64 data)) (drop 64 data) (sz - 64)
      = (absorb (md5_compress r (take 64 data)) (take (sz - 64) (drop 64 data)), drop (sz - 64) (drop 64 data))"
    using Suc.prems by (intro Suc.IH) auto
  have "take sz data = take 64 data @ take (sz - 64) (drop 64 data)"
    using Suc.prems(1) take_add [of 64 "sz - 64" data] by simp
  moreover have "length (take 64 data) = 64" using Suc.prems by simp
  ultimately have "absorb r (take sz data) = absorb (md5_compress r (take 64 data)) (take (sz - 64) (drop 64 data))"
    by (simp add: absorb_append absorb_one)
  moreover have "drop (sz - 64) (drop 64 data) = drop sz data" using Suc.prems(1) by simp
  ultimately show ?case using IH Suc.prems by (subst md5_body_loop.simps) (simp add: Let_def)
qed


subsection \<open>The context after some data\<close>

text \<open>The words absorbed, and the rest that waits in the buffer.\<close>

definition whole :: "string \<Rightarrow> string" where
  "whole m = take (length m - length m mod 64) m"

definition rest :: "string \<Rightarrow> string" where
  "rest m = drop (length m - length m mod 64) m"

lemma whole_rest: "whole m @ rest m = m" "64 dvd length (whole m)" "length (rest m) = length m mod 64"
proof -
  show "whole m @ rest m = m" by (simp add: whole_def rest_def)
  have "length m mod 64 \<le> length m" by simp
  then show "length (rest m) = length m mod 64" by (simp add: rest_def)
  have "length (whole m) = length m - length m mod 64" by (simp add: whole_def)
  then show "64 dvd length (whole m)" by (simp add: dvd_minus_mod)
qed

definition ctx_regs :: "MD5_CTX \<Rightarrow> md5_regs" where
  "ctx_regs ctx = (ctx_a ctx, ctx_b ctx, ctx_c ctx, ctx_d ctx)"

definition ctx_rel :: "MD5_CTX \<Rightarrow> string \<Rightarrow> bool" where
  "ctx_rel ctx m \<longleftrightarrow> length (ctx_buffer ctx) = 64
     \<and> unat (ctx_lo ctx) = length m mod 2 ^ 29 \<and> ctx_hi ctx = word_of_nat (length m div 2 ^ 29)
     \<and> ctx_regs ctx = absorb rfc_iv m
     \<and> take (length m mod 64) (ctx_buffer ctx) = rest m"

lemma absorb_whole: "absorb r m = absorb r (whole m)"
proof -
  have "absorb r m = absorb (absorb r (whole m)) (rest m)"
    using absorb_append [OF whole_rest(2), of r m "rest m"] whole_rest(1) by simp
  then show ?thesis using whole_rest(3) [of m] by simp
qed

lemma body_spec:
  assumes "sz = 64 * Suc k" "sz \<le> length data"
  shows "md5_body ctx data sz =
     (case absorb (ctx_regs ctx) (take sz data) of
        (a, b, c, d) \<Rightarrow> (ctx\<lparr>ctx_a := a, ctx_b := b, ctx_c := c, ctx_d := d\<rparr>, drop sz data))"
  using body_loop_spec [OF assms] by (simp add: md5_body_def ctx_regs_def split: prod.splits)

lemma unat_and_mask: "unat (w AND 0x1fffffff :: u64) = unat w mod 2 ^ 29"
proof -
  have "(0x1fffffff :: u64) = mask 29" by (simp add: mask_eq_exp_minus_1)
  then have "w AND 0x1fffffff = take_bit 29 w" by (simp add: take_bit_eq_mask)
  then show ?thesis by (simp only: unsigned_take_bit_eq) (simp only: take_bit_eq_mod)
qed

lemma count_spec:
  assumes lo: "unat (ctx_lo ctx) = n mod 2 ^ 29" and hi: "ctx_hi ctx = word_of_nat (n div 2 ^ 29)"
    and s: "s < 2 ^ 64"
  shows "unat (ctx_lo (md5_count ctx (word_of_nat s))) = (n + s) mod 2 ^ 29"
    and "ctx_hi (md5_count ctx (word_of_nat s)) = word_of_nat ((n + s) div 2 ^ 29)"
proof -
  let ?l = "(ucast (ctx_lo ctx) + word_of_nat s :: u64) AND 0x1fffffff"
  have small: "unat ?l < 2 ^ 29" unfolding unat_and_mask by simp
  have "unat (ucast (ctx_lo ctx) + word_of_nat s :: u64) mod 2 ^ 29 = (n mod 2 ^ 29 + s) mod 2 ^ 29"
    using lo s by (simp add: unat_word_ariths unsigned_of_nat take_bit_eq_mod unsigned_ucast_eq mod_mod_cancel)
  then have l: "unat ?l = (n + s) mod 2 ^ 29" unfolding unat_and_mask by (simp add: mod_add_left_eq)
  have ul: "unat (ucast ?l :: u32) = (n + s) mod 2 ^ 29"
    using l small by (simp add: unsigned_ucast_eq take_bit_eq_mod)
  then show "unat (ctx_lo (md5_count ctx (word_of_nat s))) = (n + s) mod 2 ^ 29"
    by (simp add: md5_count_def Let_def)
  have n: "n mod 2 ^ 29 < 2 ^ 29" "s mod 2 ^ 29 < 2 ^ 29" by simp_all
  have sum: "(n + s) mod 2 ^ 29 = (if n mod 2 ^ 29 + s mod 2 ^ 29 < 2 ^ 29 then n mod 2 ^ 29 + s mod 2 ^ 29
      else n mod 2 ^ 29 + s mod 2 ^ 29 - 2 ^ 29)"
    using n mod_add_eq [of n "2 ^ 29" s] le_mod_geq [of "2 ^ 29" "n mod 2 ^ 29 + s mod 2 ^ 29"] by (auto simp: mod_less)
  have carry: "(ucast ?l :: u32) < ctx_lo ctx \<longleftrightarrow> 2 ^ 29 \<le> n mod 2 ^ 29 + s mod 2 ^ 29"
    unfolding word_less_nat_alt ul lo sum using n by auto
  have dv: "(n + s) div 2 ^ 29 = n div 2 ^ 29 + s div 2 ^ 29
      + (if 2 ^ 29 \<le> n mod 2 ^ 29 + s mod 2 ^ 29 then 1 else 0)"
  proof (cases "2 ^ 29 \<le> n mod 2 ^ 29 + s mod 2 ^ 29")
    case True
    then have "(n mod 2 ^ 29 + s mod 2 ^ 29) div 2 ^ 29 = 1" using n by (intro div_nat_eqI) auto
    then show ?thesis using True div_add1_eq [of n s "2 ^ 29"] by simp
  next
    case False
    then show ?thesis using div_add1_eq [of n s "2 ^ 29"] by simp
  qed
  have top: "ucast (drop_bit 29 (word_of_nat s :: u64)) = (word_of_nat (s div 2 ^ 29) :: u32)"
  proof (rule word_eq_iff_unsigned [THEN iffD2])
    show "unat (ucast (drop_bit 29 (word_of_nat s :: u64)) :: u32) = unat (word_of_nat (s div 2 ^ 29) :: u32)"
      using s by (simp add: unsigned_ucast_eq unsigned_drop_bit_eq unsigned_of_nat take_bit_eq_mod drop_bit_eq_div unat_div)
  qed
  show "ctx_hi (md5_count ctx (word_of_nat s)) = word_of_nat ((n + s) div 2 ^ 29)"
    using carry unfolding dv by (simp add: md5_count_def Let_def top hi)
qed


subsection \<open>Updating\<close>

lemma buf_write_length [simp]: "pos + length src \<le> length buf \<Longrightarrow> length (buf_write buf pos src) = length buf"
  by (simp add: buf_write_def)

lemma buf_write_take: "pos \<le> length buf \<Longrightarrow> take (pos + length src) (buf_write buf pos src) = take pos buf @ src"
  by (simp add: buf_write_def)

lemma buf_write_at: "buf_write (xs @ ys) (length xs) src = xs @ src @ drop (length src) ys"
  by (simp add: buf_write_def)

lemma rest_append: "64 dvd length w \<Longrightarrow> rest (w @ d) = rest d"
proof -
  assume "64 dvd length w"
  then obtain k where k: "length w = 64 * k" by (rule dvdE)
  have "length (w @ d) mod 64 = length d mod 64" using k by simp
  moreover have "length (w @ d) - length d mod 64 = length w + (length d - length d mod 64)" by simp
  ultimately show ?thesis by (simp add: rest_def)
qed

lemma rest_id: "length d < 64 \<Longrightarrow> rest d = d"
  by (simp add: rest_def)

lemma split_rest: "m @ d = whole m @ (rest m @ d)"
  using whole_rest(1) [of m] by (metis append_assoc)

lemma rest_short: "length m mod 64 + length d < 64 \<Longrightarrow> rest (m @ d) = rest m @ d"
  unfolding split_rest [of m d] rest_append [OF whole_rest(2)] by (rule rest_id) (simp add: whole_rest(3))

lemma absorb_rest: "absorb r (m @ d) = absorb (absorb r m) (rest m @ d)"
  unfolding split_rest [of m d] absorb_append [OF whole_rest(2)] absorb_whole [of r m] ..

lemma update_blocks_spec:
  assumes b: "length (ctx_buffer ctx) = 64"
  shows "ctx_regs (md5_update_blocks ctx data) = absorb (ctx_regs ctx) data"
     and "length (ctx_buffer (md5_update_blocks ctx data)) = 64"
     and "take (length data mod 64) (ctx_buffer (md5_update_blocks ctx data)) = rest data"
     and "ctx_lo (md5_update_blocks ctx data) = ctx_lo ctx" "ctx_hi (md5_update_blocks ctx data) = ctx_hi ctx"
proof -
  have "ctx_regs (md5_update_blocks ctx data) = absorb (ctx_regs ctx) data
     \<and> length (ctx_buffer (md5_update_blocks ctx data)) = 64
     \<and> take (length data mod 64) (ctx_buffer (md5_update_blocks ctx data)) = rest data
     \<and> ctx_lo (md5_update_blocks ctx data) = ctx_lo ctx \<and> ctx_hi (md5_update_blocks ctx data) = ctx_hi ctx"
  proof (cases "64 \<le> length data")
    case False
    then show ?thesis using b buf_write_take [of 0 "ctx_buffer ctx" data]
      by (simp add: md5_update_blocks_def Let_def ctx_regs_def rest_id)
  next
    case True
    let ?n = "length data - length data mod 64"
    have "0 < length data div 64" using True by (simp add: div_greater_zero_iff)
    then obtain k where k: "length data div 64 = Suc k" by (cases "length data div 64") auto
    have n: "?n = 64 * Suc k" unfolding k [symmetric] by (simp add: minus_mod_eq_mult_div)
    have w: "take ?n data = whole data" "drop ?n data = rest data" by (simp_all add: whole_def rest_def)
    obtain A B C D where r: "absorb (ctx_regs ctx) (whole data) = (A, B, C, D)" by (cases "absorb (ctx_regs ctx) (whole data)")
    have "md5_body ctx data ?n = (ctx\<lparr>ctx_a := A, ctx_b := B, ctx_c := C, ctx_d := D\<rparr>, rest data)"
      using body_spec [OF n, of data ctx] r by (simp add: w)
    moreover have "take (length data mod 64) (rest data) = rest data" using whole_rest(3) [of data] by simp
    ultimately show ?thesis
      using True b r absorb_whole [of "ctx_regs ctx" data] whole_rest(3) [of data]
        buf_write_take [of 0 "ctx_buffer ctx" "rest data"]
      by (simp add: md5_update_blocks_def Let_def ctx_regs_def)
  qed
  then show "ctx_regs (md5_update_blocks ctx data) = absorb (ctx_regs ctx) data"
     and "length (ctx_buffer (md5_update_blocks ctx data)) = 64"
     and "take (length data mod 64) (ctx_buffer (md5_update_blocks ctx data)) = rest data"
     and "ctx_lo (md5_update_blocks ctx data) = ctx_lo ctx" "ctx_hi (md5_update_blocks ctx data) = ctx_hi ctx"
    by blast+
qed

lemma used_spec: "unat (lo AND 0x3f :: u32) = unat lo mod 64"
proof -
  have "(0x3f :: u32) = mask 6" by (simp add: mask_eq_exp_minus_1)
  then have "lo AND 0x3f = take_bit 6 lo" by (simp add: take_bit_eq_mask)
  then show ?thesis by (simp only: unsigned_take_bit_eq) (simp add: take_bit_eq_mod)
qed

lemma mod64: "n mod 2 ^ 29 mod 64 = n mod (64 :: nat)"
  by (simp add: mod_mod_cancel)

lemma update_spec:
  assumes c: "ctx_rel ctx m" and s: "length data < 2 ^ 64"
  shows "ctx_rel (MD5_Update ctx data) (m @ data)"
proof -
  let ?u = "length m mod 64"
  let ?ctx = "md5_count ctx (word_of_nat (length data))"
  have b: "length (ctx_buffer ctx) = 64" and lo: "unat (ctx_lo ctx) = length m mod 2 ^ 29"
    and hi: "ctx_hi ctx = word_of_nat (length m div 2 ^ 29)" and r: "ctx_regs ctx = absorb rfc_iv m"
    and t: "take ?u (ctx_buffer ctx) = rest m" using c by (simp_all add: ctx_rel_def)
  have used: "unat (ctx_lo ctx AND 0x3f) = ?u" unfolding used_spec lo mod64 ..
  note cnt = count_spec [OF lo hi s]
  have add: "(length m + k) mod 64 = (?u + k) mod 64" for k by (rule mod_add_left_eq [symmetric])
  have same: "ctx_buffer ?ctx = ctx_buffer ctx" "ctx_regs ?ctx = ctx_regs ctx"
    by (simp_all add: md5_count_def Let_def ctx_regs_def)
  have lm: "length (m @ data) = length m + length data" by (rule length_append)
  show ?thesis
  proof (cases "?u = 0")
    case True
    then have m: "64 dvd length m" by (rule mod_0_imp_dvd)
    have up: "MD5_Update ctx data = md5_update_blocks ?ctx data"
      unfolding MD5_Update_def Let_def used by (simp only: True) simp
    have sum: "(length m + length data) mod 64 = length data mod 64" unfolding add True add_0 ..
    note ub = update_blocks_spec [of ?ctx data, unfolded same, OF b]
    show ?thesis
      unfolding up ctx_rel_def ub(1,4,5) lm sum cnt absorb_append [OF m] rest_append [OF m] r
      by (intro conjI refl ub(2,3))
  next
    case u: False
    show ?thesis
    proof (cases "length data < 64 - ?u")
      case True
      have up: "MD5_Update ctx data = ?ctx\<lparr>ctx_buffer := buf_write (ctx_buffer ctx) ?u data\<rparr>"
        unfolding MD5_Update_def Let_def used same(1) by (simp only: u True if_True not_False_eq_True)
      have less: "?u + length data < 64" using True by simp
      have sum: "(length m + length data) mod 64 = ?u + length data" unfolding add by (rule mod_less [OF less])
      have fields: "ctx_lo (MD5_Update ctx data) = ctx_lo ?ctx" "ctx_hi (MD5_Update ctx data) = ctx_hi ?ctx"
        "ctx_regs (MD5_Update ctx data) = ctx_regs ctx"
        "ctx_buffer (MD5_Update ctx data) = buf_write (ctx_buffer ctx) ?u data"
        unfolding up same(2) [symmetric] by (simp_all add: ctx_regs_def)
      have "length (rest m @ data) < 64" unfolding length_append whole_rest(3) by (rule less)
      then have ab: "absorb rfc_iv (m @ data) = absorb rfc_iv m" unfolding absorb_rest [of rfc_iv m data] by (rule absorb_short)
      have "?u + length data \<le> length (ctx_buffer ctx)" "?u \<le> length (ctx_buffer ctx)" unfolding b using less by simp_all
      then have buf: "length (buf_write (ctx_buffer ctx) ?u data) = 64"
        "take (?u + length data) (buf_write (ctx_buffer ctx) ?u data) = rest m @ data"
        unfolding buf_write_take [OF \<open>?u \<le> length (ctx_buffer ctx)\<close>] t using buf_write_length b by simp_all
      show ?thesis
        unfolding ctx_rel_def fields lm sum cnt ab r rest_short [OF less]
        by (intro conjI refl buf)
    next
      case False
      let ?a = "64 - ?u"
      let ?x = "take ?a data" and ?y = "drop ?a data"
      let ?buf = "buf_write (ctx_buffer ctx) ?u ?x"
      have u64: "?u < 64" by simp
      have x: "length ?x = ?a" "?u + ?a = 64" using False u64 by simp_all
      have "drop (?u + length ?x) (ctx_buffer ctx) = []" unfolding x using b by simp
      then have buf: "?buf = rest m @ ?x" unfolding buf_write_def t by (simp only: append_Nil2)
      have bl: "length ?buf = 64" unfolding buf length_append whole_rest(3) x ..
      obtain A B C D where R: "absorb (ctx_regs ctx) ?buf = (A, B, C, D)" by (cases "absorb (ctx_regs ctx) ?buf")
      let ?c = "?ctx\<lparr>ctx_buffer := ?buf, ctx_a := A, ctx_b := B, ctx_c := C, ctx_d := D\<rparr>"
      have cf: "ctx_lo ?c = ctx_lo ?ctx" "ctx_hi ?c = ctx_hi ?ctx" "ctx_regs ?c = (A, B, C, D)" "ctx_buffer ?c = ?buf"
        by (simp_all add: ctx_regs_def)
      have rg: "ctx_regs (?ctx\<lparr>ctx_buffer := ?buf\<rparr>) = ctx_regs ctx" unfolding same(2) [symmetric] by (simp add: ctx_regs_def)
      have "take 64 ?buf = ?buf" using bl by simp
      then have "md5_body (?ctx\<lparr>ctx_buffer := ?buf\<rparr>) ?buf 64 = (?c, drop 64 ?buf)"
        using body_spec [of 64 0 ?buf "?ctx\<lparr>ctx_buffer := ?buf\<rparr>", unfolded rg] bl R by simp
      then have up: "MD5_Update ctx data = md5_update_blocks ?c ?y"
        unfolding MD5_Update_def Let_def used same(1) using u False by simp
      have l0: "length (m @ ?x) mod 64 = 0" unfolding length_append x(1) add x(2) by simp
      then have mx: "64 dvd length (m @ ?x)" by (rule mod_0_imp_dvd)
      have cat: "m @ data = (m @ ?x) @ ?y" by simp
      have "absorb rfc_iv (m @ ?x) = (A, B, C, D)"
        unfolding absorb_rest [of rfc_iv m ?x] buf [symmetric] r [symmetric] by (rule R)
      then have ab: "absorb rfc_iv (m @ data) = absorb (A, B, C, D) ?y"
        unfolding cat absorb_append [OF mx] by simp
      have re: "rest (m @ data) = rest ?y" unfolding cat by (rule rest_append [OF mx])
      have "length m + length data = length (m @ ?x) + length ?y" unfolding length_append [symmetric] cat [symmetric] ..
      then have sum: "(length m + length data) mod 64 = length ?y mod 64"
        using mod_add_left_eq [of "length (m @ ?x)" 64 "length ?y"] l0 by (metis add_0)
      note ub = update_blocks_spec [of ?c ?y, unfolded cf, OF bl]
      show ?thesis
        unfolding up ctx_rel_def ub(1,4,5) lm sum cnt ab re by (intro conjI refl ub(2,3))
    qed
  qed
qed

subsection \<open>The digest\<close>

lemma init_rel: "length (ctx_buffer ctx) = 64 \<Longrightarrow> ctx_rel (MD5_Init ctx) []"
  by (simp add: ctx_rel_def MD5_Init_def ctx_regs_def rfc_iv_def rest_def)

lemma length_bytes:
  assumes "unat lo = n mod 2 ^ 29"
  shows "push_bit 3 lo = (word_of_nat (8 * n) :: u32)" "8 * n div 2 ^ 32 = n div 2 ^ 29"
proof -
  have "lo = word_of_nat (n mod 2 ^ 29)" unfolding assms [symmetric] by simp
  then have "push_bit 3 lo = word_of_nat (8 * (n mod 2 ^ 29))" by (simp add: push_bit_eq_mult)
  also have "\<dots> = word_of_nat (8 * n)"
    by (simp add: word_of_nat_eq_iff take_bit_eq_mod mult_mod_right del: of_nat_mult)
  finally show "push_bit 3 lo = (word_of_nat (8 * n) :: u32)" .
  show "8 * n div 2 ^ 32 = n div 2 ^ 29" by (simp add: div_mult_mult1 [of 8 n "2 ^ 29", simplified])
qed

lemma body_one:
  assumes "length buf = 64"
  shows "ctx_regs (fst (md5_body ctx buf 64)) = absorb (ctx_regs ctx) buf"
    and "ctx_lo (fst (md5_body ctx buf 64)) = ctx_lo ctx" "ctx_hi (fst (md5_body ctx buf 64)) = ctx_hi ctx"
    and "ctx_buffer (fst (md5_body ctx buf 64)) = ctx_buffer ctx"
  using body_spec [of 64 0 buf ctx] assms by (simp_all add: ctx_regs_def split: prod.splits)

lemma absorb_reference:
  "rfc_md5 m = (case absorb rfc_iv (rfc_pad m) of (a, b, c, d) \<Rightarrow> le32 a @ le32 b @ le32 c @ le32 d)"
proof -
  have "rfc_compress = md5_compress" by (intro ext) (simp add: compress_eq)
  then show ?thesis by (simp add: rfc_md5_def absorb_def)
qed

lemma print_regs:
  "le32 (ctx_a c) @ le32 (ctx_b c) @ le32 (ctx_c c) @ le32 (ctx_d c)
     = (case ctx_regs c of (a, b, c, d) \<Rightarrow> le32 a @ le32 b @ le32 c @ le32 d)"
  by (simp add: ctx_regs_def)

text \<open>The end of \<open>MD5_Final\<close>: the length goes to the end of the buffer, the last block is absorbed.\<close>

definition finish :: "MD5_CTX \<Rightarrow> nat \<Rightarrow> nat \<Rightarrow> string" where
  "finish ctx used available =
     (let buf = buf_write (ctx_buffer ctx) used (replicate (available - 8) NUL);
          lo = push_bit 3 (ctx_lo ctx);
          buf = buf_write buf 56 (le32 lo @ le32 (ctx_hi ctx));
          ctx = fst (md5_body (ctx\<lparr>ctx_lo := lo, ctx_buffer := buf\<rparr>) buf 64)
      in le32 (ctx_a ctx) @ le32 (ctx_b ctx) @ le32 (ctx_c ctx) @ le32 (ctx_d ctx))"

lemma finish_spec:
  assumes "b = buf_write (buf_write (ctx_buffer ctx) used (replicate (available - 8) NUL)) 56
      (le32 (push_bit 3 (ctx_lo ctx)) @ le32 (ctx_hi ctx))"
    and "length b = 64"
  shows "finish ctx used available
     = (case absorb (ctx_regs ctx) b of (a, b, c, d) \<Rightarrow> le32 a @ le32 b @ le32 c @ le32 d)"
proof -
  have "finish ctx used available
     = (case ctx_regs (fst (md5_body (ctx\<lparr>ctx_lo := push_bit 3 (ctx_lo ctx), ctx_buffer := b\<rparr>) b 64)) of
          (a, b, c, d) \<Rightarrow> le32 a @ le32 b @ le32 c @ le32 d)"
    unfolding finish_def Let_def print_regs assms(1) ..
  also have "ctx_regs (fst (md5_body (ctx\<lparr>ctx_lo := push_bit 3 (ctx_lo ctx), ctx_buffer := b\<rparr>) b 64))
      = absorb (ctx_regs ctx) b"
    unfolding body_one(1) [OF assms(2)] by (simp add: ctx_regs_def)
  finally show ?thesis .
qed

lemma MD5_Final_finish:
  assumes "unat (ctx_lo ctx AND 0x3f) = u" "b0 = buf_write (ctx_buffer ctx) u [char_of (0x80 :: nat)]"
    and "b1 = buf_write b0 (u + 1) (replicate (64 - (u + 1)) NUL)"
  shows "MD5_Final ctx = (if 64 - (u + 1) < 8
     then finish (fst (md5_body (ctx\<lparr>ctx_buffer := b1\<rparr>) b1 64)) 0 64
     else finish (ctx\<lparr>ctx_buffer := b0\<rparr>) (u + 1) (64 - (u + 1)))"
  unfolding MD5_Final_def finish_def Let_def assms by simp

lemma final_spec:
  assumes c: "ctx_rel ctx m"
  shows "MD5_Final ctx = rfc_md5 m"
proof -
  let ?u = "length m mod 64" and ?one = "char_of (0x80 :: nat)"
  let ?L = "rfc_length (length m)"
  have b: "length (ctx_buffer ctx) = 64" and lo: "unat (ctx_lo ctx) = length m mod 2 ^ 29"
    and hi: "ctx_hi ctx = word_of_nat (length m div 2 ^ 29)" and r: "ctx_regs ctx = absorb rfc_iv m"
    and t: "take ?u (ctx_buffer ctx) = rest m" using c by (simp_all add: ctx_rel_def)
  have used: "unat (ctx_lo ctx AND 0x3f) = ?u" unfolding used_spec lo mod64 ..
  have L: "le32 (push_bit 3 (ctx_lo ctx)) @ le32 (ctx_hi ctx) = ?L"
    using length_bytes [OF lo] hi by (simp add: rfc_length_def)
  have L8: "length ?L = 8" by (simp add: rfc_length_def)
  have u64: "?u < 64" by simp
  let ?b0 = "buf_write (ctx_buffer ctx) ?u [?one]"
  have b0: "length ?b0 = 64" "take (Suc ?u) ?b0 = rest m @ [?one]"
    using b u64 t buf_write_take [of ?u "ctx_buffer ctx" "[?one]"] by simp_all
  show ?thesis
  proof (cases "64 - Suc ?u < 8")
    case True
    let ?b1 = "buf_write ?b0 (Suc ?u) (replicate (64 - Suc ?u) NUL)"
    have b1: "?b1 = rest m @ ?one # replicate (63 - ?u) NUL"
      unfolding buf_write_def [of ?b0] b0(2) using b0(1) u64 by simp
    then have b1l: "length ?b1 = 64" using u64 whole_rest(3) [of m] by simp
    let ?c1 = "fst (md5_body (ctx\<lparr>ctx_buffer := ?b1\<rparr>) ?b1 64)"
    note bo = body_one [OF b1l, of "ctx\<lparr>ctx_buffer := ?b1\<rparr>"]
    let ?z = "?one # replicate (63 - ?u) NUL"
    have "ctx_regs (ctx\<lparr>ctx_buffer := ?b1\<rparr>) = ctx_regs ctx" by (simp add: ctx_regs_def)
    then have r1: "ctx_regs ?c1 = absorb rfc_iv (m @ ?z)"
      unfolding absorb_rest [of rfc_iv m ?z] using bo(1) r b1 by simp
    let ?b3 = "replicate 56 NUL @ ?L"
    have "buf_write ?b1 0 (replicate 56 NUL) = replicate 56 NUL @ drop 56 ?b1"
      unfolding buf_write_def [of ?b1] by simp
    then have b3: "?b3 = buf_write (buf_write (ctx_buffer ?c1) 0 (replicate (64 - 8) NUL)) 56
        (le32 (push_bit 3 (ctx_lo ?c1)) @ le32 (ctx_hi ?c1))"
      using bo(2-4) L b1l L8 buf_write_def [of "replicate 56 NUL @ drop 56 ?b1"] by simp
    have b3l: "length ?b3 = 64" using L8 by simp
    have "MD5_Final ctx = finish ?c1 0 64"
      using MD5_Final_finish [OF used refl refl] True by simp
    then have "MD5_Final ctx = (case absorb (absorb rfc_iv (m @ ?z)) ?b3 of
        (a, b, c, d) \<Rightarrow> le32 a @ le32 b @ le32 c @ le32 d)"
      unfolding finish_spec [OF b3 b3l] r1 .
    also have "absorb (absorb rfc_iv (m @ ?z)) ?b3 = absorb rfc_iv ((m @ ?z) @ ?b3)"
    proof (rule absorb_append [symmetric])
      have e: "length (m @ ?z) = length m + (64 - ?u)" using u64 by simp
      have "?u + (64 - ?u) = 64" using u64 by simp
      then have "length (m @ ?z) mod 64 = 0"
        unfolding e using mod_add_left_eq [of "length m" 64 "64 - ?u"] by (metis mod_self)
      then show "64 dvd length (m @ ?z)" by (rule mod_0_imp_dvd)
    qed
    also have "(m @ ?z) @ ?b3 = rfc_pad m"
    proof -
      have "119 - ?u = (63 - ?u) + 56" "\<not> ?u < 56" using True u64 by simp_all
      then have z: "rfc_zeros (length m) = (63 - ?u) + 56" unfolding rfc_zeros_def by (simp only: if_False)
      show ?thesis unfolding rfc_pad_def z replicate_add by simp
    qed
    finally show ?thesis unfolding absorb_reference .
  next
    case False
    then have u: "?u < 56" by simp
    let ?b3 = "rest m @ ?one # replicate (55 - ?u) NUL @ ?L"
    let ?b2 = "buf_write ?b0 (Suc ?u) (replicate (64 - Suc ?u - 8) NUL)"
    have "Suc ?u + (55 - ?u) = 56" using u by simp
    then have b2: "?b2 = (rest m @ ?one # replicate (55 - ?u) NUL) @ drop 56 ?b0"
      unfolding buf_write_def [of ?b0] b0(2) by simp
    have P: "length (rest m @ ?one # replicate (55 - ?u) NUL) = 56" using u whole_rest(3) [of m] by simp
    have b3: "buf_write ?b2 56 ?L = ?b3"
      unfolding b2 using buf_write_at [of "rest m @ ?one # replicate (55 - ?u) NUL" "drop 56 ?b0" ?L, unfolded P] b0(1) L8
      by simp
    have b3l: "length ?b3 = 64" using L8 u whole_rest(3) [of m] by simp
    let ?c0 = "ctx\<lparr>ctx_buffer := ?b0\<rparr>"
    have b3': "?b3 = buf_write (buf_write (ctx_buffer ?c0) (?u + 1) (replicate (64 - (?u + 1) - 8) NUL)) 56
        (le32 (push_bit 3 (ctx_lo ?c0)) @ le32 (ctx_hi ?c0))"
      using b3 L by simp
    have r0: "ctx_regs ?c0 = absorb rfc_iv m" using r by (simp add: ctx_regs_def)
    have "MD5_Final ctx = finish ?c0 (?u + 1) (64 - (?u + 1))"
      using MD5_Final_finish [OF used refl refl] False by simp
    then have "MD5_Final ctx = (case absorb (absorb rfc_iv m) ?b3 of
        (a, b, c, d) \<Rightarrow> le32 a @ le32 b @ le32 c @ le32 d)"
      unfolding finish_spec [OF b3' b3l] r0 .
    also have "absorb (absorb rfc_iv m) ?b3 = absorb rfc_iv (m @ ?one # replicate (55 - ?u) NUL @ ?L)"
      unfolding absorb_rest [of rfc_iv m "?one # replicate (55 - ?u) NUL @ ?L"] ..
    also have "m @ ?one # replicate (55 - ?u) NUL @ ?L = rfc_pad m"
      using u by (simp add: rfc_pad_def rfc_zeros_def)
    finally show ?thesis unfolding absorb_reference .
  qed
qed

lemma updates_spec:
  assumes "ctx_rel ctx m" "\<forall>d \<in> set chunks. length d < 2 ^ 64"
  shows "ctx_rel (foldl MD5_Update ctx chunks) (m @ concat chunks)"
  using assms
proof (induction chunks arbitrary: ctx m)
  case (Cons d ds)
  then show ?case using update_spec [of ctx m d] Cons.IH [of "MD5_Update ctx d" "m @ d"] by simp
qed simp

text \<open>C30: the implementation computes MD5. However a message is cut into the pieces given to
  \<open>MD5_Update\<close>, and whatever was in the buffer before, the result is the digest RFC 1321 defines.\<close>

theorem md5_correct:
  assumes "length (ctx_buffer ctx) = 64" and "\<forall>d \<in> set chunks. length d < 2 ^ 64"
  shows "MD5_Final (foldl MD5_Update (MD5_Init ctx) chunks) = rfc_md5 (concat chunks)"
  using final_spec [OF updates_spec [OF init_rel [OF assms(1)] assms(2)]] by simp

lemma md5_correct_witness:
  "MD5_Final (MD5_Update (MD5_Update (MD5_Init md5_ctx0) ''ab'') ''c'') = rfc_md5 ''abc''"
  using md5_correct [of md5_ctx0 "[''ab'', ''c'']"] by (simp add: md5_ctx0_def)

end
