(* ===== verification/Allocator.thy ===== *)
theory Allocator
  imports CPrelude
begin

text \<open>
  The allocator of hw3/mm_alloc.c: \<open>mm_malloc\<close>, \<open>mm_free\<close> and \<open>mm_realloc\<close> on memory from
  \<open>sbrk\<close>, with a doubly linked list of slots, each a header of 32 bytes in front of its data.

  The state is the memory between the first address and the break: headers by their address,
  data bytes (a byte that is part of a header or was never written is no data byte), and the
  globals of the file. A \<open>memset\<close> over a header destroys it. \<open>size_t\<close> is a number below
  \<open>2 ^ 64\<close>, with the wrap-around written out.

  The model only; HeapLayout and HeapAlloc hold the proofs.
\<close>

subsection \<open>Memory\<close>

record slot =
  s_prev :: "nat option"
  s_next :: "nat option"
  s_isFree :: bool
  s_size :: nat

record mm =
  mm_slots :: "nat \<rightharpoonup> slot"
  mm_data :: "nat \<rightharpoonup> char"
  mm_head :: "nat option"
  mm_tail :: "nat option"
  mm_isInit :: bool
  mm_low :: nat  \<comment> \<open>where the break was at the start\<close>
  mm_brk :: nat
  mm_limit :: nat  \<comment> \<open>how far the system lets the break move\<close>

text \<open>\<open>sizeof(slot)\<close>: two pointers, a \<open>bool\<close> with its padding and a \<open>size_t\<close>.\<close>

definition slot_bytes :: nat where "slot_bytes = 32"

definition wrap64 :: "nat \<Rightarrow> nat" where "wrap64 n = n mod 2 ^ 64"

definition sub64 :: "nat \<Rightarrow> nat \<Rightarrow> nat" where "sub64 a b = (a + (2 ^ 64 - b)) mod 2 ^ 64"

text \<open>
  \<open>sbrk\<close> takes a signed increment and returns the old break, or \<open>-1\<close> (here \<open>None\<close>). Memory
  above a lowered break is gone.
\<close>

definition sbrk :: "mm \<Rightarrow> nat \<Rightarrow> (nat \<times> mm) option" where
  "sbrk s inc =
     (let b = (if inc < 2 ^ 63 then int (mm_brk s) + int inc
               else int (mm_brk s) + int inc - 2 ^ 64)
      in if b < int (mm_low s) \<or> int (mm_limit s) < b then None
         else if int (mm_brk s) \<le> b then Some (mm_brk s, s\<lparr>mm_brk := nat b\<rparr>)
         else Some (mm_brk s, s\<lparr>mm_brk := nat b,
                 mm_data := (\<lambda>i. if nat b \<le> i then None else mm_data s i),
                 mm_slots := (\<lambda>x. if nat b < x + slot_bytes then None else mm_slots s x)\<rparr>))"

text \<open>Writing all fields of a header, changing a field, and \<open>memset(a, 0, n)\<close>.\<close>

definition put_slot :: "mm \<Rightarrow> nat \<Rightarrow> slot \<Rightarrow> mm option" where
  "put_slot s a v =
     (if mm_brk s < a + slot_bytes then None
      else Some (s\<lparr>mm_slots := (\<lambda>x. if x = a then Some v
                      else if x < a + slot_bytes \<and> a < x + slot_bytes then None else mm_slots s x),
                   mm_data := (\<lambda>i. if a \<le> i \<and> i < a + slot_bytes then None else mm_data s i)\<rparr>))"

definition upd_slot :: "mm \<Rightarrow> nat \<Rightarrow> (slot \<Rightarrow> slot) \<Rightarrow> mm option" where
  "upd_slot s a f = do { v \<leftarrow> mm_slots s a; Some (s\<lparr>mm_slots := (mm_slots s)(a \<mapsto> f v)\<rparr>) }"

definition memset0 :: "mm \<Rightarrow> nat \<Rightarrow> nat \<Rightarrow> mm option" where
  "memset0 s a n =
     (if n = 0 then Some s
      else if mm_brk s < a + n then None
      else Some (s\<lparr>mm_slots := (\<lambda>x. if x < a + n \<and> a < x + slot_bytes then None else mm_slots s x),
                   mm_data := (\<lambda>i. if a \<le> i \<and> i < a + n then Some NUL else mm_data s i)\<rparr>))"

definition memcpy :: "mm \<Rightarrow> nat \<Rightarrow> nat \<Rightarrow> nat \<Rightarrow> mm option" where
  "memcpy s dst src n =
     (if n = 0 then Some s
      else if mm_brk s < dst + n \<or> (\<exists>i \<in> {src..<src + n}. mm_data s i = None) then None
      else Some (s\<lparr>mm_slots := (\<lambda>x. if x < dst + n \<and> dst < x + slot_bytes then None else mm_slots s x),
                   mm_data := (\<lambda>i. if dst \<le> i \<and> i < dst + n then mm_data s (src + (i - dst))
                                   else mm_data s i)\<rparr>))"

subsection \<open>The functions of the file\<close>

definition init_malloc :: "mm \<Rightarrow> mm option" where
  "init_malloc s =
     (if mm_isInit s then None
      else do { (a, s1) \<leftarrow> sbrk s slot_bytes;
                s2 \<leftarrow> put_slot s1 a \<lparr>s_prev = None, s_next = None, s_isFree = False, s_size = 0\<rparr>;
                Some (s2\<lparr>mm_head := Some a, mm_isInit := True, mm_tail := Some a\<rparr>) })"

partial_function (option) find_loop ::
  "(nat \<rightharpoonup> slot) \<Rightarrow> nat option \<Rightarrow> nat \<Rightarrow> nat option option" where
  "find_loop h iter sz =
     (case iter of
        None \<Rightarrow> Some None
      | Some a \<Rightarrow>
          do { x \<leftarrow> h a;
               if s_isFree x \<and> sz \<le> s_size x then Some (Some a)
               else find_loop h (s_next x) sz })"

definition find_list_elem :: "mm \<Rightarrow> nat \<Rightarrow> nat option option" where
  "find_list_elem s sz =
     (if mm_head s = None then None else find_loop (mm_slots s) (mm_head s) sz)"

text \<open>\<open>cut_slot\<close>: the assignments of \<open>split_slot\<close> that make the new slot.\<close>

definition cut_slot :: "mm \<Rightarrow> nat \<Rightarrow> slot \<Rightarrow> nat \<Rightarrow> nat \<Rightarrow> nat \<Rightarrow> mm option" where
  "cut_slot s old x sz new rest =
     do { s1 \<leftarrow> put_slot s new \<lparr>s_prev = Some old, s_next = s_next x, s_isFree = True,
                s_size = rest\<rparr>;
          s2 \<leftarrow> upd_slot s1 old (s_next_update (\<lambda>_. Some new));
          s3 \<leftarrow> (case s_next x of
                  Some nx \<Rightarrow> upd_slot s2 nx (s_prev_update (\<lambda>_. Some new))
                | None \<Rightarrow> Some (s2\<lparr>mm_tail := Some new\<rparr>));
          upd_slot s3 old (s_size_update (\<lambda>_. sz)) }"

definition split_slot :: "mm \<Rightarrow> nat \<Rightarrow> nat \<Rightarrow> mm option" where
  "split_slot s old sz =
     do { x \<leftarrow> mm_slots s old;
          s' \<leftarrow> (if wrap64 (sz + (slot_bytes + 4)) \<le> s_size x then
             (let new = old + slot_bytes + sz; rest = sub64 (sub64 (s_size x) sz) slot_bytes in
              do { s1 \<leftarrow> cut_slot s old x sz new rest;
                   memset0 s1 (new + slot_bytes) rest })
           else Some s);
          y \<leftarrow> mm_slots s' old;
          memset0 s' (old + slot_bytes) (s_size y) }"

partial_function (option) find_location_loop ::
  "(nat \<rightharpoonup> slot) \<Rightarrow> nat option \<Rightarrow> nat \<Rightarrow> nat option option" where
  "find_location_loop h iter data_pnt =
     (case iter of
        None \<Rightarrow> Some None
      | Some a \<Rightarrow>
          if a + slot_bytes = data_pnt then Some (Some a)
          else do { x \<leftarrow> h a; find_location_loop h (s_next x) data_pnt })"

definition find_list_elem_data_location :: "mm \<Rightarrow> nat \<Rightarrow> nat option option" where
  "find_list_elem_data_location s data_pnt =
     find_location_loop (mm_slots s) (mm_head s) data_pnt"

text \<open>\<open>slot_pnt->size += n + sizeof(slot)\<close>\<close>

definition grow_slot :: "mm \<Rightarrow> nat \<Rightarrow> nat \<Rightarrow> mm option" where
  "grow_slot s slot_pnt n =
     upd_slot s slot_pnt (\<lambda>v. v\<lparr>s_size := wrap64 (s_size v + (n + slot_bytes))\<rparr>)"

text \<open>The two loops of \<open>merge_free_space\<close>; they return \<open>last\<close> and \<open>tmp_head\<close>.\<close>

partial_function (option) merge_forward ::
  "mm \<Rightarrow> nat \<Rightarrow> nat option \<Rightarrow> nat \<Rightarrow> (mm \<times> nat) option" where
  "merge_forward s slot_pnt iter lst =
     (case iter of
        None \<Rightarrow> Some (s, lst)
      | Some a \<Rightarrow>
          do { x \<leftarrow> mm_slots s a;
               if s_isFree x then
                 do { s' \<leftarrow> grow_slot s slot_pnt (s_size x);
                      merge_forward s' slot_pnt (s_next x) a }
               else Some (s, lst) })"

partial_function (option) merge_backward ::
  "mm \<Rightarrow> nat \<Rightarrow> nat option \<Rightarrow> (mm \<times> nat) option" where
  "merge_backward s tmp_head iter =
     (if iter = mm_head s then Some (s, tmp_head)
      else do {
        a \<leftarrow> iter;
        x \<leftarrow> mm_slots s a;
        if s_isFree x then
          do { nx \<leftarrow> s_next x;
               y \<leftarrow> mm_slots s nx;
               s' \<leftarrow> grow_slot s a (s_size y);
               merge_backward s' a (s_prev x) }
        else Some (s, tmp_head) })"

text \<open>\<open>to->next = nx; if (nx == NULL) tail = to; else nx->prev = to;\<close>\<close>

definition relink :: "mm \<Rightarrow> nat \<Rightarrow> nat option \<Rightarrow> mm option" where
  "relink s to nx =
     do { s' \<leftarrow> upd_slot s to (s_next_update (\<lambda>_. nx));
          case nx of
            None \<Rightarrow> Some (s'\<lparr>mm_tail := Some to\<rparr>)
          | Some b \<Rightarrow> upd_slot s' b (s_prev_update (\<lambda>_. Some to)) }"

definition merge_free_space :: "mm \<Rightarrow> nat \<Rightarrow> mm option" where
  "merge_free_space s slot_pnt =
     do { x \<leftarrow> mm_slots s slot_pnt;
          (s1, lst) \<leftarrow> merge_forward s slot_pnt (s_next x) slot_pnt;
          s2 \<leftarrow> (if lst \<noteq> slot_pnt
                then do { l \<leftarrow> mm_slots s1 lst; relink s1 slot_pnt (s_next l) } else Some s1);
          y \<leftarrow> mm_slots s2 slot_pnt;
          s3 \<leftarrow> memset0 s2 (slot_pnt + slot_bytes) (s_size y);
          (s4, tmp_head) \<leftarrow> merge_backward s3 slot_pnt (s_prev y);
          if tmp_head \<noteq> slot_pnt then
            do { z \<leftarrow> mm_slots s4 slot_pnt;
                 s5 \<leftarrow> relink s4 tmp_head (s_next z);
                 t \<leftarrow> mm_slots s5 tmp_head;
                 memset0 s5 (tmp_head + slot_bytes) (s_size t) }
          else Some s4 }"

text \<open>Results: the pointer, with NULL as \<open>None\<close>, and the new state.\<close>

definition malloc_at_tail :: "mm \<Rightarrow> nat \<Rightarrow> (nat option \<times> mm) option" where
  "malloc_at_tail s sz =
     do { tl \<leftarrow> mm_tail s;
          x \<leftarrow> mm_slots s tl;
          if s_isFree x then
            (case sbrk s (sub64 sz (s_size x)) of
               None \<Rightarrow> Some (None, s)
             | Some (_, s1) \<Rightarrow>
                 do { s2 \<leftarrow> memset0 s1 (tl + slot_bytes) sz;
                      s3 \<leftarrow> upd_slot s2 tl (\<lambda>v. v\<lparr>s_size := sz, s_isFree := False\<rparr>);
                      Some (Some (tl + slot_bytes), s3) })
          else
            (case sbrk s (wrap64 (slot_bytes + sz)) of
               None \<Rightarrow> Some (None, s)
             | Some (new, s1) \<Rightarrow>
                 do { s2 \<leftarrow> memset0 s1 new (wrap64 (slot_bytes + sz));
                      s3 \<leftarrow> put_slot s2 new \<lparr>s_prev = Some tl, s_next = None, s_isFree = False,
                                           s_size = sz\<rparr>;
                      s4 \<leftarrow> upd_slot s3 tl (s_next_update (\<lambda>_. Some new));
                      Some (Some (new + slot_bytes), s4\<lparr>mm_tail := Some new\<rparr>) }) }"

definition mm_malloc :: "mm \<Rightarrow> nat \<Rightarrow> (nat option \<times> mm) option" where
  "mm_malloc s sz =
     do { s \<leftarrow> (if mm_isInit s then Some s else init_malloc s);
          if sz = 0 then Some (None, s)
          else do { possible \<leftarrow> find_list_elem s sz;
                    case possible of
                      Some a \<Rightarrow>
                        do { s1 \<leftarrow> split_slot s a sz;
                             s2 \<leftarrow> upd_slot s1 a (s_isFree_update (\<lambda>_. False));
                             Some (Some (a + slot_bytes), s2) }
                    | None \<Rightarrow> malloc_at_tail s sz } }"

definition mm_free :: "mm \<Rightarrow> nat option \<Rightarrow> mm option" where
  "mm_free s ptr =
     (case ptr of
        None \<Rightarrow> Some s
      | Some p \<Rightarrow>
          do { found \<leftarrow> find_list_elem_data_location s p;
               a \<leftarrow> found;
               x \<leftarrow> mm_slots s a;
               s1 \<leftarrow> memset0 s p (s_size x);
               s2 \<leftarrow> upd_slot s1 a (s_isFree_update (\<lambda>_. True));
               merge_free_space s2 a })"

definition mm_realloc :: "mm \<Rightarrow> nat option \<Rightarrow> nat \<Rightarrow> (nat option \<times> mm) option" where
  "mm_realloc s ptr sz =
     (if sz = 0 then do { s' \<leftarrow> mm_free s ptr; Some (None, s') }
      else case ptr of
        None \<Rightarrow> mm_malloc s sz
      | Some p \<Rightarrow>
          do { found \<leftarrow> find_list_elem_data_location s p;
               (new_ptr, s1) \<leftarrow> mm_malloc s sz;
               case new_ptr of
                 None \<Rightarrow> Some (None, s1)
               | Some q \<Rightarrow>
                   do { cur \<leftarrow> found;
                        x \<leftarrow> mm_slots s1 cur;
                        s2 \<leftarrow> memcpy s1 q p (if s_size x \<le> sz then s_size x else sz);
                        s3 \<leftarrow> mm_free s2 (Some p);
                        Some (Some q, s3) } })"

end
