(* ===== verification/HeapLayout.thy ===== *)
theory HeapLayout
  imports Allocator
begin

text \<open>
  The layout of the allocator's memory (hw3/mm_alloc.c). \<open>lay s a0 L\<close> says that the list of
  slots is the tiling \<open>L\<close> of all memory from \<open>a0\<close> to the break; the lemmas follow it through
  splitting, joining, searching and \<open>mm_free\<close>. \<open>mm_ok s a0 bs\<close> is the invariant: a tiling with
  no two free slots side by side, with the data of every block in use there.
\<close>

subsection \<open>Tilings\<close>

text \<open>A block is a size and whether it is free; \<open>tiles h p a bs nx\<close> lays out \<open>bs\<close> from \<open>a\<close> on.\<close>

type_synonym blk = "nat \<times> bool"

fun tiles :: "(nat \<rightharpoonup> slot) \<Rightarrow> nat option \<Rightarrow> nat \<Rightarrow> blk list \<Rightarrow> nat option \<Rightarrow> bool" where
  "tiles h p a [] nx \<longleftrightarrow> True"
| "tiles h p a ((n, f) # bs) nx \<longleftrightarrow>
     h a = Some \<lparr>s_prev = p, s_next = (if bs = [] then nx else Some (a + slot_bytes + n)),
                 s_isFree = f, s_size = n\<rparr>
     \<and> tiles h (Some a) (a + slot_bytes + n) bs nx"

definition extent :: "blk list \<Rightarrow> nat" where
  "extent bs = sum_list (map (\<lambda>b. slot_bytes + fst b) bs)"

fun addrs :: "nat \<Rightarrow> blk list \<Rightarrow> nat list" where
  "addrs a [] = []"
| "addrs a (b # bs) = a # addrs (a + slot_bytes + fst b) bs"

fun last_addr :: "nat option \<Rightarrow> nat \<Rightarrow> blk list \<Rightarrow> nat option" where
  "last_addr p a [] = p"
| "last_addr p a (b # bs) = last_addr (Some a) (a + slot_bytes + fst b) bs"

lemma extent_simps [simp]:
  "extent [] = 0" "extent (b # bs) = slot_bytes + fst b + extent bs"
  "extent (xs @ ys) = extent xs + extent ys"
  by (simp_all add: extent_def)

lemma last_addr_append [simp]:
  "last_addr p a (xs @ b # ys) = last_addr (Some (a + extent xs)) (a + extent xs + slot_bytes + fst b) ys"
  by (induction xs arbitrary: p a) (simp_all add: add.assoc)

lemma tiles_append:
  "tiles h p a (xs @ ys) nx \<longleftrightarrow>
     tiles h p a xs (if ys = [] then nx else Some (a + extent xs))
     \<and> tiles h (last_addr p a xs) (a + extent xs) ys nx"
proof (induction xs arbitrary: p a)
  case Nil
  then show ?case by simp
next
  case (Cons b xs)
  then show ?case by (cases b; cases xs) (auto simp: add.assoc)
qed

lemma addrs_bounds: "x \<in> set (addrs a bs) \<Longrightarrow> a \<le> x \<and> x + slot_bytes \<le> a + extent bs"
  by (induction bs arbitrary: a) fastforce+

lemma addrs_append [simp]: "addrs a (xs @ ys) = addrs a xs @ addrs (a + extent xs) ys"
  by (induction xs arbitrary: a) (simp_all add: add.assoc)

lemma tiles_cong:
  "(\<And>x. x \<in> set (addrs a bs) \<Longrightarrow> h' x = h x) \<Longrightarrow> tiles h' p a bs nx = tiles h p a bs nx"
proof (induction bs arbitrary: p a)
  case Nil
  then show ?case by simp
next
  case (Cons b bs)
  then show ?case by (cases b) simp
qed

lemma slot_bytes_pos [simp]: "0 < slot_bytes" "slot_bytes \<noteq> 0"
  by (simp_all add: slot_bytes_def)


lemma addrs_data:
  assumes "x \<in> set (addrs a (xs @ (n, f) # ys))"
  shows "x + slot_bytes \<le> a + extent xs + slot_bytes \<or> a + extent xs + slot_bytes + n \<le> x"
  using assms addrs_bounds [of x a xs] addrs_bounds [of x "a + extent xs + slot_bytes + n" ys]
  by (auto simp: add.assoc)

lemma tile_at:
  "tiles h p a (xs @ (n, f) # ys) nx \<Longrightarrow> h (a + extent xs) = Some
     \<lparr>s_prev = last_addr p a xs, s_next = (if ys = [] then nx else Some (a + extent xs + slot_bytes + n)),
      s_isFree = f, s_size = n\<rparr>"
  by (simp add: tiles_append)

lemma tiles_reprev:
  assumes "tiles h p a (b # ys) nx" "h' a = map_option (s_prev_update (\<lambda>_. q)) (h a)"
    and "\<And>x. x \<in> set (addrs (a + slot_bytes + fst b) ys) \<Longrightarrow> h' x = h x"
  shows "tiles h' q a (b # ys) nx"
  using assms tiles_cong [of "a + slot_bytes + fst b" ys h' h] by (cases b) auto

text \<open>Replacing blocks in the middle by blocks of the same extent.\<close>

lemma tiles_replace:
  assumes t: "tiles h p a (xs @ ms @ ys) nx" and ne: "ms \<noteq> []" "ms' \<noteq> []" "extent ms' = extent ms"
    and same: "\<And>x. x \<in> set (addrs a xs) \<Longrightarrow> h' x = h x"
    and mid: "tiles h' (last_addr p a xs) (a + extent xs) ms'
       (if ys = [] then nx else Some (a + extent xs + extent ms))"
    and nxt: "ys \<noteq> [] \<Longrightarrow> h' (a + extent xs + extent ms)
       = map_option (s_prev_update (\<lambda>_. last_addr (last_addr p a xs) (a + extent xs) ms'))
           (h (a + extent xs + extent ms))"
    and rest: "\<And>x. x \<in> set (tl (addrs (a + extent xs + extent ms) ys)) \<Longrightarrow> h' x = h x"
  shows "tiles h' p a (xs @ ms' @ ys) nx"
proof -
  have "tiles h' p a xs (Some (a + extent xs))"
    using t ne tiles_cong [OF same] by (simp add: tiles_append)
  moreover have "tiles h' (last_addr (last_addr p a xs) (a + extent xs) ms')
      (a + extent xs + extent ms) ys nx"
  proof (cases ys)
    case (Cons b bs)
    then have "tiles h (last_addr (last_addr p a xs) (a + extent xs) ms) (a + extent xs + extent ms)
        (b # bs) nx"
      using t by (simp add: tiles_append add.assoc)
    then show ?thesis
      unfolding Cons by (rule tiles_reprev) (use nxt rest Cons in auto)
  qed simp
  ultimately show ?thesis using mid ne by (cases "ys = []") (simp_all add: tiles_append add.assoc)
qed

text \<open>The list of slots is the layout \<open>L\<close> of all memory from \<open>a0\<close> to the break.\<close>

definition lay :: "mm \<Rightarrow> nat \<Rightarrow> blk list \<Rightarrow> bool" where
  "lay s a0 L \<longleftrightarrow>
     mm_isInit s \<and> mm_head s = Some a0 \<and> L \<noteq> [] \<and> tiles (mm_slots s) None a0 L None
     \<and> mm_tail s = last_addr None a0 L \<and> mm_brk s = a0 + extent L
     \<and> mm_low s \<le> a0 \<and> mm_brk s \<le> mm_limit s \<and> mm_limit s < 2 ^ 63"

lemma lay_at:
  assumes "lay s a0 (xs @ (n, f) # ys)"
  shows "mm_slots s (a0 + extent xs) = Some \<lparr>s_prev = last_addr None a0 xs,
     s_next = (if ys = [] then None else Some (a0 + extent xs + slot_bytes + n)), s_isFree = f, s_size = n\<rparr>"
    and "n < 2 ^ 63" "a0 + extent xs + slot_bytes + n \<le> mm_brk s"
  using tile_at [of "mm_slots s" None a0 xs n f ys None] assms by (auto simp: lay_def)

lemma lay_next:
  assumes "lay s a0 (xs @ (n, f) # (m, g) # ys)"
  shows "mm_slots s (a0 + extent xs + slot_bytes + n) = Some \<lparr>s_prev = Some (a0 + extent xs),
     s_next = (if ys = [] then None else Some (a0 + extent xs + slot_bytes + n + slot_bytes + m)),
     s_isFree = g, s_size = m\<rparr>"
  using lay_at(1) [of s a0 "xs @ [(n, f)]" m g ys] assms by (simp add: add.assoc)

text \<open>Clearing the data of a block, and changing its flag.\<close>

lemma memset_block:
  assumes l: "lay s a0 (xs @ (n, f) # ys)" and A: "A = a0 + extent xs + slot_bytes"
  shows "\<exists>s'. memset0 s A n = Some s' \<and> lay s' a0 (xs @ (n, f) # ys)
     \<and> mm_data s' = (\<lambda>i. if A \<le> i \<and> i < A + n then Some NUL else mm_data s i)"
proof (cases "n = 0")
  case True
  then show ?thesis using l by (auto simp: memset0_def intro!: ext)
next
  case False
  let ?h = "\<lambda>x. if x < A + n \<and> A < x + slot_bytes then None else mm_slots s x"
  have "?h x = mm_slots s x" if "x \<in> set (addrs a0 (xs @ (n, f) # ys))" for x
    using addrs_data [OF that] A by auto
  then have "tiles ?h None a0 (xs @ (n, f) # ys) None = tiles (mm_slots s) None a0 (xs @ (n, f) # ys) None"
    by (rule tiles_cong)
  then show ?thesis using False l A lay_at(3) [OF l] by (simp add: memset0_def lay_def)
qed

lemma addrs_neq:
  "x \<in> set (addrs a xs) \<Longrightarrow> x \<noteq> a + extent xs"
  "x \<in> set (addrs (a + extent xs + slot_bytes + n) ys) \<Longrightarrow> x \<noteq> a + extent xs"
  using addrs_bounds [of x a xs] addrs_bounds [of x "a + extent xs + slot_bytes + n" ys]
  by (auto simp: slot_bytes_def)

lemma upd_flag:
  assumes l: "lay s a0 (xs @ (n, f) # ys)" and A: "A = a0 + extent xs"
  shows "\<exists>s'. upd_slot s A (s_isFree_update (\<lambda>_. g)) = Some s' \<and> lay s' a0 (xs @ (n, g) # ys)
     \<and> mm_data s' = mm_data s"
proof -
  let ?h = "(mm_slots s)(A \<mapsto> \<lparr>s_prev = last_addr None a0 xs,
     s_next = (if ys = [] then None else Some (A + slot_bytes + n)), s_isFree = g, s_size = n\<rparr>)"
  have t: "tiles (mm_slots s) None a0 (xs @ (n, f) # ys) None" using l by (simp add: lay_def)
  have "tiles ?h None a0 xs (Some A)" "tiles ?h (Some A) (A + slot_bytes + n) ys None"
    using t A addrs_neq [of _ a0 xs] tiles_cong [of a0 xs ?h "mm_slots s"]
      tiles_cong [of "A + slot_bytes + n" ys ?h "mm_slots s"]
    by (simp_all add: tiles_append)
  then have "tiles ?h None a0 (xs @ (n, g) # ys) None" using A by (simp add: tiles_append)
  then show ?thesis using l A lay_at(1) [OF l]
    by (cases "ys = []") (simp_all add: upd_slot_def lay_def)
qed


subsection \<open>Splitting and joining blocks\<close>

lemma cut_slot_spec:
  assumes l: "lay s a0 (xs @ (n, True) # ys)" and A: "A = a0 + extent xs"
    and x: "mm_slots s A = Some x" and fit: "sz + slot_bytes \<le> n"
    and new: "new = A + slot_bytes + sz" and rest: "rest = n - sz - slot_bytes"
  shows "\<exists>s'. cut_slot s A x sz new rest = Some s'
     \<and> lay s' a0 (xs @ (sz, True) # (rest, True) # ys)
     \<and> (\<forall>i. i < A + slot_bytes \<or> A + slot_bytes + n \<le> i \<longrightarrow> mm_data s' i = mm_data s i)"
proof -
  let ?B = "A + slot_bytes + n"
  let ?h = "mm_slots s"
  let ?v = "\<lparr>s_prev = Some A, s_next = s_next x, s_isFree = True, s_size = rest\<rparr>"
  let ?h1 = "\<lambda>y. if y = new then Some ?v
      else if y < new + slot_bytes \<and> new < y + slot_bytes then None else ?h y"
  let ?hA = "?h1(A \<mapsto> x\<lparr>s_next := Some new, s_size := sz\<rparr>)"
  let ?h' = "if ys = [] then ?hA else ?hA(?B \<mapsto> (the (?h ?B))\<lparr>s_prev := Some new\<rparr>)"
  have t: "tiles ?h None a0 (xs @ [(n, True)] @ ys) None" using l by (simp add: lay_def)
  have xv: "x = \<lparr>s_prev = last_addr None a0 xs, s_next = (if ys = [] then None else Some ?B),
      s_isFree = True, s_size = n\<rparr>"
    using lay_at(1) [OF l] A x by (cases "ys = []") simp_all
  have B: "ys \<noteq> [] \<Longrightarrow> \<exists>z. ?h ?B = Some z"
    using t A by (cases ys) (auto simp: tiles_append add.assoc)
  have bounds: "new + slot_bytes \<le> ?B" "?B \<le> mm_brk s" "A < new" "A + slot_bytes \<le> new"
    using fit new lay_at(3) [OF l] A by (simp_all add: slot_bytes_def)
  have keep: "?h1 y = ?h y" if "y + slot_bytes \<le> A \<or> y = A \<or> ?B \<le> y" for y
    using that bounds by (auto simp: slot_bytes_def)
  have "tiles ?h' None a0 (xs @ [(sz, True), (rest, True)] @ ys) None"
  proof (rule tiles_replace [OF t])
    show "extent [(sz, True), (rest, True)] = extent [(n, True)]" using fit rest by simp
  next
    fix y assume "y \<in> set (addrs a0 xs)"
    then have "y + slot_bytes \<le> A" using addrs_bounds A by blast
    then show "?h' y = ?h y" using keep [of y] bounds by (auto simp: slot_bytes_def)
  next
    show "tiles ?h' (last_addr None a0 xs) (a0 + extent xs) [(sz, True), (rest, True)]
        (if ys = [] then None else Some (a0 + extent xs + extent [(n, True)]))"
      using xv bounds new A by (auto simp: slot_bytes_def)
  next
    assume "ys \<noteq> []"
    then show "?h' (a0 + extent xs + extent [(n, True)]) = map_option (s_prev_update
        (\<lambda>_. last_addr (last_addr None a0 xs) (a0 + extent xs) [(sz, True), (rest, True)]))
        (?h (a0 + extent xs + extent [(n, True)]))"
      using B A new by (auto simp: add.assoc)
  next
    fix y assume "y \<in> set (tl (addrs (a0 + extent xs + extent [(n, True)]) ys))"
    then have "?B < y"
      using A addrs_bounds [of y "?B + slot_bytes + fst (hd ys)" "tl ys"]
      by (cases ys) (auto simp: add.assoc slot_bytes_def)
    then show "?h' y = ?h y" using keep [of y] bounds by auto
  qed simp_all
  moreover have "cut_slot s A x sz new rest = Some
      (s\<lparr>mm_slots := ?h', mm_data := (\<lambda>i. if new \<le> i \<and> i < new + slot_bytes then None else mm_data s i),
         mm_tail := (if ys = [] then Some new else mm_tail s)\<rparr>)"
    using x xv B bounds keep [of A] keep [of ?B]
    by (cases "ys = []")
      (auto simp: cut_slot_def put_slot_def upd_slot_def fun_upd_twist fun_eq_iff intro!: mm.equality)
  moreover have "last_addr None a0 (xs @ [(sz, True), (rest, True)] @ ys)
      = (if ys = [] then Some new else mm_tail s)"
    using l A new fit rest by (cases ys) (auto simp: lay_def add.assoc)
  ultimately show ?thesis
    using l bounds fit rest by (auto simp: lay_def)
qed


definition grown :: "mm \<Rightarrow> nat \<Rightarrow> nat \<Rightarrow> mm" where
  "grown s A n = s\<lparr>mm_slots := (mm_slots s)(A \<mapsto> (the (mm_slots s A))\<lparr>s_size := n\<rparr>)\<rparr>"

lemma join_blocks:
  assumes l: "lay s a0 (xs @ (n, f) # (m, g) # ys)" and A: "A = a0 + extent xs"
  shows "grow_slot s A m = Some (grown s A (n + slot_bytes + m))"
    and "\<exists>s'. relink (grown s A (n + slot_bytes + m)) A
           (if ys = [] then None else Some (A + slot_bytes + n + slot_bytes + m)) = Some s'
     \<and> lay s' a0 (xs @ (n + slot_bytes + m, f) # ys) \<and> mm_data s' = mm_data s"
proof -
  let ?B = "A + slot_bytes + n + slot_bytes + m"
  let ?h = "mm_slots s"
  let ?nx = "if ys = [] then None else Some ?B"
  let ?hA = "?h(A \<mapsto> \<lparr>s_prev = last_addr None a0 xs, s_next = ?nx, s_isFree = f,
      s_size = n + slot_bytes + m\<rparr>)"
  let ?h' = "if ys = [] then ?hA else ?hA(?B \<mapsto> (the (?h ?B))\<lparr>s_prev := Some A\<rparr>)"
  have t: "tiles ?h None a0 (xs @ [(n, f), (m, g)] @ ys) None" using l by (simp add: lay_def)
  have xA: "?h A = Some \<lparr>s_prev = last_addr None a0 xs, s_next = Some (A + slot_bytes + n),
      s_isFree = f, s_size = n\<rparr>" using lay_at(1) [OF l] A by simp
  have small: "n + (m + slot_bytes) < 2 ^ 64"
    using lay_at(3) [of s a0 "xs @ [(n, f)]" m g ys] l A by (auto simp: lay_def add.assoc)
  then show "grow_slot s A m = Some (grown s A (n + slot_bytes + m))"
    using xA by (simp add: grow_slot_def upd_slot_def grown_def wrap64_def ac_simps)
  have B: "ys \<noteq> [] \<Longrightarrow> \<exists>z. ?h ?B = Some z"
    using t A by (cases ys) (auto simp: tiles_append add.assoc)
  have "tiles ?h' None a0 (xs @ [(n + slot_bytes + m, f)] @ ys) None"
  proof (rule tiles_replace [OF t])
    show "extent [(n + slot_bytes + m, f)] = extent [(n, f), (m, g)]" by simp
  next
    fix y assume "y \<in> set (addrs a0 xs)"
    then have "y + slot_bytes \<le> A" using addrs_bounds A by blast
    then show "?h' y = ?h y" by (auto simp: slot_bytes_def)
  next
    show "tiles ?h' (last_addr None a0 xs) (a0 + extent xs) [(n + slot_bytes + m, f)]
        (if ys = [] then None else Some (a0 + extent xs + extent [(n, f), (m, g)]))"
      using A by (auto simp: slot_bytes_def add.assoc)
  next
    assume "ys \<noteq> []"
    then show "?h' (a0 + extent xs + extent [(n, f), (m, g)]) = map_option (s_prev_update
        (\<lambda>_. last_addr (last_addr None a0 xs) (a0 + extent xs) [(n + slot_bytes + m, f)]))
        (?h (a0 + extent xs + extent [(n, f), (m, g)]))"
      using B A by (auto simp: add.assoc)
  next
    fix y assume "y \<in> set (tl (addrs (a0 + extent xs + extent [(n, f), (m, g)]) ys))"
    then have "?B < y"
      using A addrs_bounds [of y "?B + slot_bytes + fst (hd ys)" "tl ys"]
      by (cases ys) (auto simp: add.assoc slot_bytes_def)
    then show "?h' y = ?h y" by auto
  qed simp_all
  moreover have "relink (grown s A (n + slot_bytes + m)) A ?nx = Some
      (s\<lparr>mm_slots := ?h', mm_tail := (if ys = [] then Some A else mm_tail s)\<rparr>)"
    using xA B by (cases "ys = []")
      (auto simp: relink_def grown_def upd_slot_def fun_upd_twist slot_bytes_def intro!: mm.equality)
  moreover have "last_addr None a0 (xs @ [(n + slot_bytes + m, f)] @ ys)
      = (if ys = [] then Some A else mm_tail s)"
    using l A by (cases ys) (auto simp: lay_def add.assoc)
  ultimately show "\<exists>s'. relink (grown s A (n + slot_bytes + m)) A ?nx = Some s'
     \<and> lay s' a0 (xs @ (n + slot_bytes + m, f) # ys) \<and> mm_data s' = mm_data s"
    using l by (auto simp: lay_def)
qed

subsection \<open>Searching\<close>

lemma find_loop_spec:
  assumes "tiles h p a bs None"
  shows "find_loop h (if bs = [] then None else Some a) sz =
     Some (if \<exists>b \<in> set bs. snd b \<and> sz \<le> fst b
           then Some (a + extent (takeWhile (\<lambda>b. \<not> (snd b \<and> sz \<le> fst b)) bs)) else None)"
  using assms
proof (induction bs arbitrary: p a)
  case Nil
  then show ?case by (subst find_loop.simps) simp
next
  case (Cons b bs)
  obtain n f where b: "b = (n, f)" by (cases b)
  have IH: "find_loop h (if bs = [] then None else Some (a + slot_bytes + n)) sz =
     Some (if \<exists>b \<in> set bs. snd b \<and> sz \<le> fst b
           then Some (a + slot_bytes + n + extent (takeWhile (\<lambda>b. \<not> (snd b \<and> sz \<le> fst b)) bs))
           else None)"
    using Cons.IH [of "Some a" "a + slot_bytes + n"] Cons.prems b by simp
  have h: "h a = Some \<lparr>s_prev = p, s_next = (if bs = [] then None else Some (a + slot_bytes + n)),
      s_isFree = f, s_size = n\<rparr>" using Cons.prems b by simp
  show ?case
    using h IH b by (subst find_loop.simps) (auto simp: add.assoc)
qed

lemma find_location_spec:
  assumes "tiles h p a (xs @ b # ys) None"
  shows "find_location_loop h (Some a) (a + extent xs + slot_bytes) = Some (Some (a + extent xs))"
  using assms
proof (induction xs arbitrary: p a)
  case Nil
  then show ?case by (subst find_location_loop.simps) simp
next
  case (Cons c xs)
  obtain n f where c: "c = (n, f)" by (cases c)
  have "find_location_loop h (Some (a + slot_bytes + n)) (a + slot_bytes + n + extent xs + slot_bytes)
      = Some (Some (a + slot_bytes + n + extent xs))"
    using Cons.IH [of "Some a" "a + slot_bytes + n"] Cons.prems c by simp
  then show ?case using Cons.prems c
    by (subst find_location_loop.simps) (simp add: add.assoc)
qed


subsection \<open>Blocks in use\<close>

text \<open>Address and size of the data of the blocks that are not free.\<close>

fun live :: "nat \<Rightarrow> blk list \<Rightarrow> (nat \<times> nat) set" where
  "live a [] = {}"
| "live a ((n, f) # bs) = (if f then {} else {(a + slot_bytes, n)}) \<union> live (a + slot_bytes + n) bs"

lemma live_append [simp]: "live a (xs @ ys) = live a xs \<union> live (a + extent xs) ys"
  by (induction xs arbitrary: a) (auto simp: add.assoc)

lemma live_bounds: "(p, m) \<in> live a bs \<Longrightarrow> a + slot_bytes \<le> p \<and> p + m \<le> a + extent bs"
  by (induction bs arbitrary: a) (fastforce split: if_splits)+

lemma live_outside:
  "(p, m) \<in> live a (xs @ (n, True) # ys) \<Longrightarrow>
     p + m \<le> a + extent xs \<or> a + extent xs + slot_bytes + n \<le> p"
  using live_bounds [of p m a xs] live_bounds [of p m "a + extent xs + slot_bytes + n" ys] by auto

definition same_data :: "mm \<Rightarrow> mm \<Rightarrow> (nat \<times> nat) set \<Rightarrow> bool" where
  "same_data s s' B \<longleftrightarrow> (\<forall>(p, m) \<in> B. \<forall>i. p \<le> i \<and> i < p + m \<longrightarrow> mm_data s' i = mm_data s i)"

lemma same_dataI:
  "(\<And>p m i. (p, m) \<in> B \<Longrightarrow> p \<le> i \<Longrightarrow> i < p + m \<Longrightarrow> mm_data s' i = mm_data s i) \<Longrightarrow> same_data s s' B"
  unfolding same_data_def by blast

lemma same_data_eq [simp]: "mm_data s' = mm_data s \<Longrightarrow> same_data s s' B"
  by (simp add: same_data_def)

lemma same_data_trans: "same_data s s' B \<Longrightarrow> same_data s' s'' B \<Longrightarrow> same_data s s'' B"
  by (fastforce simp: same_data_def)

lemma same_data_mono: "same_data s s' B \<Longrightarrow> A \<subseteq> B \<Longrightarrow> same_data s s' A"
  by (fastforce simp: same_data_def)

lemma same_dataD:
  "same_data s s' B \<Longrightarrow> (p, m) \<in> B \<Longrightarrow> p \<le> i \<Longrightarrow> i < p + m \<Longrightarrow> mm_data s' i = mm_data s i"
  unfolding same_data_def by blast

lemma memset_free:
  assumes l: "lay s a0 (xs @ (n, True) # ys)" and A: "A = a0 + extent xs + slot_bytes"
  shows "\<exists>s'. memset0 s A n = Some s' \<and> lay s' a0 (xs @ (n, True) # ys)
     \<and> same_data s s' (live a0 (xs @ (n, True) # ys))"
proof -
  from memset_block [OF l A] obtain s' where
    s': "memset0 s A n = Some s'" "lay s' a0 (xs @ (n, True) # ys)"
    "mm_data s' = (\<lambda>i. if A \<le> i \<and> i < A + n then Some NUL else mm_data s i)" by blast
  have "same_data s s' (live a0 (xs @ (n, True) # ys))"
    unfolding same_data_def s'(3) using live_outside [of _ _ a0 xs n ys] A by fastforce
  then show ?thesis using s' by blast
qed

subsection \<open>Joining with the neighbours\<close>

abbreviation no_adj :: "blk list \<Rightarrow> bool" where
  "no_adj \<equiv> successively (\<lambda>b c. snd b \<longrightarrow> \<not> snd c)"

lemma merge_forward_spec:
  assumes l: "lay s a0 (xs @ (n, True) # ys)" and A: "A = a0 + extent xs"
    and x: "mm_slots s A = Some x" and ys: "no_adj ys"
  shows "\<exists>s1 lst s2 N ys'. merge_forward s A (s_next x) A = Some (s1, lst)
     \<and> (if lst \<noteq> A then do { l \<leftarrow> mm_slots s1 lst; relink s1 A (s_next l) } else Some s1) = Some s2
     \<and> lay s2 a0 (xs @ (N, True) # ys') \<and> mm_data s2 = mm_data s
     \<and> live a0 (xs @ (N, True) # ys') = live a0 (xs @ (n, True) # ys)
     \<and> no_adj ys' \<and> (ys' = [] \<or> \<not> snd (hd ys'))"
proof -
  have nx: "s_next x = (if ys = [] then None else Some (A + slot_bytes + n))"
    using lay_at(1) [OF l] A x by auto
  show ?thesis
  proof (cases "ys = [] \<or> \<not> snd (hd ys)")
    case True
    have "merge_forward s A (s_next x) A = Some (s, A)"
    proof (cases ys)
      case Nil
      then show ?thesis using nx by (subst merge_forward.simps) simp
    next
      case (Cons b bs)
      then obtain m where b: "b = (m, False)" using True by (cases b) auto
      then show ?thesis using nx lay_next [of s a0 xs n True m False bs] l Cons A
        by (subst merge_forward.simps) simp
    qed
    then show ?thesis using l True ys
      by (intro exI [of _ s] exI [of _ A] exI [of _ s] exI [of _ n] exI [of _ ys]) simp
  next
    case False
    then obtain m bs where b: "ys = (m, True) # bs" by (cases ys) auto
    let ?C = "A + slot_bytes + n" and ?N = "n + slot_bytes + m"
    let ?nx = "if bs = [] then None else Some (A + slot_bytes + n + slot_bytes + m)"
    let ?s1 = "grown s A ?N"
    have l': "lay s a0 (xs @ (n, True) # (m, True) # bs)" using l b by simp
    have C: "mm_slots s ?C = Some \<lparr>s_prev = Some A, s_next = ?nx, s_isFree = True, s_size = m\<rparr>"
      using lay_next [OF l'] A by simp
    have "?C \<noteq> A" by (simp add: slot_bytes_def)
    then have C1: "mm_slots ?s1 ?C = mm_slots s ?C" by (simp add: grown_def)
    note j = join_blocks [OF l' A]
    have bs: "no_adj bs" "bs = [] \<or> \<not> snd (hd bs)"
      using ys b by (cases bs; simp)+
    have stop: "merge_forward ?s1 A ?nx ?C = Some (?s1, ?C)"
    proof (cases bs)
      case Nil
      then show ?thesis by (subst merge_forward.simps) simp
    next
      case (Cons c cs)
      then obtain q where c: "c = (q, False)" using bs(2) by (cases c) auto
      have "lay s a0 ((xs @ [(n, True)]) @ (m, True) # (q, False) # cs)" using l' Cons c by simp
      from lay_next [OF this] A
      have "\<exists>z. mm_slots s (A + slot_bytes + n + slot_bytes + m) = Some z \<and> \<not> s_isFree z"
        by (simp add: add.assoc)
      moreover have "A + slot_bytes + n + slot_bytes + m \<noteq> A" by (simp add: slot_bytes_def)
      ultimately have "\<exists>z. mm_slots ?s1 (A + slot_bytes + n + slot_bytes + m) = Some z \<and> \<not> s_isFree z"
        by (simp add: grown_def)
      then show ?thesis using Cons by (subst merge_forward.simps) auto
    qed
    have fwd: "merge_forward s A (s_next x) A = Some (?s1, ?C)"
      using nx b C j(1) stop by (subst merge_forward.simps) simp
    from j(2) obtain s2 where s2: "relink ?s1 A ?nx = Some s2" "lay s2 a0 (xs @ (?N, True) # bs)"
      "mm_data s2 = mm_data s" by blast
    have "(if ?C \<noteq> A then do { l \<leftarrow> mm_slots ?s1 ?C; relink ?s1 A (s_next l) } else Some ?s1) = Some s2"
      using \<open>?C \<noteq> A\<close> C C1 s2(1) by simp
    moreover have "live a0 (xs @ (?N, True) # bs) = live a0 (xs @ (n, True) # ys)"
      using b by (simp add: add.assoc)
    ultimately show ?thesis using fwd s2(2,3) bs by blast
  qed
qed

lemma merge_backward_spec:
  assumes l: "lay s a0 (xs @ (n, True) # ys)" and A: "A = a0 + extent xs"
    and xs: "xs \<noteq> []" "no_adj xs" "\<not> snd (hd xs)"
    and tail: "no_adj ys" "ys = [] \<or> \<not> snd (hd ys)"
  shows "\<exists>s1 t s' L. merge_backward s A (last_addr None a0 xs) = Some (s1, t)
     \<and> (if t \<noteq> A then
          do { z \<leftarrow> mm_slots s1 A;
               s5 \<leftarrow> relink s1 t (s_next z);
               v \<leftarrow> mm_slots s5 t;
               memset0 s5 (t + slot_bytes) (s_size v) }
        else Some s1) = Some s'
     \<and> lay s' a0 L \<and> live a0 L = live a0 (xs @ (n, True) # ys)
     \<and> same_data s s' (live a0 L) \<and> no_adj L \<and> hd L = hd xs \<and> L \<noteq> [hd xs]"
proof -
  obtain zs k g where x: "xs = zs @ [(k, g)]" using xs(1) by (cases xs rule: rev_cases) auto
  let ?D = "a0 + extent zs"
  have AD: "A = ?D + slot_bytes + k" using A x by simp
  have l': "lay s a0 (zs @ (k, g) # (n, True) # ys)" using l x by simp
  have D: "mm_slots s ?D = Some \<lparr>s_prev = last_addr None a0 zs, s_next = Some A, s_isFree = g, s_size = k\<rparr>"
    using lay_at(1) [OF l'] AD by simp
  have vA: "mm_slots s A = Some \<lparr>s_prev = Some ?D, s_next = (if ys = [] then None
      else Some (A + slot_bytes + n)), s_isFree = True, s_size = n\<rparr>"
    using lay_at(1) [OF l] A x by simp
  have prev: "last_addr None a0 xs = Some ?D" using x by simp
  have head: "mm_head s = Some a0" using l by (simp add: lay_def)
  show ?thesis
  proof (cases "g")
    case False
    then have "merge_backward s A (last_addr None a0 xs) = Some (s, A)"
      unfolding prev using D by (subst merge_backward.simps) simp
    moreover have "no_adj (xs @ (n, True) # ys)"
      using xs tail x False by (cases ys) (auto simp: successively_append_iff)
    moreover have "xs @ (n, True) # ys \<noteq> [hd xs]" using xs(1) by (cases xs) auto
    ultimately show ?thesis using l xs(1)
      by (intro exI [of _ s] exI [of _ A] exI [of _ s] exI [of _ "xs @ (n, True) # ys"])
        (auto simp: hd_append)
  next
    case True
    then have zs: "zs \<noteq> []" using xs(3) x by auto
    then have "?D \<noteq> a0" by (cases zs) auto
    let ?N = "k + slot_bytes + n"
    let ?s1 = "grown s ?D ?N"
    note j = join_blocks [OF l'[unfolded True] refl]
    obtain us q e where z: "zs = us @ [(q, e)]" using zs by (cases zs rule: rev_cases) auto
    have e: "\<not> e" using xs(2) x z True by (auto simp: successively_append_iff)
    have "lay s a0 (us @ (q, e) # (k, g) # (n, True) # ys)" using l' z by simp
    from lay_at(1) [OF this] have E: "\<exists>v. mm_slots s (a0 + extent us) = Some v \<and> \<not> s_isFree v"
      using e by auto
    have "a0 + extent us \<noteq> ?D" using z by (simp add: slot_bytes_def)
    then have E1: "\<exists>v. mm_slots ?s1 (a0 + extent us) = Some v \<and> \<not> s_isFree v"
      using E by (simp add: grown_def)
    have "last_addr None a0 zs = Some (a0 + extent us)" using z by simp
    then have stop: "merge_backward ?s1 ?D (last_addr None a0 zs) = Some (?s1, ?D)"
      using E1 by (subst merge_backward.simps) auto
    have bk: "merge_backward s A (last_addr None a0 xs) = Some (?s1, ?D)"
      unfolding prev using D vA head \<open>?D \<noteq> a0\<close> True j(1) stop
      by (subst merge_backward.simps) simp
    obtain s5 where s5: "relink ?s1 ?D
        (if ys = [] then None else Some (?D + slot_bytes + k + slot_bytes + n)) = Some s5"
      "lay s5 a0 (zs @ (?N, True) # ys)" "mm_data s5 = mm_data s"
      using j(2) by (elim exE conjE) (rule that, assumption, simp only: True, assumption)
    from memset_free [OF s5(2) refl] obtain s' where
      s': "memset0 s5 (?D + slot_bytes) ?N = Some s'" "lay s' a0 (zs @ (?N, True) # ys)"
      "same_data s5 s' (live a0 (zs @ (?N, True) # ys))" by blast
    have ne: "?D \<noteq> A" using AD by (simp add: slot_bytes_def)
    then have "mm_slots ?s1 A = mm_slots s A" by (simp add: grown_def)
    then have "(if ?D \<noteq> A then
          do { z \<leftarrow> mm_slots ?s1 A;
               s5 \<leftarrow> relink ?s1 ?D (s_next z);
               v \<leftarrow> mm_slots s5 ?D;
               memset0 s5 (?D + slot_bytes) (s_size v) }
        else Some ?s1) = Some s'"
      using ne vA s5(1) lay_at(1) [OF s5(2)] s'(1) AD by (cases "ys = []") simp_all
    moreover have lv: "live a0 (zs @ (?N, True) # ys) = live a0 (xs @ (n, True) # ys)"
      using x True by (simp add: add.assoc)
    moreover have "same_data s s' (live a0 (zs @ (?N, True) # ys))"
      using same_data_trans [OF same_data_eq [OF s5(3)] s'(3)] .
    moreover have "no_adj (zs @ (?N, True) # ys)"
      using xs(2) x z e tail by (cases ys) (auto simp: successively_append_iff)
    moreover have "hd (zs @ (?N, True) # ys) = hd xs" using zs x by simp
    moreover have "zs @ (?N, True) # ys \<noteq> [hd xs]" using zs by (cases zs) auto
    ultimately show ?thesis using bk s'(2) by blast
  qed
qed


subsection \<open>The invariant\<close>

definition mm_ok :: "mm \<Rightarrow> nat \<Rightarrow> blk list \<Rightarrow> bool" where
  "mm_ok s a0 bs \<longleftrightarrow>
     lay s a0 ((0, False) # bs) \<and> no_adj bs
     \<and> (\<forall>(p, m) \<in> live (a0 + slot_bytes) bs. \<forall>i. p \<le> i \<and> i < p + m \<longrightarrow> mm_data s i \<noteq> None)"

text \<open>The blocks in use: address and size of their data.\<close>

abbreviation blocks :: "nat \<Rightarrow> blk list \<Rightarrow> (nat \<times> nat) set" where
  "blocks a0 bs \<equiv> live (a0 + slot_bytes) bs"

lemma mm_ok_data:
  "mm_ok s a0 bs \<Longrightarrow> (p, m) \<in> blocks a0 bs \<Longrightarrow> p \<le> i \<Longrightarrow> i < p + m \<Longrightarrow> mm_data s i \<noteq> None"
  unfolding mm_ok_def by blast

lemma no_adj_head [simp]: "no_adj ((n, False) # bs) \<longleftrightarrow> no_adj bs"
  by (cases bs) simp_all

lemma live_split:
  assumes "(p, n) \<in> live a bs"
  obtains xs ys where "bs = xs @ (n, False) # ys" "p = a + extent xs + slot_bytes"
  using assms
proof (induction bs arbitrary: a thesis)
  case (Cons b bs)
  obtain m f where b: "b = (m, f)" by (cases b)
  show ?case
  proof (cases "\<not> f \<and> p = a + slot_bytes \<and> n = m")
    case True
    then show ?thesis using Cons.prems(1) [of "[]" bs] b by simp
  next
    case False
    then have "(p, n) \<in> live (a + slot_bytes + m) bs" using Cons.prems(2) b by (auto split: if_splits)
    then obtain xs ys where "bs = xs @ (n, False) # ys" "p = a + slot_bytes + m + extent xs + slot_bytes"
      by (rule Cons.IH [rotated])
    then show ?thesis using Cons.prems(1) [of "b # xs" ys] b by simp
  qed
qed simp

lemma live_middle:
  "live a (xs @ (n, f) # ys) = live a xs \<union> live (a + extent xs + slot_bytes + n) ys
     \<union> (if f then {} else {(a + extent xs + slot_bytes, n)})"
  by auto

text \<open>A block in use lies apart from every other one.\<close>

lemma live_middle_apart:
  "(q, m) \<in> live a xs \<union> live (a + extent xs + slot_bytes + n) ys \<Longrightarrow>
     q + m \<le> a + extent xs \<or> a + extent xs + slot_bytes + n + slot_bytes \<le> q"
  using live_bounds [of q m a xs] live_bounds [of q m "a + extent xs + slot_bytes + n" ys] by auto

lemma live_head: "live a0 ((0, False) # bs) = insert (a0 + slot_bytes, 0) (blocks a0 bs)"
  by simp

lemma head_notin: "(a0 + slot_bytes, 0) \<notin> blocks a0 bs"
  using live_bounds [of "a0 + slot_bytes" 0 "a0 + slot_bytes" bs] by (auto simp: slot_bytes_def)

subsection \<open>Freeing\<close>

lemma merge_free_space_spec:
  assumes l: "lay s a0 (xs @ (n, True) # ys)" and A: "A = a0 + extent xs"
    and xs: "xs \<noteq> []" "no_adj xs" "\<not> snd (hd xs)" and ys: "no_adj ys"
  shows "\<exists>s' L. merge_free_space s A = Some s' \<and> lay s' a0 L
     \<and> live a0 L = live a0 (xs @ (n, True) # ys) \<and> same_data s s' (live a0 L)
     \<and> no_adj L \<and> hd L = hd xs \<and> L \<noteq> []"
proof -
  obtain x where x: "mm_slots s A = Some x" using lay_at(1) [OF l] A by simp
  from merge_forward_spec [OF l A x ys] obtain s1 lst s2 N ys' where
    1: "merge_forward s A (s_next x) A = Some (s1, lst)"
       "(if lst \<noteq> A then do { l \<leftarrow> mm_slots s1 lst; relink s1 A (s_next l) } else Some s1) = Some s2"
       "lay s2 a0 (xs @ (N, True) # ys')" "mm_data s2 = mm_data s"
       "live a0 (xs @ (N, True) # ys') = live a0 (xs @ (n, True) # ys)"
       "no_adj ys'" "ys' = [] \<or> \<not> snd (hd ys')" by blast
  obtain y where y: "mm_slots s2 A = Some y" "s_prev y = last_addr None a0 xs" "s_size y = N"
    using lay_at(1) [OF 1(3)] A by simp
  from memset_free [OF 1(3) refl] obtain s3 where
    3: "memset0 s2 (A + slot_bytes) N = Some s3" "lay s3 a0 (xs @ (N, True) # ys')"
       "same_data s2 s3 (live a0 (xs @ (N, True) # ys'))" using A by blast
  from merge_backward_spec [OF 3(2) A xs 1(6,7)] obtain s4 t s' L where
    4: "merge_backward s3 A (last_addr None a0 xs) = Some (s4, t)"
       "(if t \<noteq> A then
          do { z \<leftarrow> mm_slots s4 A;
               s5 \<leftarrow> relink s4 t (s_next z);
               v \<leftarrow> mm_slots s5 t;
               memset0 s5 (t + slot_bytes) (s_size v) }
        else Some s4) = Some s'"
       "lay s' a0 L" "live a0 L = live a0 (xs @ (N, True) # ys')"
       "same_data s3 s' (live a0 L)" "no_adj L" "hd L = hd xs" "L \<noteq> [hd xs]" by blast
  have "merge_free_space s A = Some s'"
    using x 1(1,2) y 3(1) 4(1,2) by (simp add: merge_free_space_def)
  moreover have "same_data s s' (live a0 L)"
    using same_data_trans [OF same_data_eq [OF 1(4)] same_data_trans [OF 3(3)]] 4(4,5) by simp
  moreover have "L \<noteq> []" using 4(3) by (simp add: lay_def)
  ultimately show ?thesis using 4(3,4,6,7) 1(5) by auto
qed

lemma mm_free_spec:
  assumes ok: "mm_ok s a0 bs" and p: "(p, n) \<in> blocks a0 bs"
  shows "\<exists>s' bs'. mm_free s (Some p) = Some s' \<and> mm_ok s' a0 bs'
     \<and> blocks a0 bs' = blocks a0 bs - {(p, n)} \<and> same_data s s' (blocks a0 bs - {(p, n)})"
proof -
  from p obtain zs ys where bs: "bs = zs @ (n, False) # ys"
    "p = a0 + slot_bytes + extent zs + slot_bytes" by (rule live_split)
  let ?xs = "(0, False) # zs" and ?A = "a0 + slot_bytes + extent zs"
  have A: "?A = a0 + extent ?xs" by simp
  have l: "lay s a0 (?xs @ (n, False) # ys)" using ok bs by (simp add: mm_ok_def)
  have find: "find_list_elem_data_location s p = Some (Some ?A)"
    using find_location_spec [of "mm_slots s" None a0 ?xs "(n, False)" ys] l bs(2)
    by (simp add: find_list_elem_data_location_def lay_def add.assoc)
  have x: "\<exists>x. mm_slots s ?A = Some x \<and> s_size x = n" using lay_at(1) [OF l] by (simp add: add.assoc)
  from memset_block [OF l refl] obtain s1 where
    1: "memset0 s p n = Some s1" "lay s1 a0 (?xs @ (n, False) # ys)"
       "mm_data s1 = (\<lambda>i. if p \<le> i \<and> i < p + n then Some NUL else mm_data s i)"
    using bs(2) by (auto simp: add.assoc)
  from upd_flag [OF 1(2) A, of True] obtain s2 where
    2: "upd_slot s1 ?A (s_isFree_update (\<lambda>_. True)) = Some s2" "lay s2 a0 (?xs @ (n, True) # ys)"
       "mm_data s2 = mm_data s1" by blast
  have adj: "no_adj ?xs" "no_adj ys" using ok bs by (auto simp: mm_ok_def successively_append_iff)
  from merge_free_space_spec [OF 2(2) A _ adj(1) _ adj(2)] obtain s' L where
    3: "merge_free_space s2 ?A = Some s'" "lay s' a0 L" "live a0 L = live a0 (?xs @ (n, True) # ys)"
       "same_data s2 s' (live a0 L)" "no_adj L" "hd L = (0, False)" "L \<noteq> []" by auto
  then obtain bs' where L: "L = (0, False) # bs'" by (cases L) auto
  let ?rest = "live (a0 + slot_bytes) zs \<union> live (?A + slot_bytes + n) ys"
  have apart: "q + m \<le> ?A \<or> ?A + slot_bytes + n + slot_bytes \<le> q" if "(q, m) \<in> ?rest" for q m
    using live_middle_apart [of q m "a0 + slot_bytes" zs n ys] that by simp
  then have notin: "(p, n) \<notin> ?rest" using bs(2) by (fastforce simp: slot_bytes_def)
  have old: "blocks a0 bs - {(p, n)} = ?rest" using bs notin by (auto simp: add.assoc)
  have "insert (a0 + slot_bytes, 0) (blocks a0 bs') = insert (a0 + slot_bytes, 0) ?rest"
    using 3(3) L by (simp add: add.assoc)
  moreover have "(a0 + slot_bytes, 0) \<notin> ?rest" using head_notin [of a0 bs] unfolding old [symmetric] by blast
  ultimately have new: "blocks a0 bs' = ?rest"
    using insert_ident [OF head_notin [of a0 bs']] by metis
  have "same_data s s2 ?rest"
    unfolding same_data_def 2(3) 1(3)
  proof (intro ballI, clarify)
    fix q m i assume "(q, m) \<in> ?rest" "q \<le> i" "i < q + m"
    then show "(if p \<le> i \<and> i < p + n then Some NUL else mm_data s i) = mm_data s i"
      using apart [of q m] bs(2) by auto
  qed
  moreover have "same_data s2 s' ?rest"
    using same_data_mono [OF 3(4)] L new by auto
  ultimately have same: "same_data s s' ?rest" by (rule same_data_trans)
  have "mm_free s (Some p) = Some s'" using find x 1(1) 2(1) 3(1) by (auto simp: mm_free_def)
  moreover have "mm_ok s' a0 bs'"
    unfolding mm_ok_def
  proof (intro conjI ballI, goal_cases)
    case 1 show ?case using 3(2) L by simp
  next
    case 2 show ?case using 3(5) L by simp
  next
    case (3 b)
    obtain q m where b: "b = (q, m)" by (cases b)
    then have r: "(q, m) \<in> ?rest" "(q, m) \<in> blocks a0 bs" using 3 new old by blast+
    show ?case
      unfolding b prod.case using same_dataD [OF same r(1)] mm_ok_data [OF ok r(2)] by metis
  qed
  ultimately show ?thesis using new old same by auto
qed

end
