(* ===== verification/HeapAlloc.thy ===== *)
theory HeapAlloc
  imports HeapLayout
begin

text \<open>
  Allocation and reallocation (hw3/mm_alloc.c): a new block is zero, large enough and apart
  from all others; \<open>mm_realloc\<close> keeps the bytes; no operation changes the data of another
  block. A client with any sequence of calls sees its blocks as byte strings.
\<close>

subsection \<open>Allocating\<close>

lemma find_list_elem_spec:
  assumes l: "lay s a0 L"
  shows "find_list_elem s sz = Some None \<and> (\<forall>b \<in> set L. snd b \<longrightarrow> fst b < sz)
     \<or> (\<exists>xs n ys. L = xs @ (n, True) # ys \<and> sz \<le> n \<and> find_list_elem s sz = Some (Some (a0 + extent xs)))"
proof (cases "\<exists>b \<in> set L. snd b \<and> sz \<le> fst b")
  case True
  then obtain xs b ys where L: "L = xs @ b # ys" "snd b \<and> sz \<le> fst b"
      "\<forall>y \<in> set xs. \<not> (snd y \<and> sz \<le> fst y)"
    using split_list_first_prop [of L "\<lambda>b. snd b \<and> sz \<le> fst b"] by blast
  then have tw: "takeWhile (\<lambda>b. \<not> (snd b \<and> sz \<le> fst b)) L = xs" by (simp add: takeWhile_append)
  obtain n where b: "b = (n, True)" using L(2) by (cases b) simp
  have "find_loop (mm_slots s) (if L = [] then None else Some a0) sz = Some (Some (a0 + extent xs))"
    using find_loop_spec [of "mm_slots s" None a0 L sz] l True tw by (simp add: lay_def)
  then have "find_list_elem s sz = Some (Some (a0 + extent xs))"
    using l by (simp add: find_list_elem_def lay_def)
  then show ?thesis using L b by auto
next
  case False
  then show ?thesis using find_loop_spec [of "mm_slots s" None a0 L sz] l
    by (auto simp: find_list_elem_def lay_def)
qed

lemma sub64_le: "b \<le> a \<Longrightarrow> a < 2 ^ 64 \<Longrightarrow> sub64 a b = a - b"
proof -
  assume "b \<le> a" "a < 2 ^ 64"
  then have "a + (2 ^ 64 - b) = (a - b) + 2 ^ 64" by simp
  then show ?thesis unfolding sub64_def using \<open>a < 2 ^ 64\<close> by (simp only: mod_add_self2 mod_less less_imp_diff_less)
qed

lemma split_slot_spec:
  assumes l: "lay s a0 (xs @ (n, True) # ys)" and A: "A = a0 + extent xs" and fit: "sz \<le> n"
  shows "\<exists>s' m rs. split_slot s A sz = Some s' \<and> lay s' a0 (xs @ (m, True) # rs @ ys)
     \<and> sz \<le> m \<and> m < sz + slot_bytes + 4
     \<and> (rs = [] \<and> m = n \<or> m = sz \<and> rs = [(n - sz - slot_bytes, True)] \<and> sz + slot_bytes \<le> n)
     \<and> (\<forall>i. A + slot_bytes \<le> i \<and> i < A + slot_bytes + m \<longrightarrow> mm_data s' i = Some NUL)
     \<and> (\<forall>i. i < A \<or> A + slot_bytes + n \<le> i \<longrightarrow> mm_data s' i = mm_data s i)"
proof -
  obtain x where x: "mm_slots s A = Some x" "s_size x = n" using lay_at(1) [OF l] A by simp
  have n: "n < 2 ^ 63" using lay_at(2) [OF l] .
  have w: "wrap64 (sz + (slot_bytes + 4)) = sz + (slot_bytes + 4)"
    using fit n by (simp add: wrap64_def slot_bytes_def)
  show ?thesis
  proof (cases "sz + (slot_bytes + 4) \<le> n")
    case False
    from memset_block [OF l refl] obtain s' where
      s': "memset0 s (A + slot_bytes) n = Some s'" "lay s' a0 (xs @ (n, True) # ys)"
      "mm_data s' = (\<lambda>i. if A + slot_bytes \<le> i \<and> i < A + slot_bytes + n then Some NUL else mm_data s i)"
      using A by blast
    have "split_slot s A sz = Some s'" using x w False s'(1) by (simp add: split_slot_def)
    then show ?thesis using s' fit False by (intro exI [of _ s'] exI [of _ n] exI [of _ "[]"]) auto
  next
    case True
    let ?rest = "n - sz - slot_bytes" and ?new = "A + slot_bytes + sz"
    have rest: "sub64 (sub64 n sz) slot_bytes = ?rest"
      using True n by (simp add: sub64_le)
    have le: "sz + slot_bytes \<le> n" using True by simp
    from cut_slot_spec [OF l A x(1) le refl refl] obtain s1 where
      1: "cut_slot s A x sz ?new ?rest = Some s1" "lay s1 a0 (xs @ (sz, True) # (?rest, True) # ys)"
      "\<forall>i. i < A + slot_bytes \<or> A + slot_bytes + n \<le> i \<longrightarrow> mm_data s1 i = mm_data s i" by blast
    have l1: "lay s1 a0 ((xs @ [(sz, True)]) @ (?rest, True) # ys)" using 1(2) by simp
    from memset_block [OF l1 refl] obtain s2 where
      2: "memset0 s1 (?new + slot_bytes) ?rest = Some s2" "lay s2 a0 (xs @ (sz, True) # (?rest, True) # ys)"
      "mm_data s2 = (\<lambda>i. if ?new + slot_bytes \<le> i \<and> i < ?new + slot_bytes + ?rest then Some NUL
         else mm_data s1 i)"
      using A by (auto simp: add.assoc)
    from memset_block [OF 2(2) refl] obtain s3 where
      3: "memset0 s2 (A + slot_bytes) sz = Some s3" "lay s3 a0 (xs @ (sz, True) # (?rest, True) # ys)"
      "mm_data s3 = (\<lambda>i. if A + slot_bytes \<le> i \<and> i < A + slot_bytes + sz then Some NUL else mm_data s2 i)"
      using A by blast
    obtain y where y: "mm_slots s2 A = Some y" "s_size y = sz" using lay_at(1) [OF 2(2)] A by simp
    have "split_slot s A sz = Some s3"
      using x w True rest 1(1) 2(1) 3(1) y by (simp add: split_slot_def Let_def)
    moreover have "\<forall>i. i < A \<or> A + slot_bytes + n \<le> i \<longrightarrow> mm_data s3 i = mm_data s i"
      using 1(3) le unfolding 3(3) 2(3) by auto
    ultimately show ?thesis using 3 le
      by (intro exI [of _ s3] exI [of _ sz] exI [of _ "[(?rest, True)]"]) simp
  qed
qed


lemma sbrk_grow:
  assumes "lay s a0 L" and "inc < 2 ^ 63"
  shows "sbrk s inc = (if mm_limit s < mm_brk s + inc then None
                       else Some (mm_brk s, s\<lparr>mm_brk := mm_brk s + inc\<rparr>))"
proof -
  have "mm_low s \<le> mm_brk s + inc" using assms(1) by (simp add: lay_def)
  then show ?thesis using assms(2) by (auto simp: sbrk_def Let_def nat_add_distrib intro!: mm.equality)
qed

text \<open>A new slot at the break, and a free last slot that is made longer.\<close>

lemma tiles_snoc:
  "tiles h p a (bs @ [(n, f)]) nx \<longleftrightarrow>
     tiles h p a bs (Some (a + extent bs))
     \<and> h (a + extent bs) = Some \<lparr>s_prev = last_addr p a bs, s_next = nx, s_isFree = f, s_size = n\<rparr>"
  by (simp add: tiles_append)

lemma extend_tail:
  assumes l: "lay s a0 (xs @ [(k, True)])" and A: "A = a0 + extent xs" and k: "k \<le> sz"
    and room: "mm_brk s + (sz - k) \<le> mm_limit s" and sz: "0 < sz"
  shows "\<exists>s2 s3. memset0 (s\<lparr>mm_brk := mm_brk s + (sz - k)\<rparr>) (A + slot_bytes) sz = Some s2
     \<and> upd_slot s2 A (\<lambda>v. v\<lparr>s_size := sz, s_isFree := False\<rparr>) = Some s3
     \<and> lay s3 a0 (xs @ [(sz, False)])
     \<and> mm_data s3 = (\<lambda>i. if A + slot_bytes \<le> i \<and> i < A + slot_bytes + sz then Some NUL else mm_data s i)"
proof -
  let ?h = "\<lambda>x. if x < A + slot_bytes + sz \<and> A + slot_bytes < x + slot_bytes then None else mm_slots s x"
  let ?d = "\<lambda>i. if A + slot_bytes \<le> i \<and> i < A + slot_bytes + sz then Some NUL else mm_data s i"
  have brk: "mm_brk s = A + slot_bytes + k" using l A by (simp add: lay_def)
  have hA: "mm_slots s A = Some \<lparr>s_prev = last_addr None a0 xs, s_next = None, s_isFree = True, s_size = k\<rparr>"
    using lay_at(1) [OF l] A by simp
  let ?h' = "?h(A \<mapsto> \<lparr>s_prev = last_addr None a0 xs, s_next = None, s_isFree = False, s_size = sz\<rparr>)"
  have "?h' x = mm_slots s x" if "x \<in> set (addrs a0 xs)" for x
    using addrs_bounds [OF that] A by (auto simp: slot_bytes_def)
  then have "tiles ?h' None a0 (xs @ [(sz, False)]) None"
    using tiles_cong [of a0 xs ?h' "mm_slots s"] l A by (simp add: tiles_snoc lay_def)
  moreover have "mm_tail s = Some A" using l A by (simp add: lay_def)
  moreover have "memset0 (s\<lparr>mm_brk := mm_brk s + (sz - k)\<rparr>) (A + slot_bytes) sz =
      Some (s\<lparr>mm_brk := mm_brk s + (sz - k), mm_slots := ?h, mm_data := ?d\<rparr>)"
    using k sz brk by (simp add: memset0_def cong: if_cong)
  moreover have "upd_slot (s\<lparr>mm_brk := mm_brk s + (sz - k), mm_slots := ?h, mm_data := ?d\<rparr>) A
      (\<lambda>v. v\<lparr>s_size := sz, s_isFree := False\<rparr>) =
      Some (s\<lparr>mm_brk := mm_brk s + (sz - k), mm_slots := ?h', mm_data := ?d\<rparr>)"
    using hA by (simp add: upd_slot_def)
  ultimately show ?thesis
    using l k sz room brk A
    by (intro exI [of _ "s\<lparr>mm_brk := mm_brk s + (sz - k), mm_slots := ?h, mm_data := ?d\<rparr>"]
          exI [of _ "s\<lparr>mm_brk := mm_brk s + (sz - k), mm_slots := ?h', mm_data := ?d\<rparr>"])
      (simp add: lay_def)
qed

lemma add_tail:
  assumes l: "lay s a0 (xs @ [(k, f)])" and A: "A = a0 + extent xs" and B: "B = mm_brk s"
    and room: "B + (slot_bytes + sz) \<le> mm_limit s"
  shows "\<exists>s2 s3 s4. memset0 (s\<lparr>mm_brk := B + (slot_bytes + sz)\<rparr>) B (slot_bytes + sz) = Some s2
     \<and> put_slot s2 B \<lparr>s_prev = Some A, s_next = None, s_isFree = False, s_size = sz\<rparr> = Some s3
     \<and> upd_slot s3 A (s_next_update (\<lambda>_. Some B)) = Some s4
     \<and> lay (s4\<lparr>mm_tail := Some B\<rparr>) a0 (xs @ [(k, f), (sz, False)])
     \<and> (\<forall>i. B + slot_bytes \<le> i \<and> i < B + slot_bytes + sz \<longrightarrow> mm_data s4 i = Some NUL)
     \<and> (\<forall>i. i < B \<longrightarrow> mm_data s4 i = mm_data s i)"
proof -
  have brk: "B = A + slot_bytes + k" using l A B by (simp add: lay_def)
  have hA: "mm_slots s A = Some \<lparr>s_prev = last_addr None a0 xs, s_next = None, s_isFree = f, s_size = k\<rparr>"
    using lay_at(1) [OF l] A by simp
  have AB: "A + slot_bytes \<le> B" using brk by simp
  let ?h = "\<lambda>x. if x < B + (slot_bytes + sz) \<and> B < x + slot_bytes then None else mm_slots s x"
  let ?v = "\<lparr>s_prev = Some A, s_next = None, s_isFree = False, s_size = sz\<rparr>"
  let ?h3 = "\<lambda>x. if x = B then Some ?v
      else if x < B + slot_bytes \<and> B < x + slot_bytes then None else ?h x"
  let ?h4 = "?h3(A \<mapsto> \<lparr>s_prev = last_addr None a0 xs, s_next = Some B, s_isFree = f, s_size = k\<rparr>)"
  let ?d2 = "\<lambda>i. if B \<le> i \<and> i < B + (slot_bytes + sz) then Some NUL else mm_data s i"
  let ?d3 = "\<lambda>i. if B \<le> i \<and> i < B + slot_bytes then None else ?d2 i"
  have h3A: "?h3 A = mm_slots s A" using AB by (auto simp: slot_bytes_def)
  have "?h4 x = mm_slots s x" if "x \<in> set (addrs a0 xs)" for x
    using addrs_bounds [OF that] A AB by (auto simp: slot_bytes_def)
  then have t: "tiles ?h4 None a0 xs (Some A)"
    using tiles_cong [of a0 xs ?h4 "mm_slots s"] l A by (simp add: tiles_snoc lay_def)
  have "A \<noteq> B" using AB by (simp add: slot_bytes_def)
  then have "tiles ?h4 None a0 (xs @ [(k, f), (sz, False)]) None"
    using t A brk by (simp add: tiles_append)
  moreover have "memset0 (s\<lparr>mm_brk := B + (slot_bytes + sz)\<rparr>) B (slot_bytes + sz) =
      Some (s\<lparr>mm_brk := B + (slot_bytes + sz), mm_slots := ?h, mm_data := ?d2\<rparr>)"
    by (simp add: memset0_def cong: if_cong)
  moreover have "put_slot (s\<lparr>mm_brk := B + (slot_bytes + sz), mm_slots := ?h, mm_data := ?d2\<rparr>) B ?v =
      Some (s\<lparr>mm_brk := B + (slot_bytes + sz), mm_slots := ?h3, mm_data := ?d3\<rparr>)"
    by (simp add: put_slot_def cong: if_cong)
  moreover have "upd_slot (s\<lparr>mm_brk := B + (slot_bytes + sz), mm_slots := ?h3, mm_data := ?d3\<rparr>) A
      (s_next_update (\<lambda>_. Some B)) =
      Some (s\<lparr>mm_brk := B + (slot_bytes + sz), mm_slots := ?h4, mm_data := ?d3\<rparr>)"
    using h3A hA by (simp add: upd_slot_def)
  ultimately show ?thesis
    using l A brk room
    by (intro exI [of _ "s\<lparr>mm_brk := B + (slot_bytes + sz), mm_slots := ?h, mm_data := ?d2\<rparr>"]
          exI [of _ "s\<lparr>mm_brk := B + (slot_bytes + sz), mm_slots := ?h3, mm_data := ?d3\<rparr>"]
          exI [of _ "s\<lparr>mm_brk := B + (slot_bytes + sz), mm_slots := ?h4, mm_data := ?d3\<rparr>"])
      (simp add: lay_def)
qed


text \<open>What each way of finding room leaves behind.\<close>

definition allocates :: "mm \<Rightarrow> nat \<Rightarrow> blk list \<Rightarrow> nat \<Rightarrow> nat \<Rightarrow> mm \<Rightarrow> blk list \<Rightarrow> nat \<Rightarrow> bool" where
  "allocates s a0 bs sz p s' bs' n \<longleftrightarrow>
     sz \<le> n \<and> n < sz + slot_bytes + 4 \<and> mm_ok s' a0 bs'
     \<and> blocks a0 bs' = insert (p, n) (blocks a0 bs) \<and> (p, n) \<notin> blocks a0 bs
     \<and> (\<forall>i. p \<le> i \<and> i < p + n \<longrightarrow> mm_data s' i = Some NUL) \<and> same_data s s' (blocks a0 bs)"

lemma allocates_intro:
  assumes ok: "mm_ok s a0 bs" and l: "lay s' a0 ((0, False) # bs')" and adj: "no_adj bs'"
    and b: "blocks a0 bs' = insert (p, n) (blocks a0 bs)" and p: "(p, n) \<notin> blocks a0 bs"
    and zero: "\<And>i. p \<le> i \<Longrightarrow> i < p + n \<Longrightarrow> mm_data s' i = Some NUL"
    and same: "same_data s s' (blocks a0 bs)" and sz: "sz \<le> n" "n < sz + slot_bytes + 4"
  shows "allocates s a0 bs sz p s' bs' n"
proof -
  have "mm_data s' i \<noteq> None" if "(q, m) \<in> blocks a0 bs'" "q \<le> i" "i < q + m" for q m i
  proof (cases "(q, m) = (p, n)")
    case True
    then show ?thesis using zero that by simp
  next
    case False
    then have "(q, m) \<in> blocks a0 bs" using that b by blast
    then show ?thesis using mm_ok_data [OF ok] same_dataD [OF same] that by metis
  qed
  then have "mm_ok s' a0 bs'" using l adj unfolding mm_ok_def by blast
  then show ?thesis using b p zero same sz by (simp add: allocates_def)
qed

lemma malloc_in_free_block:
  assumes ok: "mm_ok s a0 bs" and bs: "bs = zs @ (n, True) # ys" and fit: "sz \<le> n"
    and A: "A = a0 + slot_bytes + extent zs"
  shows "\<exists>s1 s2 bs' m. split_slot s A sz = Some s1 \<and> upd_slot s1 A (s_isFree_update (\<lambda>_. False)) = Some s2
     \<and> allocates s a0 bs sz (A + slot_bytes) s2 bs' m"
proof -
  let ?xs = "(0, False) # zs"
  have A': "A = a0 + extent ?xs" using A by simp
  have l: "lay s a0 (?xs @ (n, True) # ys)" using ok bs by (simp add: mm_ok_def)
  from split_slot_spec [OF l A' fit] obtain s1 m rs where
    1: "split_slot s A sz = Some s1" "lay s1 a0 (?xs @ (m, True) # rs @ ys)"
       "sz \<le> m" "m < sz + slot_bytes + 4"
       "rs = [] \<and> m = n \<or> m = sz \<and> rs = [(n - sz - slot_bytes, True)] \<and> sz + slot_bytes \<le> n"
       "\<forall>i. A + slot_bytes \<le> i \<and> i < A + slot_bytes + m \<longrightarrow> mm_data s1 i = Some NUL"
       "\<forall>i. i < A \<or> A + slot_bytes + n \<le> i \<longrightarrow> mm_data s1 i = mm_data s i" by blast
  from upd_flag [OF 1(2) A', of False] obtain s2 where
    2: "upd_slot s1 A (s_isFree_update (\<lambda>_. False)) = Some s2"
       "lay s2 a0 (?xs @ (m, False) # rs @ ys)" "mm_data s2 = mm_data s1" by blast
  let ?bs' = "zs @ (m, False) # rs @ ys"
  have old: "blocks a0 bs = live (a0 + slot_bytes) zs \<union> live (A + slot_bytes + n) ys"
    using bs A by simp
  have apart: "q + k \<le> A \<or> A + slot_bytes + n + slot_bytes \<le> q" if "(q, k) \<in> blocks a0 bs" for q k
    using live_middle_apart [of q k "a0 + slot_bytes" zs n ys] that old A by simp
  have "blocks a0 ?bs' = insert (A + slot_bytes, m) (blocks a0 bs)"
    using 1(5) A unfolding old by (auto simp: add.assoc)
  moreover have "(A + slot_bytes, m) \<notin> blocks a0 bs"
    using apart [of "A + slot_bytes" m] by (auto simp: slot_bytes_def)
  moreover have "same_data s s2 (blocks a0 bs)"
    unfolding same_data_def 2(3)
  proof clarify
    fix q k i assume "(q, k) \<in> blocks a0 bs" "q \<le> i" "i < q + k"
    then have "i < A \<or> A + slot_bytes + n \<le> i" using apart [of q k] by auto
    then show "mm_data s1 i = mm_data s i" using 1(7) by blast
  qed
  moreover have "no_adj ?bs'"
    using ok bs 1(5) unfolding mm_ok_def by (cases ys) (auto simp: successively_append_iff)
  moreover have "lay s2 a0 ((0, False) # ?bs')" using 2(2) by simp
  moreover have "mm_data s2 i = Some NUL" if "A + slot_bytes \<le> i" "i < A + slot_bytes + m" for i
    using 1(6) that unfolding 2(3) by blast
  ultimately have "allocates s a0 bs sz (A + slot_bytes) s2 ?bs' m"
    using allocates_intro [OF ok _ _ _ _ _ _ 1(3,4), of s2 ?bs' "A + slot_bytes"] by blast
  then show ?thesis using 1(1) 2(1) by blast
qed

lemma malloc_at_tail_spec:
  assumes ok: "mm_ok s a0 bs" and sz: "0 < sz" "sz < 2 ^ 62" and small: "\<forall>b \<in> set bs. snd b \<longrightarrow> fst b < sz"
  shows "malloc_at_tail s sz = Some (None, s)
     \<or> (\<exists>p n s' bs'. malloc_at_tail s sz = Some (Some p, s') \<and> allocates s a0 bs sz p s' bs' n)"
proof -
  obtain xs k f where L: "(0, False) # bs = xs @ [(k, f)]"
    by (cases "(0, False) # bs" rule: rev_cases) auto
  let ?A = "a0 + extent xs"
  have l: "lay s a0 (xs @ [(k, f)])" using ok L by (simp add: mm_ok_def)
  have tail: "mm_tail s = Some ?A" using l by (simp add: lay_def)
  obtain x where x: "mm_slots s ?A = Some x" "s_isFree x = f" "s_size x = k"
    using lay_at(1) [OF l] by simp
  have brk: "mm_brk s = ?A + slot_bytes + k" using l by (simp add: lay_def)
  show ?thesis
  proof (cases f)
    case True
    then obtain zs where zs: "xs = (0, False) # zs" "bs = zs @ [(k, True)]"
      using L by (cases xs) auto
    have k: "k \<le> sz" using small zs by auto
    have inc: "sub64 sz k = sz - k" using k sz by (simp add: sub64_le)
    have l': "lay s a0 (xs @ [(k, True)])" using l True by simp
    show ?thesis
    proof (cases "mm_limit s < mm_brk s + (sz - k)")
      case True
      then show ?thesis using sbrk_grow [OF l, of "sz - k"] tail x \<open>f\<close> inc sz
        by (simp add: malloc_at_tail_def)
    next
      case False
      then have room: "mm_brk s + (sz - k) \<le> mm_limit s" by simp
      from extend_tail [OF l' refl k room sz(1)] obtain s2 s3 where
        2: "memset0 (s\<lparr>mm_brk := mm_brk s + (sz - k)\<rparr>) (?A + slot_bytes) sz = Some s2"
           "upd_slot s2 ?A (\<lambda>v. v\<lparr>s_size := sz, s_isFree := False\<rparr>) = Some s3"
           "lay s3 a0 (xs @ [(sz, False)])"
           "mm_data s3 = (\<lambda>i. if ?A + slot_bytes \<le> i \<and> i < ?A + slot_bytes + sz then Some NUL
              else mm_data s i)" by blast
      have apart: "q + m \<le> ?A" if "(q, m) \<in> blocks a0 bs" for q m
        using live_bounds [of q m "a0 + slot_bytes" zs] that zs by simp
      have "malloc_at_tail s sz = Some (Some (?A + slot_bytes), s3)"
        using sbrk_grow [OF l, of "sz - k"] tail x \<open>f\<close> inc sz False 2(1,2)
        by (simp add: malloc_at_tail_def)
      moreover have "allocates s a0 bs sz (?A + slot_bytes) s3 (zs @ [(sz, False)]) sz"
      proof (rule allocates_intro [OF ok])
        show "lay s3 a0 ((0, False) # zs @ [(sz, False)])" using 2(3) zs by simp
        show "no_adj (zs @ [(sz, False)])" using ok zs by (auto simp: mm_ok_def successively_append_iff)
        show "blocks a0 (zs @ [(sz, False)]) = insert (?A + slot_bytes, sz) (blocks a0 bs)" using zs by (simp add: add.assoc)
        show "(?A + slot_bytes, sz) \<notin> blocks a0 bs" using apart [of "?A + slot_bytes" sz] by (auto simp: slot_bytes_def)
        show "same_data s s3 (blocks a0 bs)" unfolding same_data_def 2(4)
          using apart by fastforce
      qed (simp_all add: 2(4))
      ultimately show ?thesis by blast
    qed
  next
    case False
    let ?B = "mm_brk s"
    have inc: "wrap64 (slot_bytes + sz) = slot_bytes + sz" using sz by (simp add: wrap64_def slot_bytes_def)
    have small': "slot_bytes + sz < 2 ^ 63" using sz by (simp add: slot_bytes_def)
    show ?thesis
    proof (cases "mm_limit s < ?B + (slot_bytes + sz)")
      case True
      then show ?thesis using sbrk_grow [OF l small'] tail x \<open>\<not> f\<close> inc
        by (simp add: malloc_at_tail_def)
    next
      case room: False
      then have room': "?B + (slot_bytes + sz) \<le> mm_limit s" by simp
      from add_tail [OF l refl refl room'] obtain s2 s3 s4 where
        2: "memset0 (s\<lparr>mm_brk := ?B + (slot_bytes + sz)\<rparr>) ?B (slot_bytes + sz) = Some s2"
           "put_slot s2 ?B \<lparr>s_prev = Some ?A, s_next = None, s_isFree = False, s_size = sz\<rparr> = Some s3"
           "upd_slot s3 ?A (s_next_update (\<lambda>_. Some ?B)) = Some s4"
           "lay (s4\<lparr>mm_tail := Some ?B\<rparr>) a0 (xs @ [(k, f), (sz, False)])"
           "\<forall>i. ?B + slot_bytes \<le> i \<and> i < ?B + slot_bytes + sz \<longrightarrow> mm_data s4 i = Some NUL"
           "\<forall>i. i < ?B \<longrightarrow> mm_data s4 i = mm_data s i" by blast
      have brk': "?B = a0 + slot_bytes + extent bs" using ok by (simp add: mm_ok_def lay_def)
      have apart: "q + m \<le> ?B" if "(q, m) \<in> blocks a0 bs" for q m
        using live_bounds [of q m "a0 + slot_bytes" bs] that brk' by simp
      let ?s' = "s4\<lparr>mm_tail := Some ?B\<rparr>"
      have "malloc_at_tail s sz = Some (Some (?B + slot_bytes), ?s')"
        using sbrk_grow [OF l small'] tail x \<open>\<not> f\<close> inc room 2(1,2,3)
        by (simp add: malloc_at_tail_def)
      moreover have "allocates s a0 bs sz (?B + slot_bytes) ?s' (bs @ [(sz, False)]) sz"
      proof (rule allocates_intro [OF ok])
        have "(0, False) # bs @ [(sz, False)] = ((0, False) # bs) @ [(sz, False)]" by simp
        also have "\<dots> = xs @ [(k, f), (sz, False)]" unfolding L by simp
        finally show "lay ?s' a0 ((0, False) # bs @ [(sz, False)])" using 2(4) by metis
        show "no_adj (bs @ [(sz, False)])" using ok by (auto simp: mm_ok_def successively_append_iff)
        show "blocks a0 (bs @ [(sz, False)]) = insert (?B + slot_bytes, sz) (blocks a0 bs)"
          using brk' by simp
        show "(?B + slot_bytes, sz) \<notin> blocks a0 bs" using apart [of "?B + slot_bytes" sz] sz by auto
        show "same_data s ?s' (blocks a0 bs)" unfolding same_data_def using apart 2(6) by fastforce
      qed (use 2(5) in simp_all)
      ultimately show ?thesis by blast
    qed
  qed
qed

lemma mm_malloc_spec:
  assumes ok: "mm_ok s a0 bs" and sz: "0 < sz" "sz < 2 ^ 62"
  shows "mm_malloc s sz = Some (None, s)
     \<or> (\<exists>p n s' bs'. mm_malloc s sz = Some (Some p, s') \<and> allocates s a0 bs sz p s' bs' n)"
proof -
  have l: "lay s a0 ((0, False) # bs)" using ok by (simp add: mm_ok_def)
  then have init: "mm_isInit s" by (simp add: lay_def)
  from find_list_elem_spec [OF l, of sz] show ?thesis
  proof
    assume *: "find_list_elem s sz = Some None \<and> (\<forall>b \<in> set ((0, False) # bs). snd b \<longrightarrow> fst b < sz)"
    then have "mm_malloc s sz = malloc_at_tail s sz" using init sz by (simp add: mm_malloc_def)
    then show ?thesis using malloc_at_tail_spec [OF ok sz] * by simp
  next
    assume "\<exists>xs n ys. (0, False) # bs = xs @ (n, True) # ys \<and> sz \<le> n
      \<and> find_list_elem s sz = Some (Some (a0 + extent xs))"
    then obtain xs n ys where *: "(0, False) # bs = xs @ (n, True) # ys" "sz \<le> n"
      "find_list_elem s sz = Some (Some (a0 + extent xs))" by blast
    then obtain zs where zs: "xs = (0, False) # zs" "bs = zs @ (n, True) # ys" by (cases xs) auto
    from malloc_in_free_block [OF ok zs(2) *(2) refl] obtain s1 s2 bs' m where
      m: "split_slot s (a0 + slot_bytes + extent zs) sz = Some s1"
         "upd_slot s1 (a0 + slot_bytes + extent zs) (s_isFree_update (\<lambda>_. False)) = Some s2"
         "allocates s a0 bs sz (a0 + slot_bytes + extent zs + slot_bytes) s2 bs' m" by blast
    then have "mm_malloc s sz = Some (Some (a0 + slot_bytes + extent zs + slot_bytes), s2)"
      using init sz *(3) zs(1) by (simp add: mm_malloc_def add.assoc)
    then show ?thesis using m(3) by blast
  qed
qed


subsection \<open>Blocks lie apart\<close>

lemma live_apart:
  assumes "(p, n) \<in> live a bs" "(q, m) \<in> live a bs" "(p, n) \<noteq> (q, m)"
  shows "p + n + slot_bytes \<le> q \<or> q + m + slot_bytes \<le> p"
proof -
  from assms(1) obtain xs ys where bs: "bs = xs @ (n, False) # ys" "p = a + extent xs + slot_bytes"
    by (rule live_split)
  then have "(q, m) \<in> live a xs \<union> live (a + extent xs + slot_bytes + n) ys"
    using assms(2,3) by auto
  then show ?thesis
    using live_bounds [of q m a xs] live_bounds [of q m "a + extent xs + slot_bytes + n" ys] bs(2) by auto
qed

lemma block_slot:
  assumes ok: "mm_ok s a0 bs" and p: "(p, k) \<in> blocks a0 bs"
  obtains c x where "find_list_elem_data_location s p = Some (Some c)" "p = c + slot_bytes"
    "mm_slots s c = Some x" "s_size x = k"
proof -
  from p obtain zs ys where bs: "bs = zs @ (k, False) # ys"
    "p = a0 + slot_bytes + extent zs + slot_bytes" by (rule live_split)
  have l: "lay s a0 (((0, False) # zs) @ (k, False) # ys)" using ok bs by (simp add: mm_ok_def)
  have "find_list_elem_data_location s p = Some (Some (a0 + extent ((0, False) # zs)))"
    using find_location_spec [of "mm_slots s" None a0 "(0, False) # zs" "(k, False)" ys] l bs(2)
    by (simp add: find_list_elem_data_location_def lay_def add.assoc)
  moreover obtain x where "mm_slots s (a0 + extent ((0, False) # zs)) = Some x" "s_size x = k"
    using lay_at(1) [OF l] by simp
  ultimately show thesis by (intro that) (simp_all add: bs(2) add.assoc)
qed

lemma memcpy_block:
  assumes ok: "mm_ok s a0 bs" and q: "(q, n) \<in> blocks a0 bs" and m: "m \<le> n"
    and src: "\<And>i. p \<le> i \<Longrightarrow> i < p + m \<Longrightarrow> mm_data s i \<noteq> None"
  shows "\<exists>s'. memcpy s q p m = Some s' \<and> mm_ok s' a0 bs
     \<and> mm_data s' = (\<lambda>i. if q \<le> i \<and> i < q + m then mm_data s (p + (i - q)) else mm_data s i)"
proof (cases "m = 0")
  case True
  then show ?thesis using ok by (auto simp: memcpy_def fun_eq_iff)
next
  case False
  let ?h = "\<lambda>x. if x < q + m \<and> q < x + slot_bytes then None else mm_slots s x"
  let ?d = "\<lambda>i. if q \<le> i \<and> i < q + m then mm_data s (p + (i - q)) else mm_data s i"
  from q obtain zs ys where bs: "bs = zs @ (n, False) # ys"
    "q = a0 + slot_bytes + extent zs + slot_bytes" by (rule live_split)
  let ?L = "((0, False) # zs) @ (n, False) # ys"
  have l: "lay s a0 ?L" using ok bs by (simp add: mm_ok_def)
  have "?h x = mm_slots s x" if "x \<in> set (addrs a0 ?L)" for x
    using addrs_data [OF that] bs(2) m by (auto simp: add.assoc)
  then have "tiles ?h None a0 ?L None = tiles (mm_slots s) None a0 ?L None" by (rule tiles_cong)
  then have l': "lay (s\<lparr>mm_slots := ?h, mm_data := ?d\<rparr>) a0 ?L" using l unfolding lay_def by simp
  have "mm_data s i \<noteq> None" if "i \<in> {p..<p + m}" for i using src that by simp
  moreover have "q + m \<le> mm_brk s" using lay_at(3) [OF l] bs(2) m by simp
  ultimately have "memcpy s q p m = Some (s\<lparr>mm_slots := ?h, mm_data := ?d\<rparr>)"
    using False by (auto simp: memcpy_def)
  moreover have "mm_ok (s\<lparr>mm_slots := ?h, mm_data := ?d\<rparr>) a0 bs"
    unfolding mm_ok_def
  proof (intro conjI ballI, goal_cases)
    case 1 show ?case using l' bs(1) by simp
  next
    case 2 show ?case using ok by (simp add: mm_ok_def)
  next
    case (3 b)
    obtain r k where b: "b = (r, k)" by (cases b)
    show ?case unfolding b prod.case
      using mm_ok_data [OF ok, of r k] 3 b src by (auto simp: less_diff_conv2)
  qed
  ultimately show ?thesis by simp
qed

lemma mm_realloc_spec:
  assumes ok: "mm_ok s a0 bs" and p: "(p, k) \<in> blocks a0 bs" and sz: "0 < sz" "sz < 2 ^ 62"
  shows "mm_realloc s (Some p) sz = Some (None, s)
     \<or> (\<exists>q n s' bs'. mm_realloc s (Some p) sz = Some (Some q, s') \<and> mm_ok s' a0 bs' \<and> sz \<le> n
       \<and> blocks a0 bs' = insert (q, n) (blocks a0 bs - {(p, k)}) \<and> (q, n) \<notin> blocks a0 bs
       \<and> (\<forall>i < min k sz. mm_data s' (q + i) = mm_data s (p + i))
       \<and> (\<forall>i. min k sz \<le> i \<and> i < n \<longrightarrow> mm_data s' (q + i) = Some NUL)
       \<and> same_data s s' (blocks a0 bs - {(p, k)}))"
proof -
  from block_slot [OF ok p] obtain c x where
    c: "find_list_elem_data_location s p = Some (Some c)" "p = c + slot_bytes" .
  from mm_malloc_spec [OF ok sz] show ?thesis
  proof
    assume "mm_malloc s sz = Some (None, s)"
    then show ?thesis using c sz by (simp add: mm_realloc_def)
  next
    assume "\<exists>q n s1 bs1. mm_malloc s sz = Some (Some q, s1) \<and> allocates s a0 bs sz q s1 bs1 n"
    then obtain q n s1 bs1 where m: "mm_malloc s sz = Some (Some q, s1)"
      "allocates s a0 bs sz q s1 bs1 n" by blast
    then have ok1: "mm_ok s1 a0 bs1" and n: "sz \<le> n"
      and b1: "blocks a0 bs1 = insert (q, n) (blocks a0 bs)" and q: "(q, n) \<notin> blocks a0 bs"
      and zero: "\<forall>i. q \<le> i \<and> i < q + n \<longrightarrow> mm_data s1 i = Some NUL"
      and same1: "same_data s s1 (blocks a0 bs)" by (simp_all add: allocates_def)
    have p1: "(p, k) \<in> blocks a0 bs1" "(q, n) \<in> blocks a0 bs1" using p b1 by auto
    have ne: "(p, k) \<noteq> (q, n)" using p q by auto
    from block_slot [OF ok1 p1(1)] obtain c1 x1 where
      x1: "p = c1 + slot_bytes" "mm_slots s1 c1 = Some x1" "s_size x1 = k" .
    then have c1: "mm_slots s1 c = Some x1" using c(2) by simp
    let ?m = "min k sz"
    have src: "mm_data s1 i \<noteq> None" if "p \<le> i" "i < p + ?m" for i
      using mm_ok_data [OF ok1 p1(1), of i] that by simp
    have "?m \<le> n" using n by simp
    from memcpy_block [OF ok1 p1(2) this src] obtain s2 where
      2: "memcpy s1 q p ?m = Some s2" "mm_ok s2 a0 bs1"
         "mm_data s2 = (\<lambda>i. if q \<le> i \<and> i < q + ?m then mm_data s1 (p + (i - q)) else mm_data s1 i)"
      by blast
    from mm_free_spec [OF 2(2) p1(1)] obtain s3 bs3 where
      3: "mm_free s2 (Some p) = Some s3" "mm_ok s3 a0 bs3"
         "blocks a0 bs3 = blocks a0 bs1 - {(p, k)}" "same_data s2 s3 (blocks a0 bs1 - {(p, k)})" by blast
    have "mm_realloc s (Some p) sz = Some (Some q, s3)"
      using c(1) sz m(1) c1 x1(3) 2(1) 3(1) by (cases "k \<le> sz") (simp_all add: mm_realloc_def min_def)
    moreover have "blocks a0 bs3 = insert (q, n) (blocks a0 bs - {(p, k)})"
      using 3(3) b1 ne by auto
    moreover have s3q: "mm_data s3 (q + i) = mm_data s2 (q + i)" if "i < n" for i
      using same_dataD [OF 3(4), of q n "q + i"] that p1(2) ne by auto
    moreover have "mm_data s3 (q + i) = mm_data s (p + i)" if "i < ?m" for i
      using s3q [of i] that \<open>?m \<le> n\<close> same_dataD [OF same1 p, of "p + i"] 2(3) by simp
    moreover have "mm_data s3 (q + i) = Some NUL" if "?m \<le> i" "i < n" for i
      using s3q [of i] that zero 2(3) by (auto simp: min_le_iff_disj)
    moreover have "same_data s s3 (blocks a0 bs - {(p, k)})"
    proof (rule same_dataI)
      fix r j i assume rj: "(r, j) \<in> blocks a0 bs - {(p, k)}" and i: "r \<le> i" "i < r + j"
      then have r: "(r, j) \<in> blocks a0 bs" "(r, j) \<noteq> (p, k)" by blast+
      have r1: "(r, j) \<in> blocks a0 bs1" "(r, j) \<noteq> (q, n)" using r(1) b1 q by auto
      have "\<not> (q \<le> i \<and> i < q + ?m)"
        using live_apart [OF r1(1) p1(2) r1(2)] i \<open>?m \<le> n\<close> by auto
      then have "mm_data s2 i = mm_data s1 i" unfolding 2(3) by auto
      then show "mm_data s3 i = mm_data s i"
        using same_dataD [OF 3(4) _ i] r r1 same_dataD [OF same1 r(1) i] by simp
    qed
    ultimately show ?thesis using 3(2) n q by blast
  qed
qed


subsection \<open>The first allocation\<close>

definition fresh :: "mm \<Rightarrow> bool" where
  "fresh s \<longleftrightarrow> \<not> mm_isInit s \<and> mm_low s \<le> mm_brk s
     \<and> mm_brk s + slot_bytes \<le> mm_limit s \<and> mm_limit s < 2 ^ 63"

lemma init_malloc_spec:
  assumes "fresh s"
  shows "\<exists>s'. init_malloc s = Some s' \<and> mm_ok s' (mm_brk s) [] \<and> mm_isInit s'"
  using assms
  by (auto simp: fresh_def init_malloc_def sbrk_def put_slot_def Let_def slot_bytes_def mm_ok_def lay_def
      nat_add_distrib)

lemma mm_malloc_init:
  assumes "fresh s" "init_malloc s = Some s'" "mm_isInit s'"
  shows "mm_malloc s sz = mm_malloc s' sz"
  using assms by (simp add: mm_malloc_def fresh_def)

subsection \<open>A client\<close>

text \<open>
  A program that keeps the pointers it got, with the bytes it expects behind each, and calls
  the allocator on them. A request for no bytes gives NULL, and \<open>mm_realloc\<close> to no bytes frees.
\<close>

datatype mm_call = Malloc nat | Free nat | Realloc nat nat | Store nat nat char

type_synonym held = "(nat \<times> char list) list"

fun heap_step :: "mm_call \<Rightarrow> mm \<times> held \<Rightarrow> (mm \<times> held) option" where
  "heap_step (Malloc sz) (s, H) =
     do { (r, s') \<leftarrow> mm_malloc s sz;
          Some (s', case r of None \<Rightarrow> H | Some p \<Rightarrow> H @ [(p, replicate sz NUL)]) }"
| "heap_step (Free i) (s, H) =
     (if i < length H
      then do { s' \<leftarrow> mm_free s (Some (fst (H ! i))); Some (s', take i H @ drop (Suc i) H) }
      else Some (s, H))"
| "heap_step (Realloc i sz) (s, H) =
     (if i < length H
      then do { (r, s') \<leftarrow> mm_realloc s (Some (fst (H ! i))) sz;
                Some (s', case r of
                    None \<Rightarrow> if sz = 0 then take i H @ drop (Suc i) H else H
                  | Some q \<Rightarrow> take i H @ drop (Suc i) H
                      @ [(q, take sz (snd (H ! i)) @ replicate (sz - length (snd (H ! i))) NUL)]) }
      else Some (s, H))"
| "heap_step (Store i k c) (s, H) =
     (if i < length H \<and> k < length (snd (H ! i))
      then Some (s\<lparr>mm_data := (mm_data s)(fst (H ! i) + k \<mapsto> c)\<rparr>,
                 H[i := (fst (H ! i), (snd (H ! i))[k := c])])
      else Some (s, H))"

fun heap_run :: "mm_call list \<Rightarrow> mm \<times> held \<Rightarrow> (mm \<times> held) option" where
  "heap_run [] st = Some st"
| "heap_run (c # cs) st = Option.bind (heap_step c st) (heap_run cs)"

fun request :: "mm_call \<Rightarrow> nat" where
  "request (Malloc sz) = sz"
| "request (Realloc i sz) = sz"
| "request _ = 0"

text \<open>The blocks in use are the held ones, with the expected bytes and zeros behind them.\<close>

definition holds :: "mm \<Rightarrow> (nat \<times> nat) set \<Rightarrow> nat \<times> char list \<Rightarrow> bool" where
  "holds s B h \<longleftrightarrow> (\<exists>n. (fst h, n) \<in> B \<and> length (snd h) \<le> n \<and>
     (\<forall>i < n. mm_data s (fst h + i) = Some (if i < length (snd h) then snd h ! i else NUL)))"

definition held_ok :: "mm \<Rightarrow> held \<Rightarrow> bool" where
  "held_ok s H \<longleftrightarrow> (\<exists>a0 bs. mm_ok s a0 bs \<and> distinct (map fst H)
     \<and> fst ` blocks a0 bs = set (map fst H) \<and> (\<forall>h \<in> set H. holds s (blocks a0 bs) h))"

lemma block_size_unique: "(p, n) \<in> live a bs \<Longrightarrow> (p, m) \<in> live a bs \<Longrightarrow> n = m"
  using live_apart [of p n a bs p m] by (auto simp: slot_bytes_def)

lemma holds_same:
  assumes "holds s B h" "same_data s s' B'" "\<And>n. (fst h, n) \<in> B \<Longrightarrow> (fst h, n) \<in> B'" "B' \<subseteq> C"
  shows "holds s' C h"
proof -
  from assms(1) obtain n where n: "(fst h, n) \<in> B" "length (snd h) \<le> n"
    "\<And>i. i < n \<Longrightarrow> mm_data s (fst h + i) = Some (if i < length (snd h) then snd h ! i else NUL)"
    unfolding holds_def by blast
  have "(fst h, n) \<in> B'" using assms(3) n(1) by blast
  moreover have "mm_data s' (fst h + i) = mm_data s (fst h + i)" if "i < n" for i
    using same_dataD [OF assms(2) \<open>(fst h, n) \<in> B'\<close>, of "fst h + i"] that by simp
  ultimately show ?thesis unfolding holds_def using n assms(4) by auto
qed


lemma drop_nth:
  assumes "distinct (map fst H)" "i < length H"
  shows "set (take i H @ drop (Suc i) H) = set H - {H ! i}"
    and "set (map fst (take i H @ drop (Suc i) H)) = set (map fst H) - {fst (H ! i)}"
    and "distinct (map fst (take i H @ drop (Suc i) H))"
proof -
  have H: "H = take i H @ H ! i # drop (Suc i) H" using assms(2) by (rule id_take_nth_drop)
  then have d: "distinct (map fst (take i H @ H ! i # drop (Suc i) H))" using assms(1) by simp
  have n: "fst (H ! i) \<notin> fst ` (set (take i H) \<union> set (drop (Suc i) H))" using d by auto
  have s: "set H = insert (H ! i) (set (take i H) \<union> set (drop (Suc i) H))"
    by (subst H) auto
  show "set (take i H @ drop (Suc i) H) = set H - {H ! i}" unfolding s using n by force
  show "set (map fst (take i H @ drop (Suc i) H)) = set (map fst H) - {fst (H ! i)}"
    unfolding set_map s using n by (auto simp: image_Un)
  show "distinct (map fst (take i H @ drop (Suc i) H))" using d by simp
qed

lemma fst_minus: "(\<And>m. (p, m) \<in> B \<Longrightarrow> m = n) \<Longrightarrow> fst ` (B - {(p, n)}) = fst ` B - {p}"
  by force

lemma client_free:
  assumes c: "held_ok s H" and i: "i < length H"
  shows "\<exists>s'. mm_free s (Some (fst (H ! i))) = Some s' \<and> held_ok s' (take i H @ drop (Suc i) H)"
proof -
  let ?H = "take i H @ drop (Suc i) H"
  from c obtain a0 bs where ok: "mm_ok s a0 bs" and d: "distinct (map fst H)"
    and B: "fst ` blocks a0 bs = set (map fst H)" and h: "\<forall>h \<in> set H. holds s (blocks a0 bs) h"
    unfolding held_ok_def by blast
  from h i obtain n where n: "(fst (H ! i), n) \<in> blocks a0 bs" unfolding holds_def by (meson nth_mem)
  from mm_free_spec [OF ok n] obtain s' bs' where
    f: "mm_free s (Some (fst (H ! i))) = Some s'" "mm_ok s' a0 bs'"
       "blocks a0 bs' = blocks a0 bs - {(fst (H ! i), n)}"
       "same_data s s' (blocks a0 bs - {(fst (H ! i), n)})" by blast
  have one: "(fst (H ! i), m) \<in> blocks a0 bs \<longleftrightarrow> m = n" for m using n block_size_unique by blast
  have "fst ` blocks a0 bs' = fst ` blocks a0 bs - {fst (H ! i)}"
    unfolding f(3) by (rule fst_minus) (use one in blast)
  then have B': "fst ` blocks a0 bs' = set (map fst ?H)" unfolding B drop_nth(2) [OF d i] .
  have "holds s' (blocks a0 bs') g" if g: "g \<in> set ?H" for g
  proof (rule holds_same [OF _ f(4)])
    have "g \<in> set H" using g drop_nth(1) [OF d i] by blast
    then show "holds s (blocks a0 bs) g" using h by blast
    have "fst g \<in> set (map fst ?H)" using g unfolding set_map by (rule imageI)
    then have "fst g \<noteq> fst (H ! i)" unfolding drop_nth(2) [OF d i] by blast
    then show "(fst g, m) \<in> blocks a0 bs - {(fst (H ! i), n)}" if "(fst g, m) \<in> blocks a0 bs" for m
      using that by auto
  qed (simp add: f(3))
  then have "held_ok s' ?H"
    unfolding held_ok_def using f(2) B' drop_nth(3) [OF d i] by blast
  then show ?thesis using f(1) by blast
qed

lemma client_new:
  assumes ok: "mm_ok s' a0 bs'" and d: "distinct (map fst H)"
    and B: "fst ` blocks a0 bs = set (map fst H)" and h: "\<forall>h \<in> set H. holds s (blocks a0 bs) h"
    and b: "blocks a0 bs' = insert (p, n) (blocks a0 bs)" "(p, n) \<notin> blocks a0 bs"
    and len: "length xs \<le> n"
    and data: "\<And>i. i < n \<Longrightarrow> mm_data s' (p + i) = Some (if i < length xs then xs ! i else NUL)"
    and same: "same_data s s' (blocks a0 bs)"
  shows "held_ok s' (H @ [(p, xs)])"
proof -
  have new: "p \<notin> set (map fst H)"
  proof
    assume "p \<in> set (map fst H)"
    then obtain m where m: "(p, m) \<in> blocks a0 bs" using B by force
    then have "m = n" using block_size_unique [of p m "a0 + slot_bytes" bs' n] b(1) by blast
    then show False using m b(2) by blast
  qed
  have "holds s' (blocks a0 bs') (p, xs)" unfolding holds_def using b len data by auto
  moreover have "holds s' (blocks a0 bs') g" if "g \<in> set H" for g
    using holds_same [OF _ same, of "blocks a0 bs" g "blocks a0 bs'"] that h b by blast
  moreover have "fst ` blocks a0 bs' = set (map fst (H @ [(p, xs)]))" using B b by simp
  ultimately show ?thesis using ok d new
    unfolding held_ok_def by (intro exI [of _ a0] exI [of _ bs']) auto
qed

lemma client_malloc:
  assumes c: "held_ok s H" and sz: "0 < sz" "sz < 2 ^ 62"
  shows "mm_malloc s sz = Some (None, s) \<or>
     (\<exists>p s'. mm_malloc s sz = Some (Some p, s') \<and> held_ok s' (H @ [(p, replicate sz NUL)]))"
proof -
  from c obtain a0 bs where ok: "mm_ok s a0 bs" and d: "distinct (map fst H)"
    and B: "fst ` blocks a0 bs = set (map fst H)" and h: "\<forall>h \<in> set H. holds s (blocks a0 bs) h"
    unfolding held_ok_def by blast
  from mm_malloc_spec [OF ok sz] show ?thesis
  proof
    assume "\<exists>p n s' bs'. mm_malloc s sz = Some (Some p, s') \<and> allocates s a0 bs sz p s' bs' n"
    then obtain p n s' bs' where m: "mm_malloc s sz = Some (Some p, s')"
      and al: "allocates s a0 bs sz p s' bs' n" by blast
    from al have al': "mm_ok s' a0 bs'" "blocks a0 bs' = insert (p, n) (blocks a0 bs)"
      "(p, n) \<notin> blocks a0 bs" "sz \<le> n" "same_data s s' (blocks a0 bs)"
      "\<And>i. i < n \<Longrightarrow> mm_data s' (p + i) = Some NUL" by (auto simp: allocates_def)
    have "held_ok s' (H @ [(p, replicate sz NUL)])"
      by (rule client_new [OF al'(1) d B h al'(2,3) _ _ al'(5)]) (simp_all add: al'(4,6))
    then show ?thesis using m by blast
  qed blast
qed

lemma client_store:
  assumes c: "held_ok s H" and i: "i < length H" and k: "k < length (snd (H ! i))"
  shows "held_ok (s\<lparr>mm_data := (mm_data s)(fst (H ! i) + k \<mapsto> c)\<rparr>)
     (H[i := (fst (H ! i), (snd (H ! i))[k := c])])"
proof -
  let ?s = "s\<lparr>mm_data := (mm_data s)(fst (H ! i) + k \<mapsto> c)\<rparr>"
  let ?h = "(fst (H ! i), (snd (H ! i))[k := c])"
  from c obtain a0 bs where ok: "mm_ok s a0 bs" and d: "distinct (map fst H)"
    and B: "fst ` blocks a0 bs = set (map fst H)" and h: "\<forall>h \<in> set H. holds s (blocks a0 bs) h"
    unfolding held_ok_def by blast
  from h i have hi: "holds s (blocks a0 bs) (H ! i)" by simp
  then obtain n where n: "(fst (H ! i), n) \<in> blocks a0 bs" "length (snd (H ! i)) \<le> n"
    unfolding holds_def by blast
  have "lay ?s a0 ((0, False) # bs)" using ok by (simp add: mm_ok_def lay_def)
  then have ok': "mm_ok ?s a0 bs" using ok by (auto simp: mm_ok_def)
  have fst_same: "map fst (H[i := ?h]) = map fst H" using i by (simp add: map_update list_update_same_conv)
  have "holds ?s (blocks a0 bs) ?h" using hi k unfolding holds_def by (auto simp: nth_list_update)
  moreover have "holds ?s (blocks a0 bs) (H ! j)" if j: "j < length H" "j \<noteq> i" for j
  proof -
    from h j obtain m where m: "(fst (H ! j), m) \<in> blocks a0 bs" "length (snd (H ! j)) \<le> m"
      "\<And>l. l < m \<Longrightarrow> mm_data s (fst (H ! j) + l) = Some (if l < length (snd (H ! j)) then snd (H ! j) ! l else NUL)"
      unfolding holds_def by (meson nth_mem)
    have "fst (H ! j) \<noteq> fst (H ! i)" using d i j by (simp add: distinct_conv_nth)
    then have "fst (H ! i) + n + slot_bytes \<le> fst (H ! j) \<or> fst (H ! j) + m + slot_bytes \<le> fst (H ! i)"
      using live_apart [OF n(1) m(1)] by auto
    then have "fst (H ! j) + l \<noteq> fst (H ! i) + k" if "l < m" for l using that k n(2) by auto
    then show ?thesis using m unfolding holds_def by auto
  qed
  ultimately have "holds ?s (blocks a0 bs) (H[i := ?h] ! j)" if "j < length H" for j
    using that i by (cases "j = i") simp_all
  then have "\<forall>g \<in> set (H[i := ?h]). holds ?s (blocks a0 bs) g"
    unfolding all_set_conv_all_nth by simp
  then show ?thesis unfolding held_ok_def fst_same using ok' d B by blast
qed


lemma client_realloc:
  assumes c: "held_ok s H" and i: "i < length H" and sz: "0 < sz" "sz < 2 ^ 62"
  shows "mm_realloc s (Some (fst (H ! i))) sz = Some (None, s) \<or>
     (\<exists>q s'. mm_realloc s (Some (fst (H ! i))) sz = Some (Some q, s') \<and>
        held_ok s' (take i H @ drop (Suc i) H
          @ [(q, take sz (snd (H ! i)) @ replicate (sz - length (snd (H ! i))) NUL)]))"
proof -
  let ?H = "take i H @ drop (Suc i) H" and ?p = "fst (H ! i)" and ?xs = "snd (H ! i)"
  from c obtain a0 bs where ok: "mm_ok s a0 bs" and d: "distinct (map fst H)"
    and B: "fst ` blocks a0 bs = set (map fst H)" and h: "\<forall>h \<in> set H. holds s (blocks a0 bs) h"
    unfolding held_ok_def by blast
  from h i have "holds s (blocks a0 bs) (H ! i)" by simp
  then obtain k where k: "(?p, k) \<in> blocks a0 bs" "length ?xs \<le> k"
    "\<And>j. j < k \<Longrightarrow> mm_data s (?p + j) = Some (if j < length ?xs then ?xs ! j else NUL)"
    unfolding holds_def by blast
  let ?B = "blocks a0 bs - {(?p, k)}"
  from mm_realloc_spec [OF ok k(1) sz] show ?thesis
  proof (elim disjE exE conjE)
    fix q n s' bs'
    assume r: "mm_realloc s (Some ?p) sz = Some (Some q, s')" and ok': "mm_ok s' a0 bs'"
      and n: "sz \<le> n" and b: "blocks a0 bs' = insert (q, n) ?B" "(q, n) \<notin> blocks a0 bs"
      and cp: "\<forall>j < min k sz. mm_data s' (q + j) = mm_data s (?p + j)"
      and z: "\<forall>j. min k sz \<le> j \<and> j < n \<longrightarrow> mm_data s' (q + j) = Some NUL"
      and same: "same_data s s' ?B"
    let ?ys = "take sz ?xs @ replicate (sz - length ?xs) NUL"
    have one: "(?p, m) \<in> blocks a0 bs \<longleftrightarrow> m = k" for m using k(1) block_size_unique by blast
    have data: "mm_data s' (q + j) = Some (if j < length ?ys then ?ys ! j else NUL)" if "j < n" for j
    proof (cases "j < min k sz")
      case True
      then show ?thesis using cp k(3) [of j] by (auto simp: nth_append)
    next
      case False
      then show ?thesis using z that k(2) by (auto simp: nth_append)
    qed
    have "fst ` ?B = fst ` blocks a0 bs - {?p}" by (rule fst_minus) (use one in blast)
    then have B': "fst ` ?B = set (map fst ?H)" unfolding B drop_nth(2) [OF d i] .
    have new: "q \<notin> fst ` ?B"
    proof
      assume "q \<in> fst ` ?B"
      then obtain m where m: "(q, m) \<in> ?B" by force
      then have "m = n" using block_size_unique [of q m "a0 + slot_bytes" bs' n] b(1) by blast
      then show False using m b(2) by blast
    qed
    have "holds s' (blocks a0 bs') (q, ?ys)" unfolding holds_def using b(1) n data by auto
    moreover have "holds s' (blocks a0 bs') g" if g: "g \<in> set ?H" for g
    proof (rule holds_same [OF _ same])
      have "g \<in> set H" using g drop_nth(1) [OF d i] by blast
      then show "holds s (blocks a0 bs) g" using h by blast
      have "fst g \<in> set (map fst ?H)" using g unfolding set_map by (rule imageI)
      then have "fst g \<noteq> ?p" unfolding drop_nth(2) [OF d i] by blast
      then show "(fst g, m) \<in> ?B" if "(fst g, m) \<in> blocks a0 bs" for m
        using that by auto
    qed (use b(1) in blast)
    moreover have "distinct (map fst (?H @ [(q, ?ys)]))"
      using drop_nth(3) [OF d i] new unfolding B' by auto
    moreover have "fst ` blocks a0 bs' = set (map fst (?H @ [(q, ?ys)]))" using B' b(1) by auto
    ultimately have "held_ok s' (?H @ [(q, ?ys)])"
      unfolding held_ok_def using ok' by (intro exI [of _ a0] exI [of _ bs']) auto
    then show ?thesis using r by simp
  qed simp
qed

lemma heap_step_ok:
  assumes c: "held_ok s H \<or> fresh s \<and> H = []" and sz: "request call < 2 ^ 62"
  shows "\<exists>s' H'. heap_step call (s, H) = Some (s', H') \<and> (held_ok s' H' \<or> fresh s' \<and> H' = [])"
proof -
  have init: "\<exists>s1. held_ok s1 [] \<and> mm_isInit s1 \<and> (\<forall>sz. mm_malloc s sz = mm_malloc s1 sz)" if f: "fresh s"
  proof -
    from init_malloc_spec [OF f] obtain s1 where
      s1: "init_malloc s = Some s1" "mm_ok s1 (mm_brk s) []" "mm_isInit s1" by blast
    then have "held_ok s1 []" unfolding held_ok_def by (intro exI [of _ "mm_brk s"] exI [of _ "[]"]) simp
    then show ?thesis using s1 mm_malloc_init [OF f] by blast
  qed
  have ready: "mm_isInit s" if "held_ok s H"
    using that by (auto simp: held_ok_def mm_ok_def lay_def)
  show ?thesis
  proof (cases call)
    case (Malloc n)
    obtain s1 where s1: "held_ok s1 H" "mm_isInit s1" "mm_malloc s n = mm_malloc s1 n"
      using c ready init by blast
    show ?thesis
    proof (cases "n = 0")
      case True
      then have "mm_malloc s n = Some (None, s1)" using s1 by (simp add: mm_malloc_def)
      then show ?thesis using Malloc s1(1) by simp
    next
      case False
      then have "n < 2 ^ 62" "0 < n" using sz Malloc by simp_all
      from client_malloc [OF s1(1) this(2,1)] show ?thesis
        using Malloc s1 by auto
    qed
  next
    case (Free i)
    show ?thesis
    proof (cases "i < length H")
      case True
      then have "held_ok s H" using c by auto
      from client_free [OF this True] show ?thesis using Free True by auto
    qed (use Free c in auto)
  next
    case (Realloc i n)
    show ?thesis
    proof (cases "i < length H")
      case True
      then have ok: "held_ok s H" using c by auto
      show ?thesis
      proof (cases "n = 0")
        case True
        with client_free [OF ok \<open>i < length H\<close>] show ?thesis
          using Realloc \<open>i < length H\<close> by (auto simp: mm_realloc_def)
      next
        case False
        then have "0 < n" "n < 2 ^ 62" using sz Realloc by simp_all
        from client_realloc [OF ok True this] show ?thesis
          using Realloc True ok False by auto
      qed
    qed (use Realloc c in auto)
  next
    case (Store i k x)
    show ?thesis
    proof (cases "i < length H \<and> k < length (snd (H ! i))")
      case True
      then have "held_ok s H" using c by auto
      from client_store [OF this] show ?thesis using Store True by auto
    next
      case False
      then show ?thesis using Store c by auto
    qed
  qed
qed

lemma heap_run_ok:
  assumes "held_ok s H \<or> fresh s \<and> H = []" and "\<forall>call \<in> set calls. request call < 2 ^ 62"
  shows "\<exists>s' H'. heap_run calls (s, H) = Some (s', H') \<and> (held_ok s' H' \<or> fresh s' \<and> H' = [])"
  using assms
proof (induction calls arbitrary: s H)
  case Nil
  then show ?case by simp
next
  case (Cons call calls)
  from Cons.prems(2) have "request call < 2 ^ 62" by simp
  from heap_step_ok [OF Cons.prems(1) this] obtain s1 H1 where
    1: "heap_step call (s, H) = Some (s1, H1)" "held_ok s1 H1 \<or> fresh s1 \<and> H1 = []" by blast
  show ?case using Cons.IH [OF 1(2)] Cons.prems(2) 1(1) by simp
qed


subsection \<open>Properties\<close>

text \<open>Memory of a process at its start, for the examples.\<close>

definition mm0 :: mm where
  "mm0 = \<lparr>mm_slots = Map.empty, mm_data = Map.empty, mm_head = None, mm_tail = None,
     mm_isInit = False, mm_low = 4096, mm_brk = 4096, mm_limit = 65536\<rparr>"

lemma fresh_mm0: "fresh mm0"
  by (simp add: fresh_def mm0_def slot_bytes_def)

text \<open>C21: the allocator refines its promise. A client that starts on fresh memory and makes any
  calls, with requests below \<open>2 ^ 62\<close>, is never stuck; every block it holds has the bytes it
  expects (zeros at first, what it stored, what \<open>mm_realloc\<close> copied), the blocks lie apart and
  between the first and the current break.\<close>

theorem allocator_refines:
  assumes f: "fresh s" and sz: "\<forall>call \<in> set calls. request call < 2 ^ 62"
  shows "\<exists>s' H. heap_run calls (s, []) = Some (s', H)
     \<and> (\<forall>i < length H. \<forall>k < length (snd (H ! i)).
          mm_data s' (fst (H ! i) + k) = Some (snd (H ! i) ! k))
     \<and> (\<forall>i < length H. \<forall>j < length H. i \<noteq> j \<longrightarrow>
          fst (H ! i) + length (snd (H ! i)) < fst (H ! j) \<or> fst (H ! j) + length (snd (H ! j)) < fst (H ! i))
     \<and> (\<forall>h \<in> set H. mm_low s' \<le> fst h \<and> fst h + length (snd h) \<le> mm_brk s')"
proof -
  from heap_run_ok [of s "[]" calls] f sz obtain s' H where
    r: "heap_run calls (s, []) = Some (s', H)" and c: "held_ok s' H \<or> fresh s' \<and> H = []" by auto
  show ?thesis
  proof (cases "H = []")
    case False
    then have "held_ok s' H" using c by simp
    then obtain a0 bs where ok: "mm_ok s' a0 bs" and d: "distinct (map fst H)"
      and h': "\<forall>h \<in> set H. holds s' (blocks a0 bs) h" unfolding held_ok_def by (elim exE conjE) (rule that)
    have h: "holds s' (blocks a0 bs) h" if "h \<in> set H" for h using h' that by (rule bspec)
    have size: "\<exists>n. (fst h, n) \<in> blocks a0 bs \<and> length (snd h) \<le> n" if "h \<in> set H" for h
      using h [OF that] unfolding holds_def by blast
    have "fst (H ! i) + length (snd (H ! i)) < fst (H ! j) \<or> fst (H ! j) + length (snd (H ! j)) < fst (H ! i)"
      if ij: "i < length H" "j < length H" "i \<noteq> j" for i j
    proof -
      from size [OF nth_mem [OF ij(1)]] size [OF nth_mem [OF ij(2)]] obtain n m where
        nm: "(fst (H ! i), n) \<in> blocks a0 bs" "length (snd (H ! i)) \<le> n"
          "(fst (H ! j), m) \<in> blocks a0 bs" "length (snd (H ! j)) \<le> m" by blast
      have "fst (H ! i) \<noteq> fst (H ! j)" using d ij by (simp add: distinct_conv_nth)
      then show ?thesis using live_apart [OF nm(1,3)] nm(2,4) by (auto simp: slot_bytes_def)
    qed
    moreover have "mm_low s' \<le> fst h \<and> fst h + length (snd h) \<le> mm_brk s'" if "h \<in> set H" for h
    proof -
      from size [OF that] obtain n where "(fst h, n) \<in> blocks a0 bs" "length (snd h) \<le> n" by blast
      then show ?thesis using live_bounds [of "fst h" n "a0 + slot_bytes" bs] ok
        by (auto simp: mm_ok_def lay_def)
    qed
    moreover have "mm_data s' (fst (H ! i) + k) = Some (snd (H ! i) ! k)"
      if "i < length H" "k < length (snd (H ! i))" for i k
      using h [of "H ! i"] that unfolding holds_def by auto
    ultimately show ?thesis using r by blast
  qed (use r in simp)
qed

lemma allocator_refines_witness:
  "\<exists>s' H. heap_run [Malloc 4, Malloc 100, Store 0 2 CHR ''b'', Free 1, Realloc 0 8] (mm0, []) = Some (s', H)
     \<and> (\<forall>h \<in> set H. mm_low s' \<le> fst h \<and> fst h + length (snd h) \<le> mm_brk s')"
  using allocator_refines [OF fresh_mm0,
    of "[Malloc 4, Malloc 100, Store 0 2 CHR ''b'', Free 1, Realloc 0 8]"] by auto

text \<open>C22: neighbours are always joined. Once a client that made any calls has freed all it held,
  the memory up to the break is the first slot alone, or the first slot and one free slot.\<close>

theorem all_freed_is_one_slot:
  assumes f: "fresh s" and sz: "\<forall>call \<in> set calls. request call < 2 ^ 62"
    and r: "heap_run calls (s, []) = Some (s', [])" and i: "mm_isInit s'"
  shows "\<exists>a x. mm_head s' = Some a \<and> mm_slots s' a = Some x \<and>
     (mm_brk s' = a + slot_bytes \<and> s_next x = None
      \<or> s_next x = Some (a + slot_bytes)
        \<and> (\<exists>n. mm_brk s' = a + slot_bytes + slot_bytes + n
          \<and> mm_slots s' (a + slot_bytes)
            = Some \<lparr>s_prev = Some a, s_next = None, s_isFree = True, s_size = n\<rparr>))"
proof -
  from heap_run_ok [of s "[]" calls] f sz r i have "held_ok s' []" by (auto simp: fresh_def)
  then obtain a0 bs where ok: "mm_ok s' a0 bs" and B: "blocks a0 bs = {}"
    unfolding held_ok_def by auto
  have free: "snd b" if "b \<in> set bs" for b
  proof (rule ccontr)
    assume "\<not> snd b"
    from split_list [OF that] obtain xs ys where "bs = xs @ b # ys" by blast
    then show False using B \<open>\<not> snd b\<close> by (cases b) auto
  qed
  have l: "lay s' a0 ((0, False) # bs)" "no_adj bs" using ok by (auto simp: mm_ok_def)
  show ?thesis
  proof (cases bs)
    case Nil
    then show ?thesis using l by (auto simp: lay_def)
  next
    case (Cons b cs)
    then have "cs = []" using free l(2) by (cases cs) auto
    then show ?thesis using l(1) Cons free [of b] by (cases b) (auto simp: lay_def)
  qed
qed

lemma loop_simps:
  "find_loop h None sz = Some None"
  "find_loop h (Some a) sz = do { x \<leftarrow> h a; if s_isFree x \<and> sz \<le> s_size x then Some (Some a)
     else find_loop h (s_next x) sz }"
  by (subst find_loop.simps, simp, subst find_loop.simps, simp)

lemma location_simps:
  "find_location_loop h None p = Some None"
  "find_location_loop h (Some a) p = (if a + slot_bytes = p then Some (Some a)
     else do { x \<leftarrow> h a; find_location_loop h (s_next x) p })"
  by (subst find_location_loop.simps, simp, subst find_location_loop.simps, simp)

lemma forward_simps:
  "merge_forward s a None l = Some (s, l)"
  "merge_forward s a (Some b) l = do { x \<leftarrow> mm_slots s b;
     if s_isFree x then do { s' \<leftarrow> grow_slot s a (s_size x); merge_forward s' a (s_next x) b }
     else Some (s, l) }"
  by (subst merge_forward.simps, simp, subst merge_forward.simps, simp)

lemma backward_simps:
  "mm_head s = Some a \<Longrightarrow> merge_backward s t (Some a) = Some (s, t)"
  by (subst merge_backward.simps) simp


lemma malloc_mm0:
  "\<exists>s. mm_malloc mm0 4 = Some (Some 4160, s) \<and> mm_isInit s \<and> mm_head s = Some 4096
     \<and> mm_slots s 4096 = Some \<lparr>s_prev = None, s_next = Some 4128, s_isFree = False, s_size = 0\<rparr>
     \<and> mm_slots s 4128 = Some \<lparr>s_prev = Some 4096, s_next = None, s_isFree = False, s_size = 4\<rparr>
     \<and> mm_brk s = 4164"
  by (simp add: mm_malloc_def mm0_def init_malloc_def sbrk_def put_slot_def slot_bytes_def
       loop_simps find_list_elem_def malloc_at_tail_def upd_slot_def memset0_def wrap64_def Let_def)

lemma free_4160:
  assumes "mm_isInit s" "mm_head s = Some 4096" "mm_brk s = 4164"
     "mm_slots s 4096 = Some \<lparr>s_prev = None, s_next = Some 4128, s_isFree = False, s_size = 0\<rparr>"
     "mm_slots s 4128 = Some \<lparr>s_prev = Some 4096, s_next = None, s_isFree = False, s_size = 4\<rparr>"
  shows "\<exists>s'. mm_free s (Some 4160) = Some s' \<and> mm_isInit s'"
  using assms 
  by (simp add: mm_free_def slot_bytes_def location_simps forward_simps backward_simps upd_slot_def memset0_def wrap64_def Let_def
       find_list_elem_data_location_def merge_free_space_def)

lemma all_freed_is_one_slot_witness:
  "\<exists>s' a x. heap_run [Malloc 4, Free 0] (mm0, []) = Some (s', [])
     \<and> mm_head s' = Some a \<and> mm_slots s' a = Some x
     \<and> (mm_brk s' = a + slot_bytes \<and> s_next x = None \<or> s_next x = Some (a + slot_bytes))"
proof -
  from malloc_mm0 free_4160 obtain s s' where
    s: "mm_malloc mm0 4 = Some (Some 4160, s)" "mm_free s (Some 4160) = Some s'" "mm_isInit s'"
    by metis
  then have "heap_run [Malloc 4, Free 0] (mm0, []) = Some (s', [])" by simp
  with all_freed_is_one_slot [OF fresh_mm0 _ this s(3)] show ?thesis by auto
qed

text \<open>C24: a request near \<open>2 ^ 64\<close> is not refused. When the last slot is in use,
  \<open>sizeof(slot) + size\<close> wraps around, \<open>sbrk\<close> grants 31 bytes, and the header is written past
  the break: no defined result, where \<open>malloc\<close> would return NULL.\<close>

theorem huge_request_is_not_refused:
  assumes ok: "mm_ok s a0 bs" and used: "bs = [] \<or> \<not> snd (last bs)"
    and room: "mm_brk s + 31 \<le> mm_limit s"
  shows "mm_malloc s (2 ^ 64 - 1) = None"
proof -
  have l: "lay s a0 ((0, False) # bs)" using ok by (simp add: mm_ok_def)
  have "fst b < 2 ^ 63" if "b \<in> set ((0, False) # bs)" for b
  proof -
    from split_list [OF that] obtain xs ys where "(0, False) # bs = xs @ b # ys" by blast
    then show ?thesis using lay_at(2) [of s a0 xs "fst b" "snd b" ys] l by simp
  qed
  then have find: "find_list_elem s (2 ^ 64 - 1) = Some None"
    using find_list_elem_spec [OF l, of "2 ^ 64 - 1"] by fastforce
  obtain xs k where L: "(0, False) # bs = xs @ [(k, False)]"
    using used by (cases bs rule: rev_cases) (auto simp: append_eq_Cons_conv)
  then have l': "lay s a0 (xs @ [(k, False)])" using l by simp
  have "sbrk s 31 = Some (mm_brk s, s\<lparr>mm_brk := mm_brk s + 31\<rparr>)"
    using sbrk_grow [OF l, of 31] room by simp
  then have "malloc_at_tail s (2 ^ 64 - 1) = None"
    using l' lay_at(1) [OF l']
    by (simp add: malloc_at_tail_def lay_def wrap64_def slot_bytes_def memset0_def put_slot_def)
  then show ?thesis using l find by (simp add: mm_malloc_def lay_def)
qed

lemma huge_request_is_not_refused_witness:
  "\<exists>s. init_malloc mm0 = Some s \<and> mm_malloc s (2 ^ 64 - 1) = None"
proof -
  from init_malloc_spec [OF fresh_mm0] obtain s where
    s: "init_malloc mm0 = Some s" "mm_ok s (mm_brk mm0) []" by blast
  have "mm_brk s + 31 \<le> mm_limit s"
    using s(1) by (auto simp: init_malloc_def mm0_def sbrk_def put_slot_def slot_bytes_def Let_def)
  with huge_request_is_not_refused [OF s(2)] s(1) show ?thesis by blast
qed


text \<open>NULL is only returned when the system has no room for the block and its header, and
  then nothing has changed.\<close>

lemma malloc_null_means_full:
  assumes ok: "mm_ok s a0 bs" and sz: "0 < sz" "sz < 2 ^ 62" and null: "mm_malloc s sz = Some (None, s')"
  shows "mm_limit s < mm_brk s + slot_bytes + sz \<and> s' = s"
proof
  have l: "lay s a0 ((0, False) # bs)" using ok by (simp add: mm_ok_def)
  from find_list_elem_spec [OF l, of sz] show "mm_limit s < mm_brk s + slot_bytes + sz"
  proof
    assume *: "find_list_elem s sz = Some None \<and> (\<forall>b \<in> set ((0, False) # bs). snd b \<longrightarrow> fst b < sz)"
    obtain xs k f where L: "(0, False) # bs = xs @ [(k, f)]"
      by (cases "(0, False) # bs" rule: rev_cases) auto
    have l': "lay s a0 (xs @ [(k, f)])" using l L by simp
    have "(k, f) \<in> set ((0, False) # bs)" unfolding L by simp
    then have k: "f \<longrightarrow> k < sz" using * by force
    have "malloc_at_tail s sz = Some (None, s')" using null l * sz by (simp add: mm_malloc_def lay_def)
    moreover have "sub64 sz k = sz - k" if f using k that sz by (simp add: sub64_le)
    moreover have "wrap64 (slot_bytes + sz) = slot_bytes + sz" using sz by (simp add: wrap64_def slot_bytes_def)
    moreover have "mm_tail s = Some (a0 + extent xs)" using l' by (simp add: lay_def)
    ultimately show ?thesis
      using sbrk_grow [OF l, of "sz - k"] sbrk_grow [OF l, of "slot_bytes + sz"] lay_at(1) [OF l'] sz
      by (cases f) (auto simp: malloc_at_tail_def slot_bytes_def split: if_splits bind_splits)
  next
    assume "\<exists>xs n ys. (0, False) # bs = xs @ (n, True) # ys \<and> sz \<le> n
      \<and> find_list_elem s sz = Some (Some (a0 + extent xs))"
    then show ?thesis using null l sz
      by (auto simp: mm_malloc_def lay_def split: bind_splits)
  qed
  from mm_malloc_spec [OF ok sz] null show "s' = s" by auto
qed

end
