(* ===== verification/HeapTest.thy ===== *)
theory HeapTest
  imports HeapAlloc
begin

text \<open>
  What can be seen of the allocator of hw3: \<open>debug_print_list\<close> of hw3/mm_alloc.c walks over the list of
  slots and prints each, and the program of hw3/mm_test.c stores numbers into a block, lets it grow
  and prints it. A pointer or number that is printed is the value itself.
\<close>

subsection \<open>Printing the list\<close>

text \<open>The loop: one line for each slot, with its links, flag and size.\<close>

partial_function (option) debug_loop :: "(nat \<rightharpoonup> slot) \<Rightarrow> nat option \<Rightarrow> slot list option" where
  "debug_loop h iter =
     (case iter of
        None \<Rightarrow> Some []
      | Some a \<Rightarrow> do { x \<leftarrow> h a; lines \<leftarrow> debug_loop h (s_next x); Some (x # lines) })"

definition debug_print_list :: "mm \<Rightarrow> slot list option" where
  "debug_print_list s = debug_loop (mm_slots s) (mm_head s)"

lemma debug_loop_tiles:
  "tiles h p a bs None \<Longrightarrow> bs \<noteq> [] \<Longrightarrow>
     \<exists>lines. debug_loop h (Some a) = Some lines \<and> map (\<lambda>x. (s_size x, s_isFree x)) lines = bs"
proof (induction bs arbitrary: p a)
  case (Cons b bs)
  obtain n f where b: "b = (n, f)" by (cases b)
  show ?case
  proof (cases "bs = []")
    case True
    then show ?thesis using Cons.prems b by (subst debug_loop.simps) (simp add: debug_loop.simps [of h None])
  next
    case False
    with Cons.IH [of "Some a" "a + slot_bytes + n"] Cons.prems b obtain lines where
      "debug_loop h (Some (a + slot_bytes + n)) = Some lines" "map (\<lambda>x. (s_size x, s_isFree x)) lines = bs" by auto
    then show ?thesis using Cons.prems b False by (subst debug_loop.simps) simp
  qed
qed simp

lemma debug_print_blocks:
  assumes "mm_ok s a0 bs"
  shows "\<exists>lines. debug_print_list s = Some lines \<and> map (\<lambda>x. (s_size x, s_isFree x)) lines = (0, False) # bs"
proof -
  have "tiles (mm_slots s) None a0 ((0, False) # bs) None" "mm_head s = Some a0"
    using assms by (simp_all add: mm_ok_def lay_def)
  from debug_loop_tiles [OF this(1)] this(2) show ?thesis by (simp add: debug_print_list_def)
qed

text \<open>The lines add up to the memory between the first slot and the break.\<close>

lemma debug_print_total:
  assumes "mm_ok s a0 bs"
  shows "\<exists>lines. debug_print_list s = Some lines
     \<and> mm_head s = Some a0 \<and> a0 + sum_list (map (\<lambda>x. slot_bytes + s_size x) lines) = mm_brk s"
proof -
  obtain lines where l: "debug_print_list s = Some lines" "map (\<lambda>x. (s_size x, s_isFree x)) lines = (0, False) # bs"
    using debug_print_blocks [OF assms] by (elim exE conjE) (rule that)
  have "sum_list (map (\<lambda>x. slot_bytes + s_size x) lines)
      = sum_list (map (\<lambda>b. slot_bytes + fst b) (map (\<lambda>x. (s_size x, s_isFree x)) lines))"
    by (simp only: map_map comp_def fst_conv)
  also have "\<dots> = extent ((0, False) # bs)" unfolding l(2) extent_def ..
  finally have "sum_list (map (\<lambda>x. slot_bytes + s_size x) lines) = extent ((0, False) # bs)" .
  moreover have "mm_head s = Some a0" "mm_brk s = a0 + extent ((0, False) # bs)"
    using assms by (simp_all add: mm_ok_def lay_def del: extent_simps)
  ultimately show ?thesis using l(1) by (intro exI [of _ lines]) (simp only: simp_thms)
qed

subsection \<open>The test program\<close>

definition store_byte :: "mm \<Rightarrow> nat \<Rightarrow> char \<Rightarrow> mm option" where
  "store_byte s a c =
     (if mm_data s a = None then None else Some (s\<lparr>mm_data := (mm_data s)(a \<mapsto> c)\<rparr>))"

fun store_bytes :: "mm \<Rightarrow> nat \<Rightarrow> string \<Rightarrow> mm option" where
  "store_bytes s a [] = Some s"
| "store_bytes s a (c # cs) = do { s \<leftarrow> store_byte s a c; store_bytes s (a + 1) cs }"

fun load_bytes :: "mm \<Rightarrow> nat \<Rightarrow> nat \<Rightarrow> string option" where
  "load_bytes s a 0 = Some []"
| "load_bytes s a (Suc n) = do { c \<leftarrow> mm_data s a; cs \<leftarrow> load_bytes s (a + 1) n; Some (c # cs) }"

text \<open>\<open>data[i] = i\<close> for the first \<open>n\<close> indices, and \<open>print_array\<close>.\<close>

primrec fill_array :: "mm \<Rightarrow> nat \<Rightarrow> nat \<Rightarrow> mm option" where
  "fill_array s data 0 = Some s"
| "fill_array s data (Suc n) =
     do { s \<leftarrow> fill_array s data n; store_bytes s (data + 4 * n) (le32 (word_of_nat n)) }"

primrec print_array :: "mm \<Rightarrow> nat \<Rightarrow> nat \<Rightarrow> int list option" where
  "print_array s array 0 = Some []"
| "print_array s array (Suc n) =
     do { out \<leftarrow> print_array s array n;
          bs \<leftarrow> load_bytes s (array + 4 * n) 4;
          v \<leftarrow> rd32 bs;
          Some (out @ [sint v]) }"

record test_output =
  first_array :: "int list"
  first_list :: "slot list"
  second_array :: "int list"
  second_list :: "slot list"

definition mm_test_main :: "mm \<Rightarrow> (test_output \<times> mm) option" where
  "mm_test_main s =
     do { (data, s) \<leftarrow> mm_malloc s (4 * 50);
          p \<leftarrow> data;
          s \<leftarrow> fill_array s p 50;
          a1 \<leftarrow> print_array s p 50;
          l1 \<leftarrow> debug_print_list s;
          (data, s) \<leftarrow> mm_realloc s data (4 * 50 * 2);
          q \<leftarrow> data;
          a2 \<leftarrow> print_array s q (50 * 2);
          l2 \<leftarrow> debug_print_list s;
          Some (\<lparr>first_array = a1, first_list = l1, second_array = a2, second_list = l2\<rparr>, s) }"

subsection \<open>Numbers in a block\<close>

lemma store_bytes_spec:
  assumes "\<forall>i < length cs. mm_data s (a + i) \<noteq> None"
  shows "store_bytes s a cs = Some (s\<lparr>mm_data :=
     (\<lambda>i. if a \<le> i \<and> i < a + length cs then Some (cs ! (i - a)) else mm_data s i)\<rparr>)"
  using assms
proof (induction cs arbitrary: s a)
  case (Cons c cs)
  let ?s = "s\<lparr>mm_data := (mm_data s)(a \<mapsto> c)\<rparr>"
  have "mm_data s a \<noteq> None" using Cons.prems by (metis add.right_neutral length_Cons zero_less_Suc)
  then have "store_byte s a c = Some ?s" by (simp add: store_byte_def)
  moreover have "\<forall>i < length cs. mm_data ?s (a + 1 + i) \<noteq> None"
  proof (intro allI impI)
    fix i assume "i < length cs"
    then have "mm_data s (a + Suc i) \<noteq> None" using Cons.prems by (metis Suc_less_eq length_Cons)
    then show "mm_data ?s (a + 1 + i) \<noteq> None" by simp
  qed
  from Cons.IH [OF this] have "store_bytes ?s (a + 1) cs = Some (?s\<lparr>mm_data :=
     (\<lambda>i. if a + 1 \<le> i \<and> i < a + 1 + length cs then Some (cs ! (i - (a + 1))) else mm_data ?s i)\<rparr>)" .
  moreover have "(\<lambda>i. if a + 1 \<le> i \<and> i < a + 1 + length cs then Some (cs ! (i - (a + 1))) else mm_data ?s i)
      = (\<lambda>i. if a \<le> i \<and> i < a + length (c # cs) then Some ((c # cs) ! (i - a)) else mm_data s i)"
    by (rule ext) (auto simp: nth_Cons')
  ultimately show ?case by simp
next
  case Nil
  have "(\<lambda>i. if a \<le> i \<and> i < a + length [] then Some ([] ! (i - a)) else mm_data s i) = mm_data s"
    by (intro ext if_not_P) simp
  then show ?case by simp
qed

lemma load_bytes_spec:
  "\<forall>i < length cs. mm_data s (a + i) = Some (cs ! i) \<Longrightarrow> load_bytes s a (length cs) = Some cs"
proof (induction cs arbitrary: a)
  case (Cons c cs)
  have "mm_data s (a + Suc i) = Some (cs ! i)" if "i < length cs" for i using Cons.prems that by force
  then have "load_bytes s (a + 1) (length cs) = Some cs" using Cons.IH [of "a + 1"] by simp
  moreover have "mm_data s a = Some c" using Cons.prems by force
  ultimately show ?case by simp
qed simp

text \<open>The bytes of an array of numbers.\<close>

definition array_byte :: "(nat \<Rightarrow> nat) \<Rightarrow> nat \<Rightarrow> char" where
  "array_byte f i = le32 (word_of_nat (f (i div 4))) ! (i mod 4)"

lemma fill_array_spec:
  assumes "\<forall>i < 4 * n. mm_data s (p + i) \<noteq> None"
  shows "fill_array s p n = Some (s\<lparr>mm_data :=
     (\<lambda>i. if p \<le> i \<and> i < p + 4 * n then Some (array_byte (\<lambda>j. j) (i - p)) else mm_data s i)\<rparr>)"
  using assms
proof (induction n)
  case (Suc n)
  let ?s = "s\<lparr>mm_data := (\<lambda>i. if p \<le> i \<and> i < p + 4 * n then Some (array_byte (\<lambda>j. j) (i - p)) else mm_data s i)\<rparr>"
  let ?b = "le32 (word_of_nat n)"
  have "\<forall>i < 4 * n. mm_data s (p + i) \<noteq> None" using Suc.prems by simp
  from Suc.IH [OF this] have 1: "fill_array s p n = Some ?s" .
  have "\<forall>i < length ?b. mm_data ?s (p + 4 * n + i) \<noteq> None"
  proof (intro allI impI)
    fix i assume "i < length ?b"
    then have "mm_data s (p + (4 * n + i)) \<noteq> None" using Suc.prems by simp
    then show "mm_data ?s (p + 4 * n + i) \<noteq> None" by (simp add: add.assoc)
  qed
  from store_bytes_spec [OF this] have 2: "store_bytes ?s (p + 4 * n) ?b = Some (?s\<lparr>mm_data :=
     (\<lambda>i. if p + 4 * n \<le> i \<and> i < p + 4 * n + 4 then Some (?b ! (i - (p + 4 * n))) else mm_data ?s i)\<rparr>)"
    by simp
  have "?b ! (i - (p + 4 * n)) = array_byte (\<lambda>j. j) (i - p)" if "p + 4 * n \<le> i" "i < p + 4 * n + 4" for i
  proof -
    have "i - p = 4 * n + (i - (p + 4 * n))" "i - (p + 4 * n) < 4" using that by linarith+
    then have "(i - p) div 4 = n" "(i - p) mod 4 = i - (p + 4 * n)"
      using div_mult_self4 [of 4 n "i - (p + 4 * n)"] mod_mult_self4 [of 4 n "i - (p + 4 * n)"]
      by (simp_all only: div_less mod_less add_0_right simp_thms zero_neq_numeral not_False_eq_True)
    then show ?thesis by (simp add: array_byte_def)
  qed
  then have new: "\<And>i. p + 4 * n \<le> i \<Longrightarrow> i < p + 4 * n + 4 \<Longrightarrow> ?b ! (i - (p + 4 * n)) = array_byte (\<lambda>j. j) (i - p)" .
  have data: "(\<lambda>i. if p + 4 * n \<le> i \<and> i < p + 4 * n + 4 then Some (?b ! (i - (p + 4 * n))) else mm_data ?s i)
      = (\<lambda>i. if p \<le> i \<and> i < p + 4 * Suc n then Some (array_byte (\<lambda>j. j) (i - p)) else mm_data s i)"
  proof
    fix i
    consider "p + 4 * n \<le> i \<and> i < p + 4 * n + 4" | "p \<le> i \<and> i < p + 4 * n" | "\<not> (p \<le> i \<and> i < p + 4 * n + 4)" by linarith
    then show "(if p + 4 * n \<le> i \<and> i < p + 4 * n + 4 then Some (?b ! (i - (p + 4 * n))) else mm_data ?s i)
        = (if p \<le> i \<and> i < p + 4 * Suc n then Some (array_byte (\<lambda>j. j) (i - p)) else mm_data s i)"
      by cases (use new [of i] in auto)
  qed
  have "fill_array s p (Suc n) = Some (?s\<lparr>mm_data :=
      (\<lambda>i. if p \<le> i \<and> i < p + 4 * Suc n then Some (array_byte (\<lambda>j. j) (i - p)) else mm_data s i)\<rparr>)"
    unfolding fill_array.simps(2) 1 Option.bind.simps 2 data ..
  then show ?case by simp
next
  case 0
  have "(\<lambda>i. if p \<le> i \<and> i < p + 4 * 0 then Some (array_byte (\<lambda>j. j) (i - p)) else mm_data s i) = mm_data s"
    by (intro ext if_not_P) simp
  then show ?case by simp
qed

lemma print_array_spec:
  assumes "\<forall>i < 4 * n. mm_data s (p + i) = Some (array_byte f i)" "\<forall>j < n. f j < 2 ^ 31"
  shows "print_array s p n = Some (map (\<lambda>j. int (f j)) [0..<n])"
  using assms
proof (induction n)
  case (Suc n)
  let ?b = "le32 (word_of_nat (f n))"
  have "mm_data s (p + 4 * n + i) = Some (?b ! i)" if "i < 4" for i
  proof -
    have "(4 * n + i) div 4 = n" "(4 * n + i) mod 4 = i" using that by presburger+
    moreover have "mm_data s (p + (4 * n + i)) = Some (array_byte f (4 * n + i))" using Suc.prems(1) that by simp
    ultimately show ?thesis by (simp add: array_byte_def add.assoc)
  qed
  then have "load_bytes s (p + 4 * n) 4 = Some ?b" using load_bytes_spec [of ?b s "p + 4 * n"] by simp
  moreover have "rd32 ?b = Some (word_of_nat (f n))" using rd32_le32 [of _ "[]"] by simp
  moreover have "sint (word_of_nat (f n) :: 32 word) = int (f n)" using Suc.prems(2) by (simp add: sint_of_small_nat)
  ultimately show ?case using Suc by simp
qed simp

lemma array_byte_0: "f (i div 4) = 0 \<Longrightarrow> array_byte f i = NUL"
proof -
  have "le32 0 = [NUL, NUL, NUL, NUL]" by (simp add: le32_def byte_of_def NUL_def char_of_def)
  moreover have "i mod 4 \<in> {0, 1, 2, 3}" by auto
  ultimately show "f (i div 4) = 0 \<Longrightarrow> array_byte f i = NUL" by (auto simp: array_byte_def)
qed

subsection \<open>The run of the test\<close>

lemma malloc_first_brk:
  assumes "fresh s" "0 < sz" "sz < 2 ^ 62" "mm_brk s + 2 * slot_bytes + sz \<le> mm_limit s"
  shows "\<exists>p s1. mm_malloc s sz = Some (Some p, s1)
     \<and> mm_brk s1 = mm_brk s + 2 * slot_bytes + sz \<and> mm_limit s1 = mm_limit s"
proof -
  have w: "wrap64 (32 + sz) = 32 + sz" using assms(3) by (simp add: wrap64_def)
  show ?thesis
    using assms
    by (simp add: fresh_def mm_malloc_def init_malloc_def sbrk_def put_slot_def slot_bytes_def
       loop_simps find_list_elem_def malloc_at_tail_def upd_slot_def memset0_def w Let_def nat_add_distrib)
qed

lemma malloc_first:
  assumes "fresh s" "0 < sz" "sz < 2 ^ 62" "mm_brk s + 2 * slot_bytes + sz \<le> mm_limit s"
  shows "\<exists>p n s0 s1 bs. mm_malloc s sz = Some (Some p, s1) \<and> allocates s0 (mm_brk s) [] sz p s1 bs n
     \<and> mm_brk s1 = mm_brk s + 2 * slot_bytes + sz \<and> mm_limit s1 = mm_limit s"
proof -
  obtain s0 where s0: "init_malloc s = Some s0" "mm_ok s0 (mm_brk s) []" "mm_isInit s0"
    using init_malloc_spec [OF assms(1)] by blast
  obtain p s1 where 1: "mm_malloc s sz = Some (Some p, s1)" "mm_brk s1 = mm_brk s + 2 * slot_bytes + sz"
    "mm_limit s1 = mm_limit s" using malloc_first_brk [OF assms] by blast
  have "mm_malloc s sz = mm_malloc s0 sz" by (rule mm_malloc_init [OF assms(1) s0(1,3)])
  with mm_malloc_spec [OF s0(2) assms(2,3)] 1(1) obtain n bs where "allocates s0 (mm_brk s) [] sz p s1 bs n" by auto
  with 1 show ?thesis by blast
qed

text \<open>A store of data bytes leaves the list of slots as it is.\<close>

lemma mm_ok_data_update:
  assumes "mm_ok s a0 bs" "\<And>i. mm_data s i \<noteq> None \<Longrightarrow> d i \<noteq> None"
  shows "mm_ok (s\<lparr>mm_data := d\<rparr>) a0 bs"
  using assms by (auto simp: mm_ok_def lay_def)

text \<open>The block before and after it has grown.\<close>

lemma filled_block:
  assumes m: "allocates s0 a0 [] 200 p s1 bs n"
  shows "\<exists>s2. fill_array s1 p 50 = Some s2 \<and> mm_ok s2 a0 bs \<and> (p, n) \<in> blocks a0 bs
     \<and> print_array s2 p 50 = Some (map int [0..<50]) \<and> mm_brk s2 = mm_brk s1 \<and> mm_limit s2 = mm_limit s1
     \<and> (\<forall>i < n. mm_data s2 (p + i) = Some (array_byte (\<lambda>j. if j < 50 then j else 0) i))"
proof -
  have n: "200 \<le> n" and ok: "mm_ok s1 a0 bs" and b: "(p, n) \<in> blocks a0 bs"
    and zero: "\<forall>i. p \<le> i \<and> i < p + n \<longrightarrow> mm_data s1 i = Some NUL"
    using m by (auto simp: allocates_def)
  let ?d = "\<lambda>i. if p \<le> i \<and> i < p + 4 * 50 then Some (array_byte (\<lambda>j. j) (i - p)) else mm_data s1 i"
  let ?s = "s1\<lparr>mm_data := ?d\<rparr>"
  have "\<forall>i < 4 * 50. mm_data s1 (p + i) \<noteq> None" using zero n by simp
  from fill_array_spec [OF this] have fill: "fill_array s1 p 50 = Some ?s" .
  have ok2: "mm_ok ?s a0 bs" by (rule mm_ok_data_update [OF ok]) simp
  have "\<forall>i < 4 * 50. mm_data ?s (p + i) = Some (array_byte (\<lambda>j. j) i)" by simp
  from print_array_spec [OF this] have print: "print_array ?s p 50 = Some (map int [0..<50])" by simp
  have "mm_data ?s (p + i) = Some (array_byte (\<lambda>j. if j < 50 then j else 0) i)" if i: "i < n" for i
  proof (cases "i < 200")
    case True
    then have "i div 4 < 50" by simp
    then show ?thesis using True by (simp add: array_byte_def)
  next
    case False
    then have "\<not> i div 4 < 50" by simp
    then have "array_byte (\<lambda>j. if j < 50 then j else 0) i = NUL" by (intro array_byte_0) simp
    then show ?thesis using False zero i by simp
  qed
  then show ?thesis using fill ok2 b print by (intro exI [of _ ?s]) simp
qed

lemma grown_block:
  assumes ok: "mm_ok s a0 bs" and b: "(p, n) \<in> blocks a0 bs" and room: "mm_brk s + slot_bytes + 400 \<le> mm_limit s"
    and data: "\<forall>i < n. mm_data s (p + i) = Some (array_byte f i)" and f: "\<forall>j. f j < 2 ^ 31" "\<forall>j \<ge> 50. f j = 0"
    and n: "200 \<le> n"
  shows "\<exists>q s' bs'. mm_realloc s (Some p) 400 = Some (Some q, s') \<and> mm_ok s' a0 bs'
     \<and> print_array s' q 100 = Some (map (\<lambda>j. int (f j)) [0..<100])"
proof -
  have "(0 :: nat) < 400" "(400 :: nat) < 2 ^ 62" by simp_all
  from mm_realloc_spec [OF ok b this] show ?thesis
  proof (elim disjE)
    assume "mm_realloc s (Some p) 400 = Some (None, s)"
    then have "\<exists>s'. mm_malloc s 400 = Some (None, s')"
      by (auto simp: mm_realloc_def split: bind_splits option.splits)
    then have "mm_limit s < mm_brk s + slot_bytes + 400"
      using malloc_null_means_full [OF ok, of 400] by auto
    then show ?thesis using room by simp
  next
    assume "\<exists>q m s' bs'. mm_realloc s (Some p) 400 = Some (Some q, s') \<and> mm_ok s' a0 bs' \<and> 400 \<le> m
       \<and> blocks a0 bs' = insert (q, m) (blocks a0 bs - {(p, n)}) \<and> (q, m) \<notin> blocks a0 bs
       \<and> (\<forall>i < min n 400. mm_data s' (q + i) = mm_data s (p + i))
       \<and> (\<forall>i. min n 400 \<le> i \<and> i < m \<longrightarrow> mm_data s' (q + i) = Some NUL)
       \<and> same_data s s' (blocks a0 bs - {(p, n)})"
    then obtain q m s' bs' where r: "mm_realloc s (Some p) 400 = Some (Some q, s')" "mm_ok s' a0 bs'" "400 \<le> m"
      "\<forall>i < min n 400. mm_data s' (q + i) = mm_data s (p + i)"
      "\<forall>i. min n 400 \<le> i \<and> i < m \<longrightarrow> mm_data s' (q + i) = Some NUL"
      by (elim exE conjE) (rule that)
    have "mm_data s' (q + i) = Some (array_byte f i)" if i: "i < 4 * 100" for i
    proof (cases "i < min n 400")
      case True
      then show ?thesis using r(4) data by simp
    next
      case False
      then have "50 \<le> i div 4" using n i by auto
      then have "array_byte f i = NUL" using f(2) by (intro array_byte_0) simp
      then show ?thesis using r(3,5) False i by simp
    qed
    then have "print_array s' q 100 = Some (map (\<lambda>j. int (f j)) [0..<100])"
      using f(1) by (intro print_array_spec) simp_all
    then show ?thesis using r(1,2) by blast
  qed
qed

subsection \<open>Properties\<close>

text \<open>C23: the test program shows what the allocator promises. On fresh memory with room for its two
  blocks it stores 0 to 49 and prints them, and prints them again followed by fifty zeros when the
  block has grown; the lines of \<open>debug_print_list\<close> add up to all the memory behind the old break.\<close>

theorem test_prints_its_numbers:
  assumes "fresh s" and "mm_brk s + 3 * slot_bytes + 600 \<le> mm_limit s"
  shows "\<exists>out s'. mm_test_main s = Some (out, s')
     \<and> first_array out = map int [0..<50] \<and> second_array out = map int [0..<50] @ replicate 50 0
     \<and> sum_list (map (\<lambda>x. slot_bytes + s_size x) (first_list out)) = 2 * slot_bytes + 200
     \<and> mm_brk s + sum_list (map (\<lambda>x. slot_bytes + s_size x) (second_list out)) = mm_brk s'"
proof -
  have room: "mm_brk s + 2 * slot_bytes + 200 \<le> mm_limit s" using assms(2) by (simp add: slot_bytes_def)
  obtain p n s0 s1 bs where 1: "mm_malloc s 200 = Some (Some p, s1)" "allocates s0 (mm_brk s) [] 200 p s1 bs n"
    "mm_brk s1 = mm_brk s + 2 * slot_bytes + 200" "mm_limit s1 = mm_limit s"
    using malloc_first [OF assms(1) _ _ room] by auto
  obtain s2 where 2: "fill_array s1 p 50 = Some s2" "mm_ok s2 (mm_brk s) bs" "(p, n) \<in> blocks (mm_brk s) bs"
    "print_array s2 p 50 = Some (map int [0..<50])" "mm_brk s2 = mm_brk s1" "mm_limit s2 = mm_limit s1"
    "\<forall>i < n. mm_data s2 (p + i) = Some (array_byte (\<lambda>j. if j < 50 then j else 0) i)"
    using filled_block [OF 1(2)] by (elim exE conjE) (rule that)
  obtain l1 where l1: "debug_print_list s2 = Some l1"
    "mm_brk s + sum_list (map (\<lambda>x. slot_bytes + s_size x) l1) = mm_brk s2"
    using debug_print_total [OF 2(2)] by (elim exE conjE) (rule that)
  have room2: "mm_brk s2 + slot_bytes + 400 \<le> mm_limit s2" using assms(2) 1(3,4) 2(5,6) by simp
  have n: "200 \<le> n" using 1(2) by (simp add: allocates_def)
  have f: "\<forall>j. (if j < 50 then j else 0 :: nat) < 2 ^ 31" "\<forall>j \<ge> 50. (if j < 50 then j else 0 :: nat) = 0" by auto
  obtain q s3 bs3 where 3: "mm_realloc s2 (Some p) 400 = Some (Some q, s3)" "mm_ok s3 (mm_brk s) bs3"
    "print_array s3 q 100 = Some (map (\<lambda>j. int (if j < 50 then j else 0)) [0..<100])"
    using grown_block [OF 2(2,3) room2 2(7) f n] by (elim exE conjE) (rule that)
  obtain l2 where l2: "debug_print_list s3 = Some l2"
    "mm_brk s + sum_list (map (\<lambda>x. slot_bytes + s_size x) l2) = mm_brk s3"
    using debug_print_total [OF 3(2)] by (elim exE conjE) (rule that)
  have "map (\<lambda>j. int (if j < 50 then j else 0)) [0..<100] = map int [0..<50] @ replicate 50 0"
    by code_simp
  with 3(3) have "print_array s3 q 100 = Some (map int [0..<50] @ replicate 50 0)" by (simp only:)
  then have "mm_test_main s = Some (\<lparr>first_array = map int [0..<50], first_list = l1,
      second_array = map int [0..<50] @ replicate 50 0, second_list = l2\<rparr>, s3)"
    using 1(1) 2(1,4) l1(1) 3(1) l2(1) by (simp add: mm_test_main_def del: upt.simps upt_rec_numeral)
  then show ?thesis using l1(2) l2(2) 1(3) 2(5) by simp
qed

lemma test_prints_its_numbers_witness:
  "\<exists>out s'. mm_test_main mm0 = Some (out, s') \<and> second_array out = map int [0..<50] @ replicate 50 0"
proof -
  have "mm_brk mm0 + 3 * slot_bytes + 600 \<le> mm_limit mm0" by (simp add: mm0_def slot_bytes_def)
  from test_prints_its_numbers [OF fresh_mm0 this] show ?thesis by (elim exE conjE) (intro exI conjI)
qed

end
