(* ===== verification/Hw2HTTP.thy ===== *)
theory Hw2HTTP
  imports CText
begin

text \<open>
  The HTTP library of hw2 (hw2/libhttp.c). A socket being written is the bytes that went out
  so far and the results of the next calls of \<open>write\<close>: each takes at most so many bytes, or
  fails when negative; once they are used up \<open>write\<close> takes all it is given. \<open>dprintf\<close> of the
  C library writes all its text or stops at the first error, like \<open>http_send_data\<close>.

  Names that hw4's library has too carry the suffix \<open>2\<close>. The locale \<open>byte_sink\<close> is what the
  server relies on for its answers; a healthy socket provides it.
\<close>

definition LIBHTTP_REQUEST_MAX_SIZE :: nat where "LIBHTTP_REQUEST_MAX_SIZE = 8192"

abbreviation LF2 :: char where "LF2 \<equiv> CHR 0x0A"
abbreviation CRLF :: string where "CRLF \<equiv> [CHR 0x0D, CHR 0x0A]"

record http_request2 =
  req2_method :: string
  req2_path :: string

subsection \<open>The request\<close>

definition is_upper :: "char \<Rightarrow> bool" where
  "is_upper c \<longleftrightarrow> 65 \<le> (of_char c :: nat) \<and> (of_char c :: nat) \<le> 90"

text \<open>
  The result of \<open>read\<close> is the bytes it returned; \<open>None\<close> is \<open>-1\<close>, and then the terminator is
  written in front of the buffer. NULL is \<open>Some None\<close>.
\<close>

definition read_string2 :: "string \<Rightarrow> string" where
  "read_string2 bytes = takeWhile (\<lambda>c. c \<noteq> NUL) (take LIBHTTP_REQUEST_MAX_SIZE bytes)"

definition http_request_parse2 :: "string option \<Rightarrow> http_request2 option option" where
  "http_request_parse2 got =
     (case got of
        None \<Rightarrow> None
      | Some bytes \<Rightarrow>
          let buf = read_string2 bytes;
              method = takeWhile is_upper buf
          in if method = [] then Some None
             else (case drop (length method) buf of
                 [] \<Rightarrow> Some None
               | c # r \<Rightarrow>
                   if c \<noteq> CHR '' '' then Some None
                   else let path = takeWhile (\<lambda>c. c \<noteq> CHR '' '' \<and> c \<noteq> LF2) r in
                     if path = [] then Some None
                     else if dropWhile (\<lambda>c. c \<noteq> LF2) (drop (length path) r) = [] then Some None
                     else Some (Some \<lparr>req2_method = method, req2_path = path\<rparr>)))"

subsection \<open>The response\<close>

definition http_get_response_message2 :: "int \<Rightarrow> string" where
  "http_get_response_message2 status_code =
     (if status_code = 100 then ''Continue''
      else if status_code = 200 then ''OK''
      else if status_code = 301 then ''Moved Permanently''
      else if status_code = 302 then ''Found''
      else if status_code = 304 then ''Not Modified''
      else if status_code = 400 then ''Bad Request''
      else if status_code = 401 then ''Unauthorized''
      else if status_code = 403 then ''Forbidden''
      else if status_code = 404 then ''Not Found''
      else if status_code = 405 then ''Method Not Allowed''
      else ''Internal Server Error'')"

record sock =
  so_sent :: string
  so_takes :: "int list"

text \<open>One \<open>write\<close>: its result and the socket.\<close>

definition sock_write :: "sock \<Rightarrow> string \<Rightarrow> int \<times> sock" where
  "sock_write so data =
     (case so_takes so of
        [] \<Rightarrow> (int (length data), so\<lparr>so_sent := so_sent so @ data\<rparr>)
      | t # ts \<Rightarrow>
          if t < 0 then (-1, so\<lparr>so_takes := ts\<rparr>)
          else (min t (int (length data)),
                so\<lparr>so_sent := so_sent so @ take (nat t) data, so_takes := ts\<rparr>))"

lemma sock_write_decreases:
  assumes "sock_write so data = (n, so')"
  shows "length (so_takes so') < length (so_takes so)
    \<or> so_takes so' = so_takes so \<and> drop (nat n) data = []"
  using assms by (cases "so_takes so") (auto simp: sock_write_def split: if_splits)

function http_send_data :: "sock \<Rightarrow> string \<Rightarrow> sock" where
  "http_send_data so data =
     (if data = [] then so
      else case sock_write so data of
        (bytes_sent, so') \<Rightarrow>
          if bytes_sent < 0 then so' else http_send_data so' (drop (nat bytes_sent) data))"
  by pat_completeness auto
termination
proof (relation "measures [\<lambda>(so, data). length (so_takes so), \<lambda>(so, data). length data]", goal_cases)
  case (2 so data n so')
  then have "sock_write so data = (n, so')" by simp
  from sock_write_decreases [OF this] show ?case using 2(1) by auto
qed simp

declare http_send_data.simps [simp del]

definition http_send_string :: "sock \<Rightarrow> string \<Rightarrow> sock" where
  "http_send_string so data = http_send_data so data"

definition dprintf :: "sock \<Rightarrow> string \<Rightarrow> sock" where
  "dprintf so text = http_send_data so text"

definition http_start_response2 :: "sock \<Rightarrow> int \<Rightarrow> sock" where
  "http_start_response2 so status_code =
     dprintf so (''HTTP/1.0 '' @ sdec status_code @ '' '' @ http_get_response_message2 status_code @ CRLF)"

definition http_send_header :: "sock \<Rightarrow> string \<Rightarrow> string \<Rightarrow> sock" where
  "http_send_header so key value = dprintf so (key @ '': '' @ value @ CRLF)"

definition http_end_headers2 :: "sock \<Rightarrow> sock" where
  "http_end_headers2 so = dprintf so CRLF"

text \<open>The string from the last place where \<open>c\<close> stands.\<close>

definition strrchr :: "string \<Rightarrow> char \<Rightarrow> string option" where
  "strrchr s c = (if c \<in> set s then Some (c # rev (takeWhile (\<lambda>x. x \<noteq> c) (rev s))) else None)"

definition http_get_mime_type :: "string \<Rightarrow> string" where
  "http_get_mime_type file_name =
     (case strrchr file_name CHR ''.'' of
        None \<Rightarrow> ''text/plain''
      | Some ext \<Rightarrow>
          if ext = ''.html'' \<or> ext = ''.htm'' then ''text/html''
          else if ext = ''.jpg'' \<or> ext = ''.jpeg'' then ''image/jpeg''
          else if ext = ''.png'' then ''image/png''
          else if ext = ''.css'' then ''text/css''
          else if ext = ''.js'' then ''application/javascript''
          else if ext = ''.pdf'' then ''application/pdf''
          else ''text/plain'')"

subsection \<open>What reaches the peer\<close>

locale byte_sink =
  fixes send :: "'s \<Rightarrow> string \<Rightarrow> 's"
    and sent :: "'s \<Rightarrow> string"
    and healthy :: "'s \<Rightarrow> bool"
  assumes sent_law: "healthy s \<Longrightarrow> sent (send s data) = sent s @ data"
    and healthy_law: "healthy s \<Longrightarrow> healthy (send s data)"
begin

lemma sent_pieces: "healthy s \<Longrightarrow> sent (foldl send s ds) = sent s @ concat ds"
  by (induction ds arbitrary: s) (simp_all add: sent_law healthy_law)

lemma healthy_pieces: "healthy s \<Longrightarrow> healthy (foldl send s ds)"
  by (induction ds arbitrary: s) (simp_all add: healthy_law)

end

definition so_healthy :: "sock \<Rightarrow> bool" where
  "so_healthy so \<longleftrightarrow> list_all (\<lambda>t. 0 \<le> t) (so_takes so)"

lemma sock_write_spec:
  assumes "so_healthy so" "sock_write so data = (n, so')"
  shows "0 \<le> n" "so_sent so' = so_sent so @ take (nat n) data" "so_healthy so'"
  using assms by (auto simp: sock_write_def so_healthy_def min_def split: list.splits if_splits)

lemma http_send_data_spec:
  "so_healthy so \<Longrightarrow> so_sent (http_send_data so data) = so_sent so @ data \<and> so_healthy (http_send_data so data)"
proof (induction so data rule: http_send_data.induct)
  case (1 so data)
  obtain n so' where w: "sock_write so data = (n, so')" by (cases "sock_write so data")
  note s = sock_write_spec [OF "1.prems" w]
  show ?case
  proof (cases "data = []")
    case False
    then show ?thesis using "1.IH" [OF False w [symmetric]] s w
      by (subst (1 2) http_send_data.simps) simp
  qed (use "1.prems" in \<open>simp add: http_send_data.simps\<close>)
qed

interpretation sink: byte_sink http_send_data so_sent so_healthy
  by unfold_locales (simp_all add: http_send_data_spec)

named_theorems send_defs \<open>the operations that send\<close>

lemmas [send_defs] = http_send_string_def dprintf_def http_start_response2_def http_send_header_def
  http_end_headers2_def

subsection \<open>The requests the parser accepts\<close>

lemma dropWhile_head: "dropWhile P xs = y # ys \<Longrightarrow> \<not> P y"
  by (induction xs) (auto split: if_splits)

lemma dropWhile_exists: "dropWhile (\<lambda>x. x \<noteq> c) xs = [] \<longleftrightarrow> c \<notin> set xs"
  by (auto simp: dropWhile_eq_Nil_conv)

lemma parse2_split:
  assumes "list_all is_upper m" "list_all (\<lambda>c. c \<noteq> CHR '' '' \<and> c \<noteq> LF2) p" "\<not> is_upper c"
    "d = CHR '' '' \<or> d = LF2" "read_string2 bytes = m @ c # p @ d # rest"
  shows "http_request_parse2 (Some bytes) = Some
     (if m = [] \<or> c \<noteq> CHR '' '' \<or> p = [] \<or> LF2 \<notin> set (d # rest) then None
      else Some \<lparr>req2_method = m, req2_path = p\<rparr>)"
proof -
  have m: "takeWhile is_upper (read_string2 bytes) = m"
    unfolding assms(5) by (rule takeWhile_stop [OF assms(1)]) (use assms(3) in simp)
  have p: "takeWhile (\<lambda>c. c \<noteq> CHR '' '' \<and> c \<noteq> LF2) (p @ d # rest) = p"
    by (rule takeWhile_stop [OF assms(2)]) (use assms(4) in auto)
  have r: "drop (length m) (read_string2 bytes) = c # p @ d # rest" "drop (length p) (p @ d # rest) = d # rest"
    unfolding assms(5) by simp_all
  show ?thesis unfolding http_request_parse2_def Let_def option.case m r list.case p dropWhile_exists
    by simp
qed

text \<open>The request line as the comments of the parser have it: a method \<open>[A-Z]*\<close>, a space, a path
  \<open>[^ \n]*\<close>, the rest \<open>.*\<close> of the line, and its end. Method and path may be empty there.\<close>

definition comment_grammar :: "string \<Rightarrow> string \<Rightarrow> string \<Rightarrow> bool" where
  "comment_grammar text method path \<longleftrightarrow>
     (\<exists>rest c. text = method @ CHR '' '' # path @ c # rest
        \<and> list_all is_upper method \<and> list_all (\<lambda>c. c \<noteq> CHR '' '' \<and> c \<noteq> LF2) path
        \<and> (c = LF2 \<or> c = CHR '' '' \<and> LF2 \<in> set rest))"

lemma grammar_accepted:
  "http_request_parse2 (Some bytes) = Some (Some req) \<longleftrightarrow>
     comment_grammar (read_string2 bytes) (req2_method req) (req2_path req)
     \<and> req2_method req \<noteq> [] \<and> req2_path req \<noteq> []"
  (is "?l \<longleftrightarrow> ?g")
proof
  assume l: ?l
  let ?buf = "read_string2 bytes"
  define m where "m = takeWhile is_upper ?buf"
  obtain r where r: "drop (length m) ?buf = CHR '' '' # r"
    using l by (simp add: http_request_parse2_def Let_def m_def split: if_splits list.splits)
  define p where "p = takeWhile (\<lambda>c. c \<noteq> CHR '' '' \<and> c \<noteq> LF2) r"
  have ne: "m \<noteq> []" "p \<noteq> []" and lf: "LF2 \<in> set (drop (length p) r)"
    and req: "req = \<lparr>req2_method = m, req2_path = p\<rparr>"
    using l r by (simp_all add: http_request_parse2_def Let_def dropWhile_exists m_def [symmetric]
        p_def [symmetric] split: if_splits)
  obtain c rest where c: "drop (length p) r = c # rest" using lf by (cases "drop (length p) r") simp_all
  then have "dropWhile (\<lambda>c. c \<noteq> CHR '' '' \<and> c \<noteq> LF2) r = c # rest"
    unfolding p_def dropWhile_eq_drop .
  then have "c = CHR '' '' \<or> c = LF2" using dropWhile_head by fastforce
  then have line: "c = LF2 \<or> c = CHR '' '' \<and> LF2 \<in> set rest" using lf unfolding c by auto
  have "list_all is_upper m" "list_all (\<lambda>c. c \<noteq> CHR '' '' \<and> c \<noteq> LF2) p"
    unfolding m_def p_def list_all_iff by (blast dest: set_takeWhileD)+
  moreover have "take (length m) ?buf = m" "take (length p) r = p"
    unfolding m_def p_def by (rule takeWhile_eq_take [symmetric])+
  then have "?buf = m @ CHR '' '' # p @ c # rest"
    using r c append_take_drop_id [of "length m" ?buf] append_take_drop_id [of "length p" r] by simp
  ultimately show ?g using ne line unfolding req comment_grammar_def by auto
next
  assume g: ?g
  then obtain rest c where r: "read_string2 bytes = req2_method req @ CHR '' '' # req2_path req @ c # rest"
    "list_all is_upper (req2_method req)" "list_all (\<lambda>c. c \<noteq> CHR '' '' \<and> c \<noteq> LF2) (req2_path req)"
    "c = LF2 \<or> c = CHR '' '' \<and> LF2 \<in> set rest" unfolding comment_grammar_def by blast
  have u: "\<not> is_upper CHR '' ''" by (simp add: is_upper_def)
  show ?l using parse2_split [OF _ _ u, of "req2_method req" "req2_path req" c bytes rest] r g by auto
qed

lemma empty_parts_refused:
  "comment_grammar ('' /'' @ [LF2]) [] ''/''" "http_request_parse2 (Some ('' /'' @ [LF2])) = Some None"
  "comment_grammar (''GET '' @ [LF2]) ''GET'' []" "http_request_parse2 (Some (''GET '' @ [LF2])) = Some None"
  by (simp_all add: comment_grammar_def is_upper_def http_request_parse2_def read_string2_def
      LIBHTTP_REQUEST_MAX_SIZE_def NUL_def Let_def)

text \<open>C39: the parser accepts a request line of the grammar its comments give only when method and path
  are not empty, and returns the two: a method of capital letters, a space, a path that has no space
  or line feed, and the rest of a line that ends with a line feed. The grammar of the comments has
  empty methods and paths as well, which the code refuses.\<close>

theorem request_grammar:
  "(http_request_parse2 (Some bytes) = Some (Some req) \<longleftrightarrow>
      comment_grammar (read_string2 bytes) (req2_method req) (req2_path req)
      \<and> req2_method req \<noteq> [] \<and> req2_path req \<noteq> [])
   \<and> (\<exists>path. comment_grammar ('' /'' @ [LF2]) [] path) \<and> http_request_parse2 (Some ('' /'' @ [LF2])) = Some None
   \<and> (\<exists>method. comment_grammar (''GET '' @ [LF2]) method []) \<and> http_request_parse2 (Some (''GET '' @ [LF2])) = Some None"
  using grammar_accepted [of bytes req] empty_parts_refused by blast

end
