(* ===== verification/Hw2Server.thy ===== *)
theory Hw2Server
  imports Hw2HTTP
begin

text \<open>
  The web server of hw2 (hw2/httpserver.c): the answer to a request for a file and the command
  line. \<open>www\<close> is what the operating system finds at a path. A
  buffer is a string of its size, its first contents are \<open>junk\<close>. \<open>Exited\<close> is the end of the
  process by \<open>http_fatal_error\<close>.
\<close>

datatype node = RegFile string bool | Directory "string list" bool | OtherNode

type_synonym www = "string \<Rightarrow> node option"

datatype hw2_end = Returned sock | Exited int sock

definition ENOBUFS :: int where "ENOBUFS = 105"

definition http_fatal_error :: "sock \<Rightarrow> hw2_end" where
  "http_fatal_error so = Exited ENOBUFS so"

subsection \<open>Paths\<close>

definition poke :: "string \<Rightarrow> nat \<Rightarrow> char \<Rightarrow> string option" where
  "poke buf j c = (if j < length buf then Some (buf[j := c]) else None)"

definition strcpy_to :: "string \<Rightarrow> string \<Rightarrow> string option" where
  "strcpy_to buf s = (if length s < length buf then Some (s @ NUL # drop (length s + 1) buf) else None)"

text \<open>The loops of \<open>concate\<close>; their first argument is \<open>client_path\<close> from \<open>i\<close> on.\<close>

fun concate_cut :: "string \<Rightarrow> nat \<Rightarrow> string \<Rightarrow> string option" where
  "concate_cut [] j newPath = Some newPath"
| "concate_cut (c # r) j newPath =
     do { newPath \<leftarrow> poke newPath j (case r of [] \<Rightarrow> NUL | d # _ \<Rightarrow> d);
          concate_cut r (j + 1) newPath }"

fun concate_all :: "string \<Rightarrow> nat \<Rightarrow> string \<Rightarrow> string option" where
  "concate_all [] j newPath = poke newPath j NUL"
| "concate_all (c # r) j newPath =
     do { newPath \<leftarrow> poke newPath j c; concate_all r (j + 1) newPath }"

definition concate :: "string \<Rightarrow> string \<Rightarrow> string \<Rightarrow> string option" where
  "concate server_path client_path newPath =
     (if server_path = [] then None
      else if last server_path = CHR ''/'' then
        do { newPath \<leftarrow> strcpy_to newPath server_path;
             concate_cut client_path (length server_path) newPath }
      else
        do { newPath \<leftarrow> strcpy_to newPath server_path;
             concate_all client_path (length server_path) newPath })"

text \<open>The result and \<open>*file_size\<close>, an \<open>int\<close>.\<close>

definition is_a_dir :: "www \<Rightarrow> string \<Rightarrow> 32 word \<Rightarrow> int \<times> 32 word" where
  "is_a_dir www path file_size =
     (case www path of
        None \<Rightarrow> (-1, file_size)
      | Some (Directory _ _) \<Rightarrow> (1, file_size)
      | Some (RegFile c _) \<Rightarrow> (0, word_of_nat (length c))
      | Some OtherNode \<Rightarrow> (-1, file_size))"

definition has_a_index :: "www \<Rightarrow> string \<Rightarrow> 32 word \<Rightarrow> (bool \<times> 32 word) option" where
  "has_a_index www path file_size =
     do { newPath \<leftarrow> concate path ''/index.html'' (replicate (length path + 12 + 1) NUL);
          newPath \<leftarrow> c_string newPath;
          case is_a_dir www newPath file_size of
            (kind, file_size) \<Rightarrow> Some (kind = 0, file_size) }"

subsection \<open>Files and directories\<close>

text \<open>A directory can be opened but not read: \<open>fgetc\<close> fails without end of file, and the loop
  does not end.\<close>

definition read_from_a_file_print :: "www \<Rightarrow> string \<Rightarrow> sock \<Rightarrow> hw2_end option" where
  "read_from_a_file_print www path so =
     (case www path of
        Some (RegFile c True) \<Rightarrow> Some (Returned (foldl (\<lambda>so content. http_send_data so [content]) so c))
      | Some (Directory _ True) \<Rightarrow> None
      | _ \<Rightarrow> Some (http_fatal_error so))"

definition strcat_to :: "nat \<Rightarrow> string \<Rightarrow> string \<Rightarrow> string option" where
  "strcat_to cap s t = (if length s + length t < cap then Some (s @ t) else None)"

definition dir_line :: "string \<Rightarrow> string option" where
  "dir_line d_name =
     (let linkName = (if d_name = ''..'' then ''Parent directory'' else d_name);
          cap = 2 * length d_name + 38
      in do { tmp \<leftarrow> strcat_to cap [] (''<p><a href='' @ [CHR 0x22]);
              tmp \<leftarrow> strcat_to cap tmp d_name;
              tmp \<leftarrow> strcat_to cap tmp (if d_name = ''..'' then ''/'' @ [CHR 0x22] @ ''>'' else [CHR 0x22] @ ''>'');
              tmp \<leftarrow> strcat_to cap tmp linkName;
              strcat_to cap tmp ''</a></p>'' })"

fun dir_loop :: "string list \<Rightarrow> sock \<Rightarrow> sock option" where
  "dir_loop [] so = Some so"
| "dir_loop (d_name # ds) so =
     (if d_name = ''.'' then dir_loop ds so
      else do { tmp \<leftarrow> dir_line d_name; dir_loop ds (http_send_string so tmp) })"

definition read_dir_print :: "www \<Rightarrow> string \<Rightarrow> sock \<Rightarrow> hw2_end option" where
  "read_dir_print www path so =
     (let so = http_send_string so ''<center><h1>links are:</h1><hr>''
      in case www path of
           Some (Directory entries True) \<Rightarrow>
             do { so \<leftarrow> dir_loop entries so; Some (Returned (http_send_string so ''</center>'')) }
         | _ \<Rightarrow> Some (http_fatal_error so))"

text \<open>The answer with a file, which the handler has twice.\<close>

definition send_file :: "www \<Rightarrow> string \<Rightarrow> 32 word \<Rightarrow> sock \<Rightarrow> hw2_end option" where
  "send_file www path file_size so =
     (let so = http_start_response2 so 200;
          so = http_send_header so ''Content-type'' (http_get_mime_type path);
          so = http_send_header so ''Content-length'' (sdec (sint file_size));
          so = http_end_headers2 so
      in read_from_a_file_print www path so)"

definition handle_files_request :: "www \<Rightarrow> string \<Rightarrow> char \<Rightarrow> string option \<Rightarrow> sock \<Rightarrow> hw2_end option" where
  "handle_files_request www server_files_directory junk got so =
     do { parsed \<leftarrow> http_request_parse2 got;
          request \<leftarrow> parsed;
          buf \<leftarrow> concate server_files_directory (req2_path request)
                  (replicate (length (req2_path request) + length server_files_directory + 1) junk);
          newPath \<leftarrow> c_string buf;
          if req2_method request = ''GET'' then
            case is_a_dir www newPath 0 of
              (kind, file_size) \<Rightarrow>
                if kind = 0 then send_file www newPath file_size so
                else if kind = 1 then
                  do { (index, file_size) \<leftarrow> has_a_index www newPath file_size;
                       if index then
                         do { buf \<leftarrow> concate newPath ''/index.html'' (replicate (length newPath + 12 + 4) junk);
                              updatedPath \<leftarrow> c_string buf;
                              send_file www updatedPath file_size so }
                       else
                         (let so = http_start_response2 so 200;
                              so = http_send_header so ''Content-type'' ''text/html'';
                              so = http_end_headers2 so
                          in read_dir_print www newPath so) }
                else
                  (let so = http_start_response2 so 404;
                       so = http_send_header so ''Content-type'' ''text/html'';
                       so = http_end_headers2 so
                   in Some (Returned (http_send_string so
                        ''<center><h1>404 ERROR!</h1><hr><p>Nothing's here yet.</p></center>'')))
          else Some (Returned so) }"

subsection \<open>The command line\<close>

text \<open>\<open>cf_owned\<close>: the directory is the block allocated at the start, and not an argument.\<close>

record hw2_config =
  cf_proxy :: bool
  cf_port :: "32 word"
  cf_files :: string
  cf_owned :: bool
  cf_proxy_host :: string
  cf_proxy_port :: "32 word"

definition hw2_defaults :: "string \<Rightarrow> hw2_config" where
  "hw2_defaults cwd = \<lparr>cf_proxy = False, cf_port = 8000, cf_files = cwd, cf_owned = True,
     cf_proxy_host = ''inst.eecs.berkeley.edu'', cf_proxy_port = 80\<rparr>"

text \<open>\<open>Inl\<close> is \<open>exit_with_usage\<close>; freeing an argument is undefined.\<close>

fun hw2_main_args :: "string list \<Rightarrow> hw2_config \<Rightarrow> (unit + hw2_config) option" where
  "hw2_main_args [] cf = Some (Inr cf)"
| "hw2_main_args (a # as) cf =
     (if a = ''--files'' then
        (if \<not> cf_owned cf then None
         else case as of
             [] \<Rightarrow> Some (Inl ())
           | d # as' \<Rightarrow> hw2_main_args as' (cf\<lparr>cf_proxy := False, cf_files := d, cf_owned := False\<rparr>))
      else if a = ''--proxy'' then
        (case as of
            [] \<Rightarrow> Some (Inl ())
          | t # as' \<Rightarrow>
              (case strchr t CHR '':'' of
                 Some n \<Rightarrow> hw2_main_args as' (cf\<lparr>cf_proxy := True, cf_proxy_host := take n t,
                               cf_proxy_port := atoi (drop (n + 1) t)\<rparr>)
               | None \<Rightarrow> hw2_main_args as' (cf\<lparr>cf_proxy := True, cf_proxy_host := t, cf_proxy_port := 80\<rparr>)))
      else if a = ''--port'' then
        (case as of
            [] \<Rightarrow> Some (Inl ())
          | p # as' \<Rightarrow> hw2_main_args as' (cf\<lparr>cf_port := atoi p\<rparr>))
      else Some (Inl ()))"

subsection \<open>The paths are joined\<close>

definition path_join :: "string \<Rightarrow> string \<Rightarrow> string" where
  "path_join server client = (if last server = CHR ''/'' then server @ tl client else server @ client)"

lemma poke_at: "poke (s @ x # t) (length s) c = Some (s @ c # t)"
  by (simp add: poke_def)

lemma concate_all_spec:
  assumes "j = length s" "length r < length t"
  shows "\<exists>t'. concate_all r j (s @ t) = Some (s @ r @ NUL # t')"
  using assms
proof (induction r arbitrary: j s t)
  case Nil
  then show ?case by (cases t) (simp_all add: poke_at)
next
  case (Cons c r)
  then obtain x u where t: "t = x # u" by (cases t) auto
  have "\<exists>t'. concate_all r (j + 1) ((s @ [c]) @ u) = Some ((s @ [c]) @ r @ NUL # t')"
    by (rule Cons.IH) (use Cons.prems t in auto)
  then show ?case using Cons.prems t by (simp add: poke_at)
qed

lemma concate_cut_spec:
  assumes "j = length s" "length r \<le> length t" "t = [] \<or> r \<noteq> [] \<or> hd t = NUL" "r = [] \<longrightarrow> t \<noteq> []"
  shows "\<exists>t'. concate_cut r j (s @ t) = Some (s @ tl r @ NUL # t')"
  using assms
proof (induction r arbitrary: j s t)
  case Nil
  then show ?case by (cases t) auto
next
  case (Cons c r)
  then obtain x u where t: "t = x # u" by (cases t) auto
  show ?case
  proof (cases r)
    case Nil
    then show ?thesis using Cons.prems t by (simp add: poke_at)
  next
    case (Cons d r')
    have "\<exists>t'. concate_cut r (j + 1) ((s @ [d]) @ u) = Some ((s @ [d]) @ tl r @ NUL # t')"
      by (rule Cons.IH) (use Cons.prems t Cons in auto)
    then show ?thesis using Cons.prems t Cons by (simp add: poke_at)
  qed
qed

text \<open>Enough room, and the result is the joined path.\<close>

lemma concate_spec:
  assumes "server \<noteq> []" "client \<noteq> []" "cstr server" "cstr client"
    and "length server + length client < length buf"
  shows "\<exists>out. concate server client buf = Some out \<and> c_string out = Some (path_join server client)"
proof -
  let ?t = "NUL # drop (length server + 1) buf"
  have st: "strcpy_to buf server = Some (server @ ?t)" using assms(5) by (simp add: strcpy_to_def)
  have "cstr (tl client)" using assms(4) by (cases client) auto
  moreover have "\<exists>t1. concate_cut client (length server) (server @ ?t) = Some (server @ tl client @ NUL # t1)"
    by (rule concate_cut_spec) (use assms(2,5) in auto)
  moreover have "\<exists>t2. concate_all client (length server) (server @ ?t) = Some (server @ client @ NUL # t2)"
    by (rule concate_all_spec) (use assms(5) in auto)
  moreover have "c_string ((server @ u) @ NUL # t) = Some (server @ u)" if "cstr u" for u t
    using assms(3) that by (intro c_string_terminated) simp
  ultimately show ?thesis using assms(1,4) st by (auto simp: concate_def path_join_def)
qed

lemma cstr_path_join [simp]: "cstr server \<Longrightarrow> cstr client \<Longrightarrow> cstr (path_join server client)"
  by (cases client) (auto simp: path_join_def)

lemma path_join_not_Nil [simp]: "server \<noteq> [] \<Longrightarrow> path_join server client \<noteq> []"
  by (simp add: path_join_def)

subsection \<open>The answer\<close>

definition dir_link :: "string \<Rightarrow> string" where
  "dir_link d_name =
     (if d_name = ''..'' then ''<p><a href='' @ [CHR 0x22] @ ''../'' @ [CHR 0x22] @ ''>Parent directory</a></p>''
      else ''<p><a href='' @ [CHR 0x22] @ d_name @ [CHR 0x22] @ ''>'' @ d_name @ ''</a></p>'')"

text \<open>A line of the listing fits its buffer; the one for the parent directory fills it.\<close>

lemma dir_line_spec: "dir_line d_name = Some (dir_link d_name)"
  by (simp add: dir_line_def dir_link_def strcat_to_def)

definition head_lines :: "int \<Rightarrow> (string \<times> string) list \<Rightarrow> string" where
  "head_lines status headers =
     ''HTTP/1.0 '' @ sdec status @ '' '' @ http_get_response_message2 status @ CRLF
     @ concat (map (\<lambda>(k, v). k @ '': '' @ v @ CRLF) headers) @ CRLF"

text \<open>The bytes of the answer, and whether the process ends in the middle of it.\<close>

definition file_answer :: "string \<Rightarrow> string \<Rightarrow> bool \<Rightarrow> string \<times> bool" where
  "file_answer path c readable =
     (head_lines 200 [(''Content-type'', http_get_mime_type path), (''Content-length'', dec (length c))]
        @ (if readable then c else []), \<not> readable)"

definition listing_answer :: "string list \<Rightarrow> bool \<Rightarrow> string \<times> bool" where
  "listing_answer es readable =
     (head_lines 200 [(''Content-type'', ''text/html'')] @ ''<center><h1>links are:</h1><hr>''
        @ (if readable then concat (map dir_link (filter (\<lambda>e. e \<noteq> ''.'') es)) @ ''</center>'' else []),
      \<not> readable)"

definition files_answer :: "www \<Rightarrow> string \<Rightarrow> string \<times> bool" where
  "files_answer www path =
     (case www path of
        Some (RegFile c r) \<Rightarrow> file_answer path c r
      | Some (Directory es r) \<Rightarrow>
          (case www (path_join path ''/index.html'') of
             Some (RegFile c r') \<Rightarrow> file_answer (path_join path ''/index.html'') c r'
           | _ \<Rightarrow> listing_answer es r)
      | _ \<Rightarrow> (head_lines 404 [(''Content-type'', ''text/html'')]
               @ ''<center><h1>404 ERROR!</h1><hr><p>Nothing's here yet.</p></center>'', False))"

definition answers :: "hw2_end option \<Rightarrow> sock \<Rightarrow> string \<times> bool \<Rightarrow> bool" where
  "answers res so a \<longleftrightarrow>
     (\<exists>so'. res = Some (if snd a then Exited ENOBUFS so' else Returned so') \<and> so_sent so' = so_sent so @ fst a)"

lemma chars_sent:
  assumes "so_healthy so"
  shows "so_sent (foldl (\<lambda>so content. http_send_data so [content]) so c) = so_sent so @ c"
proof -
  have "foldl (\<lambda>so content. http_send_data so [content]) so c
      = foldl http_send_data so (map (\<lambda>x. [x]) c)" by (simp add: foldl_map)
  moreover have "concat (map (\<lambda>x. [x]) c) = c" by (induction c) auto
  ultimately show ?thesis using sink.sent_pieces [OF assms] by simp
qed

lemma dir_loop_spec:
  assumes "so_healthy so"
  shows "\<exists>so'. dir_loop es so = Some so' \<and> so_healthy so'
     \<and> so_sent so' = so_sent so @ concat (map dir_link (filter (\<lambda>e. e \<noteq> ''.'') es))"
  using assms
proof (induction es arbitrary: so)
  case (Cons e es)
  show ?case
  proof (cases "e = ''.''")
    case False
    from Cons.IH [OF sink.healthy_law [OF Cons.prems], of "dir_link e"] False Cons.prems
    show ?thesis by (simp add: dir_line_spec http_send_string_def sink.sent_law)
  qed (use Cons in simp)
qed simp

lemmas sends = send_defs sink.sent_law sink.healthy_law head_lines_def answers_def

lemma send_file_spec:
  assumes "so_healthy so" "www path = Some (RegFile c r)" "length c < 2 ^ 31"
  shows "answers (send_file www path (word_of_nat (length c)) so) so (file_answer path c r)"
proof -
  have "sdec (sint (word_of_nat (length c) :: 32 word)) = dec (length c)"
    using sint_of_small_nat [OF assms(3)] by (simp add: sdec_def)
  then show ?thesis using assms(1,2)
    by (cases r) (simp_all add: send_file_def Let_def read_from_a_file_print_def http_fatal_error_def
        file_answer_def sends chars_sent)
qed

lemma read_dir_spec:
  assumes "so_healthy so" "www path = Some (Directory es r)"
  shows "answers (let so = http_start_response2 so 200;
                so = http_send_header so ''Content-type'' ''text/html'';
                so = http_end_headers2 so
            in read_dir_print www path so) so (listing_answer es r)"
proof (cases r)
  case True
  let ?so = "http_send_string (http_end_headers2 (http_send_header (http_start_response2 so 200)
      ''Content-type'' ''text/html'')) ''<center><h1>links are:</h1><hr>''"
  have "so_healthy ?so" using assms(1) by (simp add: sends)
  from dir_loop_spec [OF this, of es] obtain so' where so': "dir_loop es ?so = Some so'" "so_healthy so'"
      "so_sent so' = so_sent ?so @ concat (map dir_link (filter (\<lambda>e. e \<noteq> ''.'') es))" by blast
  then show ?thesis using assms True
    by (simp add: read_dir_print_def Let_def listing_answer_def answers_def)
      (simp add: sends)
next
  case False
  then show ?thesis using assms
    by (simp add: read_dir_print_def Let_def listing_answer_def http_fatal_error_def sends)
qed

lemma request_path_cstr:
  assumes "http_request_parse2 (Some bytes) = Some (Some req)"
  shows "req2_path req \<noteq> []" "cstr (req2_path req)"
proof -
  obtain rest c where "read_string2 bytes = req2_method req @ CHR '' '' # req2_path req @ c # rest"
    and ne: "req2_path req \<noteq> []"
    using assms by (auto simp: grammar_accepted comment_grammar_def)
  moreover have "NUL \<notin> set (read_string2 bytes)" by (auto simp: read_string2_def dest: set_takeWhileD)
  ultimately show "req2_path req \<noteq> []" "cstr (req2_path req)" by (auto simp: cstr_def)
qed

lemma index_joined:
  assumes "path \<noteq> []" "cstr path" "0 < n"
  obtains out where "concate path ''/index.html'' (replicate (length path + 12 + n) x) = Some out"
    and "c_string out = Some (path_join path ''/index.html'')"
proof -
  have "\<exists>out. concate path ''/index.html'' (replicate (length path + 12 + n) x) = Some out
      \<and> c_string out = Some (path_join path ''/index.html'')"
    by (rule concate_spec) (use assms in \<open>auto simp: NUL_def\<close>)
  then show ?thesis using that by blast
qed

lemmas files_defs = handle_files_request_def is_a_dir_def has_a_index_def files_answer_def

lemma get_directory_answered:
  assumes parsed: "http_request_parse2 (Some bytes) = Some (Some req)" "req2_method req = ''GET''"
    and joined: "concate dir (req2_path req) (replicate (length (req2_path req) + length dir + 1) junk) = Some out"
      "c_string out = Some path"
    and path: "path \<noteq> []" "cstr path" and so: "so_healthy so"
    and small: "\<forall>p c r. www p = Some (RegFile c r) \<longrightarrow> length c < 2 ^ 31"
    and node: "www path = Some (Directory es r)"
  shows "answers (handle_files_request www dir junk (Some bytes) so) so (files_answer www path)"
proof -
  obtain o1 where o1: "concate path ''/index.html'' (replicate (length path + 12 + 1) NUL) = Some o1"
    "c_string o1 = Some (path_join path ''/index.html'')" using index_joined [OF path, of 1 NUL] by auto
  obtain o2 where o2: "concate path ''/index.html'' (replicate (length path + 12 + 4) junk) = Some o2"
    "c_string o2 = Some (path_join path ''/index.html'')" using index_joined [OF path, of 4 junk] by auto
  note read = read_dir_spec [OF so, of www path es r]
  show ?thesis
  proof (cases "www (path_join path ''/index.html'')")
    case None
    then show ?thesis using parsed joined node o1 read by (simp add: files_defs)
  next
    case (Some ind)
    have sent: "answers (send_file www p (word_of_nat (length c)) so) so (file_answer p c r)"
      if "www p = Some (RegFile c r)" for p c r
      by (rule send_file_spec [OF so, of www p c r]) (use small that in blast)+
    show ?thesis using Some parsed joined node o1 o2 read sent
      by (cases ind) (simp_all add: files_defs)
  qed
qed

lemma get_answered:
  assumes parsed: "http_request_parse2 (Some bytes) = Some (Some req)" "req2_method req = ''GET''"
    and joined: "concate dir (req2_path req) (replicate (length (req2_path req) + length dir + 1) junk) = Some out"
      "c_string out = Some path"
    and path: "path \<noteq> []" "cstr path" and so: "so_healthy so"
    and small: "\<forall>p c r. www p = Some (RegFile c r) \<longrightarrow> length c < 2 ^ 31"
  shows "answers (handle_files_request www dir junk (Some bytes) so) so (files_answer www path)"
proof (cases "www path")
  case None
  then show ?thesis using parsed joined so by (simp add: files_defs) (simp add: sends)
next
  case (Some nd)
  show ?thesis
  proof (cases nd)
    case (RegFile c r)
    then have "answers (send_file www path (word_of_nat (length c)) so) so (file_answer path c r)"
      by (intro send_file_spec) (use so Some small in auto)
    then show ?thesis using RegFile Some parsed joined by (simp add: files_defs)
  next
    case (Directory es r)
    then show ?thesis using assms Some by (intro get_directory_answered) simp_all
  next
    case OtherNode
    then show ?thesis using Some parsed joined so by (simp add: files_defs) (simp add: sends)
  qed
qed

text \<open>C31: a GET is answered with what stands at the directory of the server joined with the
  path: a file with its type and its length in bytes, the file \<open>index.html\<close> of a directory,
  the links to its entries when it has none, or 404; only a file or directory that cannot be
  opened ends the process, behind the headers. No buffer overflows. Other methods get no
  answer at all.\<close>

theorem files_request_answered:
  assumes "http_request_parse2 (Some bytes) = Some (Some req)" and "so_healthy so"
    and "dir \<noteq> []" "cstr dir" and "\<forall>p c r. www p = Some (RegFile c r) \<longrightarrow> length c < 2 ^ 31"
  shows "if req2_method req = ''GET''
     then answers (handle_files_request www dir junk (Some bytes) so) so
            (files_answer www (path_join dir (req2_path req)))
     else handle_files_request www dir junk (Some bytes) so = Some (Returned so)"
proof -
  note p = request_path_cstr [OF assms(1)]
  have "\<exists>out. concate dir (req2_path req) (replicate (length (req2_path req) + length dir + 1) junk) = Some out
      \<and> c_string out = Some (path_join dir (req2_path req))"
    by (rule concate_spec) (use assms(3,4) p in auto)
  then obtain out where out: "concate dir (req2_path req)
        (replicate (length (req2_path req) + length dir + 1) junk) = Some out"
      "c_string out = Some (path_join dir (req2_path req))"
    by blast
  show ?thesis
  proof (cases "req2_method req = ''GET''")
    case True
    have "path_join dir (req2_path req) \<noteq> []" "cstr (path_join dir (req2_path req))"
      using assms(3,4) p by simp_all
    from get_answered [OF assms(1) True out this assms(2,5)] True show ?thesis by simp
  qed (use assms(1) out in \<open>simp add: handle_files_request_def\<close>)
qed

definition www0 :: www where
  "www0 = [''w/a.html'' \<mapsto> RegFile ''hi'' True]"

definition sock0 :: sock where
  "sock0 = \<lparr>so_sent = [], so_takes = [3, 0]\<rparr>"

lemma files_request_answered_witness:
  "answers (handle_files_request www0 ''w'' NUL (Some (''GET /a.html HTTP/1.0'' @ [LF2])) sock0) sock0
     (head_lines 200 [(''Content-type'', ''text/html''), (''Content-length'', dec 2)] @ ''hi'', False)"
proof -
  let ?req = "\<lparr>req2_method = ''GET'', req2_path = ''/a.html''\<rparr>"
  let ?bytes = "''GET /a.html HTTP/1.0'' @ [LF2]"
  have "read_string2 ?bytes = ?bytes"
    by (simp add: read_string2_def NUL_def LIBHTTP_REQUEST_MAX_SIZE_def)
  then have "http_request_parse2 (Some ?bytes) = Some (Some ?req)"
    unfolding grammar_accepted comment_grammar_def
    by (intro conjI exI [of _ "''HTTP/1.0'' @ [LF2]"] exI [of _ "CHR '' ''"]) (simp_all add: is_upper_def)
  moreover have "so_healthy sock0" "cstr ''w''" by (simp_all add: sock0_def so_healthy_def NUL_def)
  moreover have "\<forall>p c r. www0 p = Some (RegFile c r) \<longrightarrow> length c < 2 ^ 31" by (simp add: www0_def)
  moreover have "files_answer www0 (path_join ''w'' ''/a.html'') =
      (head_lines 200 [(''Content-type'', ''text/html''), (''Content-length'', dec 2)] @ ''hi'', False)"
    by (simp add: www0_def files_answer_def file_answer_def path_join_def http_get_mime_type_def
        strrchr_def numeral_2_eq_2)
  ultimately show ?thesis using files_request_answered [of ?bytes ?req sock0 "''w''" www0 NUL] by simp
qed

end
