(* ===== verification/Hw2Proxy.thy ===== *)
theory Hw2Proxy
  imports Hw2HTTP Descriptors
begin

text \<open>
  The proxy of hw2 (\<open>handle_proxy_request\<close> in hw2/httpserver.c): its set-up, the loops of its two
  processes, and the two running at the same time, as a function on the list of what happens:
  the peers send and close, a process goes once through its loop or makes the next call behind it.
  Both processes have all descriptors of the one that forked, and a peer sees its connection closed
  when none of them holds it any more.
\<close>

subsection \<open>The set-up\<close>

text \<open>What the system calls return: \<open>errno\<close> where they fail, and 0.\<close>

record proxy_os =
  po_gethostbyname :: "int option"
  po_socket :: int
  po_setsockopt :: int
  po_connect :: int
  po_fork :: int

text \<open>\<open>Inl\<close> is \<open>exit (errno)\<close>; \<open>gethostbyname\<close> does not set \<open>errno\<close>, so that it is what it was.
  Otherwise the descriptor \<open>socket_num\<close> and the table both processes go on with.\<close>

definition proxy_setup :: "proxy_os \<Rightarrow> 'f fd_table \<Rightarrow> 'f \<Rightarrow> int + (nat \<times> 'f fd_table)" where
  "proxy_setup os fds target =
     (case po_gethostbyname os of
        Some errno \<Rightarrow> Inl errno
      | None \<Rightarrow>
          (case sys_open fds (po_socket os = 0) target of
             (None, fds) \<Rightarrow> Inl (if po_socket os = 0 then EMFILE else po_socket os)
           | (Some socket_num, fds) \<Rightarrow>
               if po_setsockopt os \<noteq> 0 then Inl (po_setsockopt os)
               else if po_connect os \<noteq> 0 then Inl (po_connect os)
               else if po_fork os \<noteq> 0 then Inl (po_fork os)
               else Inr (socket_num, fds)))"

subsection \<open>The loops\<close>

text \<open>
  One turn of a loop, on the result of a \<open>read\<close> that is not empty; the buffer is a string of its
  size. The result is the buffer, or \<open>None\<close> for the \<open>break\<close>. The child copies from the target to
  the client, the parent from the client to the target; the parent writes the whole buffer.
\<close>

definition child_turn :: "string \<Rightarrow> string \<Rightarrow> sock \<Rightarrow> string option \<times> sock" where
  "child_turn r buf so =
     (let buf = r @ drop (length r) buf in
      case sock_write so (take (length r) buf) of
        (bytes_write, so) \<Rightarrow> (if bytes_write < 0 then None else Some buf, so))"

definition parent_turn :: "string \<Rightarrow> string \<Rightarrow> sock \<Rightarrow> string option \<times> sock" where
  "parent_turn r buf so =
     (let buf = r @ drop (length r) buf in
      case sock_write so buf of
        (bytes_write, so) \<Rightarrow> (if bytes_write < 0 then None else Some buf, so))"

text \<open>A whole loop, on the results of \<open>read\<close>: an empty one is the end of the stream or an error.\<close>

fun proxy_to_client :: "string list \<Rightarrow> string \<Rightarrow> sock \<Rightarrow> sock" where
  "proxy_to_client [] buf so = so"
| "proxy_to_client (r # rs) buf so =
     (if r = [] then so
      else case child_turn r buf so of
          (None, so) \<Rightarrow> so
        | (Some buf, so) \<Rightarrow> proxy_to_client rs buf so)"

fun proxy_to_target :: "string list \<Rightarrow> string \<Rightarrow> sock \<Rightarrow> sock" where
  "proxy_to_target [] buf so = so"
| "proxy_to_target (r # rs) buf so =
     (if r = [] then so
      else case parent_turn r buf so of
          (None, so) \<Rightarrow> so
        | (Some buf, so) \<Rightarrow> proxy_to_target rs buf so)"

subsection \<open>Two processes\<close>

text \<open>
  A process copies with its buffer, then comes to the \<open>close\<close> behind its loop, then back to
  \<open>serve_forever\<close>, which closes the connection (a second time, in the parent) and calls \<open>exit\<close>.
\<close>

datatype proxy_at = Copying string | AtClose | AtReturn | Gone

text \<open>
  The bytes that have arrived and are not read, whether their sender has closed, where the
  processes are, their descriptors, and what they wrote. The last two fields are
  what their \<open>read\<close>s returned; no step looks at them.
\<close>

record 'f proxy =
  px_socket_num :: nat
  px_fd :: nat
  px_from_client :: string
  px_client_done :: bool
  px_from_target :: string
  px_target_done :: bool
  px_parent :: proxy_at
  px_parent_fds :: "'f fd_table"
  px_child :: proxy_at
  px_child_fds :: "'f fd_table"
  px_to_target :: sock
  px_to_client :: sock
  px_parent_reads :: "string list"
  px_child_reads :: "string list"

definition proxy_start ::
  "nat \<Rightarrow> nat \<Rightarrow> 'f fd_table \<Rightarrow> string \<Rightarrow> string \<Rightarrow> sock \<Rightarrow> sock \<Rightarrow> 'f proxy" where
  "proxy_start socket_num fd fds parent_buf child_buf target client =
     \<lparr>px_socket_num = socket_num, px_fd = fd, px_from_client = [], px_client_done = False,
      px_from_target = [], px_target_done = False,
      px_parent = Copying parent_buf, px_parent_fds = fds, px_child = Copying child_buf, px_child_fds = fds,
      px_to_target = target, px_to_client = client, px_parent_reads = [], px_child_reads = []\<rparr>"

text \<open>
  The event of a process has the number of bytes \<open>read\<close> would like to return. \<open>ParentPiped\<close>
  and \<open>ChildPiped\<close>: the process writes to a peer that has closed, and dies by SIGPIPE. The first
  writes to such a peer may still succeed.
\<close>

datatype proxy_event =
    ClientSends string | ClientEnds | TargetSends string | TargetEnds
  | ParentGoesOn nat | ChildGoesOn nat | ParentPiped nat | ChildPiped nat

text \<open>\<open>read\<close> with room for 1024 bytes: what it returns and what remains, or \<open>None\<close> while it waits.\<close>

definition sys_read :: "string \<Rightarrow> bool \<Rightarrow> nat \<Rightarrow> (string \<times> string) option" where
  "sys_read arrived closed n =
     (if arrived = [] then (if closed then Some ([], []) else None)
      else let k = max 1 (min n 1024) in Some (take k arrived, drop k arrived))"

definition parent_goes_on :: "nat \<Rightarrow> 'f proxy \<Rightarrow> 'f proxy" where
  "parent_goes_on n st =
     (case px_parent st of
        Copying buf \<Rightarrow>
          (case sys_read (px_from_client st) (px_client_done st) n of
             None \<Rightarrow> st
           | Some (r, rest) \<Rightarrow>
               let st = st\<lparr>px_from_client := rest, px_parent_reads := px_parent_reads st @ [r]\<rparr> in
               if r = [] then st\<lparr>px_parent := AtClose\<rparr>
               else (case parent_turn r buf (px_to_target st) of
                       (None, so) \<Rightarrow> st\<lparr>px_parent := AtClose, px_to_target := so\<rparr>
                     | (Some buf, so) \<Rightarrow> st\<lparr>px_parent := Copying buf, px_to_target := so\<rparr>))
      | AtClose \<Rightarrow>
          st\<lparr>px_parent := AtReturn, px_parent_fds := sys_close (px_parent_fds st) (Some (px_fd st))\<rparr>
      | AtReturn \<Rightarrow> st\<lparr>px_parent := Gone, px_parent_fds := Map.empty\<rparr>
      | Gone \<Rightarrow> st)"

definition child_goes_on :: "nat \<Rightarrow> 'f proxy \<Rightarrow> 'f proxy" where
  "child_goes_on n st =
     (case px_child st of
        Copying buf \<Rightarrow>
          (case sys_read (px_from_target st) (px_target_done st) n of
             None \<Rightarrow> st
           | Some (r, rest) \<Rightarrow>
               let st = st\<lparr>px_from_target := rest, px_child_reads := px_child_reads st @ [r]\<rparr> in
               if r = [] then st\<lparr>px_child := AtClose\<rparr>
               else (case child_turn r buf (px_to_client st) of
                       (None, so) \<Rightarrow> st\<lparr>px_child := AtClose, px_to_client := so\<rparr>
                     | (Some buf, so) \<Rightarrow> st\<lparr>px_child := Copying buf, px_to_client := so\<rparr>))
      | AtClose \<Rightarrow>
          st\<lparr>px_child := AtReturn, px_child_fds := sys_close (px_child_fds st) (Some (px_socket_num st))\<rparr>
      | AtReturn \<Rightarrow> st\<lparr>px_child := Gone, px_child_fds := Map.empty\<rparr>
      | Gone \<Rightarrow> st)"

text \<open>A process that dies inside of its \<open>write\<close>; one that waits in \<open>read\<close>, or writes to a peer that
  is there, does not.\<close>

definition parent_piped :: "nat \<Rightarrow> 'f proxy \<Rightarrow> 'f proxy" where
  "parent_piped n st =
     (case (px_parent st, sys_read (px_from_client st) (px_client_done st) n) of
        (Copying buf, Some (r, rest)) \<Rightarrow>
          if r \<noteq> [] \<and> px_target_done st
          then st\<lparr>px_from_client := rest, px_parent := Gone, px_parent_fds := Map.empty\<rparr>
          else st
      | _ \<Rightarrow> st)"

definition child_piped :: "nat \<Rightarrow> 'f proxy \<Rightarrow> 'f proxy" where
  "child_piped n st =
     (case (px_child st, sys_read (px_from_target st) (px_target_done st) n) of
        (Copying buf, Some (r, rest)) \<Rightarrow>
          if r \<noteq> [] \<and> px_client_done st
          then st\<lparr>px_from_target := rest, px_child := Gone, px_child_fds := Map.empty\<rparr>
          else st
      | _ \<Rightarrow> st)"

fun proxy_happens :: "proxy_event \<Rightarrow> 'f proxy \<Rightarrow> 'f proxy" where
  "proxy_happens (ClientSends s) st =
     (if px_client_done st then st else st\<lparr>px_from_client := px_from_client st @ s\<rparr>)"
| "proxy_happens ClientEnds st = st\<lparr>px_client_done := True\<rparr>"
| "proxy_happens (TargetSends s) st =
     (if px_target_done st then st else st\<lparr>px_from_target := px_from_target st @ s\<rparr>)"
| "proxy_happens TargetEnds st = st\<lparr>px_target_done := True\<rparr>"
| "proxy_happens (ParentGoesOn n) st = parent_goes_on n st"
| "proxy_happens (ChildGoesOn n) st = child_goes_on n st"
| "proxy_happens (ParentPiped n) st = parent_piped n st"
| "proxy_happens (ChildPiped n) st = child_piped n st"

definition proxy_run :: "proxy_event list \<Rightarrow> 'f proxy \<Rightarrow> 'f proxy" where
  "proxy_run es st = fold proxy_happens es st"

text \<open>The peer of a connection sees its end: no process of the proxy holds it. The server itself
  closed its descriptor after its \<open>fork\<close> (\<open>Hw2Serve\<close>).\<close>

definition hung_up_on :: "'f \<Rightarrow> 'f proxy \<Rightarrow> bool" where
  "hung_up_on connection st \<longleftrightarrow> connection \<notin> ran (px_parent_fds st) \<union> ran (px_child_fds st)"

definition copying :: "proxy_at \<Rightarrow> bool" where
  "copying at \<longleftrightarrow> (case at of Copying _ \<Rightarrow> True | _ \<Rightarrow> False)"

lemma copying_simps [simp]: "copying (Copying buf)" "\<not> copying AtClose" "\<not> copying AtReturn" "\<not> copying Gone"
  by (simp_all add: copying_def)

lemmas goes_on_defs = parent_goes_on_def child_goes_on_def parent_piped_def child_piped_def

fun target_text :: "proxy_event list \<Rightarrow> string" where
  "target_text [] = []"
| "target_text (TargetSends s # es) = s @ target_text es"
| "target_text (TargetEnds # es) = []"
| "target_text (e # es) = target_text es"

subsection \<open>Each process runs its loop\<close>

definition loops_inv :: "string \<Rightarrow> string \<Rightarrow> sock \<Rightarrow> sock \<Rightarrow> 'f proxy \<Rightarrow> bool" where
  "loops_inv parent_buf child_buf target client st \<longleftrightarrow>
     (\<forall>rs. case px_parent st of
         Copying buf \<Rightarrow> proxy_to_target (px_parent_reads st @ rs) parent_buf target
           = proxy_to_target rs buf (px_to_target st)
       | _ \<Rightarrow> proxy_to_target (px_parent_reads st) parent_buf target = px_to_target st)
   \<and> (\<forall>rs. case px_child st of
         Copying buf \<Rightarrow> proxy_to_client (px_child_reads st @ rs) child_buf client
           = proxy_to_client rs buf (px_to_client st)
       | _ \<Rightarrow> proxy_to_client (px_child_reads st) child_buf client = px_to_client st)"

lemma loops_inv_stopped:
  assumes "loops_inv p c t s st"
  shows "proxy_to_target (px_parent_reads st) p t = px_to_target st"
    "proxy_to_client (px_child_reads st) c s = px_to_client st"
proof -
  show "proxy_to_target (px_parent_reads st) p t = px_to_target st"
    using assms unfolding loops_inv_def
    by (cases "px_parent st") (simp_all, metis append_Nil2 proxy_to_target.simps(1))
  show "proxy_to_client (px_child_reads st) c s = px_to_client st"
    using assms unfolding loops_inv_def
    by (cases "px_child st") (simp_all, metis append_Nil2 proxy_to_client.simps(1))
qed

lemma loops_inv_goes_on:
  assumes i: "loops_inv p c t s st"
  shows "loops_inv p c t s (parent_goes_on n st)" "loops_inv p c t s (child_goes_on n st)"
    "loops_inv p c t s (parent_piped n st)" "loops_inv p c t s (child_piped n st)"
  using i loops_inv_stopped [OF i]
  by (auto simp: goes_on_defs loops_inv_def Let_def split: proxy_at.splits option.splits prod.splits)

lemma loops_inv_event: "loops_inv p c t s st \<Longrightarrow> loops_inv p c t s (proxy_happens e st)"
  by (cases e) (simp_all add: loops_inv_goes_on, auto simp: loops_inv_def split: proxy_at.splits)

lemma loops_inv_run: "loops_inv p c t s (proxy_run es (proxy_start n fd fds p c t s))"
proof -
  have "loops_inv p c t s st \<Longrightarrow> loops_inv p c t s (fold proxy_happens es st)" for st :: "'a proxy"
    by (induction es arbitrary: st) (simp_all add: loops_inv_event)
  then show ?thesis by (simp add: proxy_run_def proxy_start_def loops_inv_def)
qed

lemma interleaving_is_loops:
  assumes "st = proxy_run es (proxy_start n fd fds p c t s)"
  shows "px_to_target st = proxy_to_target (px_parent_reads st) p t"
    "px_to_client st = proxy_to_client (px_child_reads st) c s"
  using loops_inv_stopped [OF loops_inv_run] assms by metis+

subsection \<open>What goes out\<close>

lemma proxy_to_client_spec:
  assumes "so_takes so = []" "[] \<notin> set rs"
  shows "so_sent (proxy_to_client rs buf so) = so_sent so @ concat rs"
  using assms by (induction rs arbitrary: buf so) (auto simp: child_turn_def sock_write_def Let_def)

lemma proxy_to_target_spec:
  assumes "so_takes so = []" "\<forall>r \<in> set rs. r \<noteq> [] \<and> length r \<le> length buf"
  shows "\<exists>blocks. so_sent (proxy_to_target rs buf so) = so_sent so @ concat blocks
     \<and> list_all2 (\<lambda>b r. length b = length buf \<and> take (length r) b = r) blocks rs"
  using assms
proof (induction rs arbitrary: buf so)
  case Nil
  then show ?case by (intro exI [of _ "[]"]) simp
next
  case (Cons r rs)
  let ?buf = "r @ drop (length r) buf"
  have len: "length ?buf = length buf" using Cons.prems(2) by simp
  obtain blocks where b: "so_sent (proxy_to_target rs ?buf (so\<lparr>so_sent := so_sent so @ ?buf\<rparr>))
      = so_sent so @ ?buf @ concat blocks"
    "list_all2 (\<lambda>b r. length b = length buf \<and> take (length r) b = r) blocks rs"
    using Cons.IH [of "so\<lparr>so_sent := so_sent so @ ?buf\<rparr>" ?buf] Cons.prems unfolding len by auto
  then show ?case using Cons.prems len
    by (intro exI [of _ "?buf # blocks"]) (simp add: parent_turn_def sock_write_def Let_def)
qed

text \<open>The proxy hands the answer of the target on byte for byte, but not the request: each
  piece it reads from the client goes out as a block of the whole buffer, of which only the
  front is the piece.\<close>

lemma proxy_pads_requests:
  assumes "so_takes so = []" and "length buf = 1024" and "\<forall>r \<in> set rs. r \<noteq> [] \<and> length r \<le> 1024"
  shows "so_sent (proxy_to_client rs buf so) = so_sent so @ concat rs
     \<and> (\<exists>blocks. so_sent (proxy_to_target rs buf so) = so_sent so @ concat blocks
          \<and> list_all2 (\<lambda>b r. length b = 1024 \<and> take (length r) b = r) blocks rs)"
proof
  show "so_sent (proxy_to_client rs buf so) = so_sent so @ concat rs"
    by (rule proxy_to_client_spec [OF assms(1)]) (use assms(3) in blast)
  show "\<exists>blocks. so_sent (proxy_to_target rs buf so) = so_sent so @ concat blocks
      \<and> list_all2 (\<lambda>b r. length b = 1024 \<and> take (length r) b = r) blocks rs"
    using proxy_to_target_spec [OF assms(1), of rs buf] assms(3) unfolding assms(2) by blast
qed

lemma proxy_pads_requests_witness:
  "\<exists>b. so_sent (proxy_to_target [''GET /''] (replicate 1024 NUL) \<lparr>so_sent = [], so_takes = []\<rparr>) = b
     \<and> length b = 1024 \<and> take (length ''GET /'') b = ''GET /''"
  using proxy_pads_requests [of "\<lparr>so_sent = [], so_takes = []\<rparr>" "replicate 1024 NUL" "[''GET /'']"]
  by (auto simp: list_all2_Cons2 simp del: proxy_to_target.simps proxy_to_client.simps take_Suc_Cons)

text \<open>How far the processes have come, and what they still have open.\<close>

lemma target_text_snoc:
  "target_text (es @ [e]) = target_text es @ (case e of TargetSends s \<Rightarrow> if TargetEnds \<in> set es then [] else s | _ \<Rightarrow> [])"
  by (induction es rule: target_text.induct) (auto split: proxy_event.splits)

lemma turns_healthy:
  assumes "so_takes so = []"
  shows "\<exists>buf'. child_turn r buf so = (Some buf', so\<lparr>so_sent := so_sent so @ r\<rparr>)"
    "\<exists>buf'. parent_turn r buf so = (Some buf', so\<lparr>so_sent := so_sent so @ buf'\<rparr>)"
  using assms by (auto simp: child_turn_def parent_turn_def sock_write_def Let_def)

lemma sys_read_some:
  assumes "sys_read arrived closed n = Some (r, rest)"
  shows "arrived = r @ rest" "r = [] \<Longrightarrow> closed \<and> rest = []"
  using assms by (auto simp: sys_read_def Let_def max_def min_def split: if_splits)

definition fds_at :: "'f fd_table \<Rightarrow> nat \<Rightarrow> proxy_at \<Rightarrow> 'f fd_table" where
  "fds_at fds closes at =
     (case at of Copying _ \<Rightarrow> fds | AtClose \<Rightarrow> fds | AtReturn \<Rightarrow> fds(closes := None) | Gone \<Rightarrow> Map.empty)"

lemma fds_at_simps [simp]:
  "fds_at fds closes (Copying buf) = fds" "fds_at fds closes AtClose = fds"
  "fds_at fds closes AtReturn = fds(closes := None)" "fds_at fds closes Gone = Map.empty"
  by (simp_all add: fds_at_def)

definition ends_inv :: "nat \<Rightarrow> nat \<Rightarrow> 'f fd_table \<Rightarrow> string \<Rightarrow> proxy_event list \<Rightarrow> 'f proxy \<Rightarrow> bool" where
  "ends_inv n fd fds sent es st \<longleftrightarrow>
     px_socket_num st = n \<and> px_fd st = fd
   \<and> so_takes (px_to_target st) = [] \<and> so_takes (px_to_client st) = []
   \<and> (px_client_done st \<longleftrightarrow> ClientEnds \<in> set es) \<and> (px_target_done st \<longleftrightarrow> TargetEnds \<in> set es)
   \<and> (\<not> copying (px_parent st) \<longrightarrow> ClientEnds \<in> set es \<or> TargetEnds \<in> set es \<and> (\<exists>k. ParentPiped k \<in> set es))
   \<and> (\<not> copying (px_child st) \<longrightarrow> TargetEnds \<in> set es \<or> ClientEnds \<in> set es \<and> (\<exists>k. ChildPiped k \<in> set es))
   \<and> px_parent_fds st = fds_at fds fd (px_parent st) \<and> px_child_fds st = fds_at fds n (px_child st)
   \<and> ((\<forall>k. ChildPiped k \<notin> set es) \<longrightarrow>
        so_sent (px_to_client st) @ px_from_target st = sent @ target_text es
      \<and> (\<not> copying (px_child st) \<longrightarrow> TargetEnds \<in> set es \<and> px_from_target st = []))"

lemma ends_inv_parent:
  assumes i: "ends_inv n fd fds sent es st"
  shows "ends_inv n fd fds sent (es @ [ParentGoesOn k]) (parent_goes_on k st)"
proof (cases "px_parent st")
  case (Copying buf)
  show ?thesis
  proof (cases "sys_read (px_from_client st) (px_client_done st) k")
    case (Some rr)
    obtain r rest where r: "rr = (r, rest)" by (cases rr)
    obtain buf' where "parent_turn r buf (px_to_target st)
        = (Some buf', (px_to_target st)\<lparr>so_sent := so_sent (px_to_target st) @ buf'\<rparr>)"
      using turns_healthy(2) [of "px_to_target st" r buf] i by (auto simp: ends_inv_def)
    then show ?thesis using i Copying Some r sys_read_some(2) [OF Some [unfolded r]]
      by (auto simp: ends_inv_def parent_goes_on_def target_text_snoc Let_def)
  qed (use i Copying in \<open>simp add: ends_inv_def parent_goes_on_def target_text_snoc\<close>)
qed (use i in \<open>simp_all add: ends_inv_def parent_goes_on_def target_text_snoc sys_close_def\<close>)

lemma ends_inv_child:
  assumes i: "ends_inv n fd fds sent es st"
  shows "ends_inv n fd fds sent (es @ [ChildGoesOn k]) (child_goes_on k st)"
proof (cases "px_child st")
  case (Copying buf)
  show ?thesis
  proof (cases "sys_read (px_from_target st) (px_target_done st) k")
    case (Some rr)
    obtain r rest where r: "rr = (r, rest)" by (cases rr)
    obtain buf' where "child_turn r buf (px_to_client st)
        = (Some buf', (px_to_client st)\<lparr>so_sent := so_sent (px_to_client st) @ r\<rparr>)"
      using turns_healthy(1) [of "px_to_client st" r buf] i by (auto simp: ends_inv_def)
    then show ?thesis using i Copying Some r sys_read_some [OF Some [unfolded r]]
      by (auto simp: ends_inv_def child_goes_on_def target_text_snoc Let_def)
  qed (use i Copying in \<open>simp add: ends_inv_def child_goes_on_def target_text_snoc\<close>)
qed (use i in \<open>auto simp: ends_inv_def child_goes_on_def target_text_snoc sys_close_def\<close>)

lemma piped_cases:
  "parent_piped k st = st \<or> px_target_done st \<and> (\<exists>rest. parent_piped k st
     = st\<lparr>px_from_client := rest, px_parent := Gone, px_parent_fds := Map.empty\<rparr>)"
  "child_piped k st = st \<or> px_client_done st \<and> (\<exists>rest. child_piped k st
     = st\<lparr>px_from_target := rest, px_child := Gone, px_child_fds := Map.empty\<rparr>)"
  unfolding parent_piped_def child_piped_def
  by (auto split: proxy_at.split option.split)

lemma ends_inv_piped:
  assumes i: "ends_inv n fd fds sent es st"
  shows "ends_inv n fd fds sent (es @ [ParentPiped k]) (parent_piped k st)"
    "ends_inv n fd fds sent (es @ [ChildPiped k]) (child_piped k st)"
proof -
  have p: "ends_inv n fd fds sent (es @ [ParentPiped k]) st" and c: "ends_inv n fd fds sent (es @ [ChildPiped k]) st"
    using i by (simp_all add: ends_inv_def target_text_snoc) blast+
  consider "parent_piped k st = st" | rest where "px_target_done st"
    "parent_piped k st = st\<lparr>px_from_client := rest, px_parent := Gone, px_parent_fds := Map.empty\<rparr>"
    using piped_cases(1) [of k st] by blast
  then show "ends_inv n fd fds sent (es @ [ParentPiped k]) (parent_piped k st)"
  proof cases
    case 2
    then show ?thesis unfolding 2(2) using p by (simp add: ends_inv_def) blast
  qed (use p in simp)
  consider "child_piped k st = st" | rest where "px_client_done st"
    "child_piped k st = st\<lparr>px_from_target := rest, px_child := Gone, px_child_fds := Map.empty\<rparr>"
    using piped_cases(2) [of k st] by blast
  then show "ends_inv n fd fds sent (es @ [ChildPiped k]) (child_piped k st)"
  proof cases
    case 2
    then show ?thesis unfolding 2(2) using c by (simp add: ends_inv_def) blast
  qed (use c in simp)
qed

lemma ends_inv_happens:
  assumes "ends_inv n fd fds sent es st"
  shows "ends_inv n fd fds sent (es @ [e]) (proxy_happens e st)"
proof (cases e)
  case (ParentGoesOn k)
  then show ?thesis using ends_inv_parent [OF assms] by simp
next
  case (ChildGoesOn k)
  then show ?thesis using ends_inv_child [OF assms] by simp
next
  case (ParentPiped k)
  then show ?thesis using ends_inv_piped(1) [OF assms] by simp
next
  case (ChildPiped k)
  then show ?thesis using ends_inv_piped(2) [OF assms] by simp
qed (use assms in \<open>auto simp: ends_inv_def target_text_snoc\<close>)

lemma ends_inv_run:
  assumes "so_takes target = []" "so_takes client = []"
  shows "ends_inv n fd fds (so_sent client) es (proxy_run es (proxy_start n fd fds parent_buf child_buf target client))"
  using assms
  by (induction es rule: rev_induct)
    (simp_all add: proxy_run_def ends_inv_happens, simp add: ends_inv_def proxy_start_def)

text \<open>The set-up opens one descriptor more.\<close>

lemma proxy_setup_opened:
  assumes "proxy_setup os fds target = Inr (n, fds')"
  shows "fds n = None \<and> fds' = fds(n \<mapsto> target)"
  using assms new_fd_Some [of fds]
  by (auto simp: proxy_setup_def sys_open_def free_fds_def split: option.splits if_splits)

lemma hung_up_both_left:
  assumes i: "ends_inv n fd fds sent es st" and "fd \<noteq> n" "fds fd = Some client" "fds n = Some target"
    and "hung_up_on client st \<or> hung_up_on target st"
  shows "\<not> copying (px_parent st)" "\<not> copying (px_child st)"
proof -
  have "client \<in> ran fds" "target \<in> ran fds" using assms(3,4) by (auto intro: ranI)
  moreover have "px_parent_fds st = fds_at fds fd (px_parent st)" "px_child_fds st = fds_at fds n (px_child st)"
    using i by (simp_all add: ends_inv_def)
  ultimately show "\<not> copying (px_parent st)" "\<not> copying (px_child st)"
    using assms(5) by (cases "px_parent st"; cases "px_child st"; auto simp: hung_up_on_def)+
qed

text \<open>A parent that has nothing to read waits, as long as the client does nothing.\<close>

fun from_client :: "proxy_event \<Rightarrow> bool" where
  "from_client (ClientSends s) = True"
| "from_client ClientEnds = True"
| "from_client _ = False"

definition waits :: "'f fd_table \<Rightarrow> 'f proxy \<Rightarrow> bool" where
  "waits fds st \<longleftrightarrow> copying (px_parent st) \<and> px_from_client st = [] \<and> \<not> px_client_done st \<and> px_parent_fds st = fds"

lemma waits_happens: "waits fds st \<Longrightarrow> \<not> from_client e \<Longrightarrow> waits fds (proxy_happens e st)"
  by (cases e)
    (auto simp: waits_def goes_on_defs sys_read_def Let_def split: proxy_at.splits option.splits prod.splits)

lemma waits_run: "waits fds st \<Longrightarrow> list_all (\<lambda>e. \<not> from_client e) es \<Longrightarrow> waits fds (proxy_run es st)"
  by (induction es arbitrary: st) (simp_all add: proxy_run_def waits_happens)



end
