(* ===== verification/Hw2Serve.thy ===== *)
theory Hw2Serve
  imports Hw2Server Hw2Proxy
begin

text \<open>
  The processes of hw2/httpserver.c: \<open>serve_forever\<close> accepts connections and forks a child for
  each, a signal ends it. What happens is a list of events; between them the server waits in
  \<open>accept\<close>. The server never waits for its children, so an ended child keeps its place in the
  table of processes, which has \<open>limit\<close> places for them. A SIGINT is one to the server; what it
  does to the children, and what is printed, is not modelled.
\<close>

datatype web_file = Stream string | Listening "32 word" | Connection nat

text \<open>A child: its end of the connection, its descriptors when \<open>request_handler\<close> is called, the
  connection, and what the handler did once it has returned.\<close>

record 'r web_child =
  wc_socket :: nat
  wc_fds :: "web_file fd_table"
  wc_client :: nat
  wc_done :: "'r option"

record 'r web =
  wb_fds :: "web_file fd_table"
  wb_children :: "'r web_child list"

datatype 'r web_end = Waiting "'r web" | Exits int "'r web"

definition EAGAIN :: int where "EAGAIN = 11"

text \<open>\<open>Accepts client errno\<close>: a connection, and what \<open>fork\<close> would say (0: it succeeds, if there is a
  place). \<open>AcceptFails\<close>: an error of \<open>accept\<close>. \<open>ChildEnds i\<close>: child \<open>i\<close> runs to its end.\<close>

datatype web_event = Accepts nat int | AcceptFails | ChildEnds nat | Interrupt

text \<open>The child of \<open>fork\<close>; its table is a copy without the listening socket.\<close>

definition child_process :: "web_file fd_table \<Rightarrow> nat \<Rightarrow> nat \<Rightarrow> nat \<Rightarrow> 'r web_child" where
  "child_process fds socket_number client_socket_number client =
     \<lparr>wc_socket = client_socket_number, wc_fds = sys_close fds (Some socket_number),
      wc_client = client, wc_done = None\<rparr>"

definition child_ends :: "(nat \<Rightarrow> 'r) \<Rightarrow> 'r web_child \<Rightarrow> 'r web_child" where
  "child_ends request_handler ch =
     (if wc_done ch = None then ch\<lparr>wc_done := Some (request_handler (wc_client ch))\<rparr> else ch)"

text \<open>\<open>signal_callback_handler\<close>: it closes \<open>server_fd\<close> and exits.\<close>

definition signal_callback_handler :: "nat \<Rightarrow> 'r web \<Rightarrow> 'r web_end" where
  "signal_callback_handler server_fd w =
     Exits 0 (w\<lparr>wb_fds := sys_close (wb_fds w) (Some server_fd)\<rparr>)"

fun serve_loop :: "(nat \<Rightarrow> 'r) \<Rightarrow> nat \<Rightarrow> nat \<Rightarrow> web_event list \<Rightarrow> 'r web \<Rightarrow> 'r web_end" where
  "serve_loop request_handler limit socket_number [] w = Waiting w"
| "serve_loop request_handler limit socket_number (e # es) w =
     (case e of
        AcceptFails \<Rightarrow> serve_loop request_handler limit socket_number es w
      | ChildEnds i \<Rightarrow>
          serve_loop request_handler limit socket_number es
            (if i < length (wb_children w)
             then w\<lparr>wb_children := (wb_children w)[i := child_ends request_handler (wb_children w ! i)]\<rparr>
             else w)
      | Interrupt \<Rightarrow> signal_callback_handler socket_number w
      | Accepts client errno \<Rightarrow>
          (case sys_open (wb_fds w) True (Connection client) of
             (None, fds) \<Rightarrow> serve_loop request_handler limit socket_number es w
           | (Some client_socket_number, fds) \<Rightarrow>
               let errno = (if limit \<le> length (wb_children w) then EAGAIN else errno) in
               if errno \<noteq> 0 then Exits errno (w\<lparr>wb_fds := fds\<rparr>)
               else serve_loop request_handler limit socket_number es
                      (w\<lparr>wb_fds := sys_close fds (Some client_socket_number),
                         wb_children := wb_children w @
                           [child_process fds socket_number client_socket_number client]\<rparr>)))"

definition serve_forever ::
    "(nat \<Rightarrow> 'r) \<Rightarrow> listen_os \<Rightarrow> 32 word \<Rightarrow> nat \<Rightarrow> web_file fd_table \<Rightarrow> web_event list \<Rightarrow> 'r web_end" where
  "serve_forever request_handler os server_port limit fds es =
     (case open_listener os (Listening server_port) fds of
        Inl errno \<Rightarrow> Exits errno \<lparr>wb_fds = fds, wb_children = []\<rparr>
      | Inr (socket_number, fds) \<Rightarrow>
          serve_loop request_handler limit socket_number es \<lparr>wb_fds = fds, wb_children = []\<rparr>)"

text \<open>\<open>main\<close>; the handlers get the directory, or host and port of the target. The first contents of
  the directory are \<open>cwd\<close>, and \<open>None\<close> is what \<open>hw2_main_args\<close> leaves undefined.\<close>

definition hw2_main ::
    "(string \<Rightarrow> nat \<Rightarrow> 'r) \<Rightarrow> (string \<Rightarrow> 32 word \<Rightarrow> nat \<Rightarrow> 'r) \<Rightarrow> string \<Rightarrow> string list \<Rightarrow> listen_os \<Rightarrow> nat
       \<Rightarrow> web_file fd_table \<Rightarrow> web_event list \<Rightarrow> 'r web_end option" where
  "hw2_main files proxy cwd argv os limit fds es =
     (case hw2_main_args (tl argv) (hw2_defaults cwd) of
        None \<Rightarrow> None
      | Some (Inl _) \<Rightarrow> Some (Exits 0 \<lparr>wb_fds = fds, wb_children = []\<rparr>)
      | Some (Inr cf) \<Rightarrow>
          let request_handler = (if cf_proxy cf then proxy (cf_proxy_host cf) (cf_proxy_port cf)
                                 else files (cf_files cf))
          in Some (serve_forever request_handler os (cf_port cf) limit fds es))"

text \<open>The connections among the events, and the children for them.\<close>

fun accepted :: "web_event list \<Rightarrow> nat list" where
  "accepted [] = []"
| "accepted (Accepts client errno # es) = client # accepted es"
| "accepted (e # es) = accepted es"

definition served_alone :: "web_file fd_table \<Rightarrow> nat \<Rightarrow> (nat \<Rightarrow> 'r) \<Rightarrow> 'r web_child \<Rightarrow> bool" where
  "served_alone fds socket_number request_handler ch \<longleftrightarrow>
     wc_fds ch = (sys_close fds (Some socket_number))(wc_socket ch \<mapsto> Connection (wc_client ch))
   \<and> fds (wc_socket ch) = None
   \<and> (wc_done ch = None \<or> wc_done ch = Some (request_handler (wc_client ch)))"

definition web_inv :: "web_file fd_table \<Rightarrow> nat \<Rightarrow> (nat \<Rightarrow> 'r) \<Rightarrow> nat list \<Rightarrow> 'r web \<Rightarrow> bool" where
  "web_inv fds socket_number request_handler clients w \<longleftrightarrow>
     wb_fds w = fds \<and> map wc_client (wb_children w) = clients
   \<and> (\<forall>ch \<in> set (wb_children w). served_alone fds socket_number request_handler ch)"

lemma served_alone_ends:
  "served_alone fds sn h ch \<Longrightarrow> served_alone fds sn h (child_ends h ch)"
  by (auto simp: served_alone_def child_ends_def)

lemma child_ends_client [simp]: "wc_client (child_ends h ch) = wc_client ch"
  by (simp add: child_ends_def)

lemma web_inv_ends:
  assumes "web_inv fds sn h clients w" "i < length (wb_children w)"
  shows "web_inv fds sn h clients (w\<lparr>wb_children := (wb_children w)[i := child_ends h (wb_children w ! i)]\<rparr>)"
proof -
  have "map wc_client ((wb_children w)[i := child_ends h (wb_children w ! i)]) = map wc_client (wb_children w)"
    using assms(2) by (simp add: map_update list_update_same_conv)
  moreover have "\<forall>ch \<in> set ((wb_children w)[i := child_ends h (wb_children w ! i)]). served_alone fds sn h ch"
  proof
    fix ch
    assume "ch \<in> set ((wb_children w)[i := child_ends h (wb_children w ! i)])"
    then have "ch \<in> set (wb_children w) \<or> ch = child_ends h (wb_children w ! i)"
      using set_update_subset_insert by fastforce
    moreover have "wb_children w ! i \<in> set (wb_children w)" using assms(2) by simp
    ultimately show "served_alone fds sn h ch"
      using assms(1) served_alone_ends unfolding web_inv_def by metis
  qed
  ultimately show ?thesis using assms(1) by (simp add: web_inv_def)
qed

lemma web_inv_accepts:
  assumes i: "web_inv fds sn h clients w" and n: "n \<in> free_fds fds" and sn: "fds sn \<noteq> None"
  shows "web_inv fds sn h (clients @ [client])
    (w\<lparr>wb_fds := sys_close (fds(n \<mapsto> Connection client)) (Some n),
       wb_children := wb_children w @ [child_process (fds(n \<mapsto> Connection client)) sn n client]\<rparr>)"
proof -
  have f: "fds n = None" "n \<noteq> sn" using n sn by (auto simp: free_fds_def)
  then have "served_alone fds sn h (child_process (fds(n \<mapsto> Connection client)) sn n client)"
    by (auto simp: served_alone_def child_process_def sys_close_def fun_eq_iff)
  then show ?thesis using i f n by (simp add: web_inv_def sys_close_opened child_process_def)
qed

lemma serve_loop_inv:
  assumes "web_inv fds sn h clients w" and "free_fds fds \<noteq> {}" "fds sn \<noteq> None" and "Interrupt \<notin> set es"
    and "\<forall>client errno. Accepts client errno \<in> set es \<longrightarrow> errno = 0"
    and "length clients + length (accepted es) \<le> limit"
  shows "\<exists>w'. serve_loop h limit sn (es @ fs) w = serve_loop h limit sn fs w'
     \<and> web_inv fds sn h (clients @ accepted es) w'"
  using assms
proof (induction es arbitrary: w clients)
  case Nil
  then show ?case by auto
next
  case (Cons e es)
  have rest: "Interrupt \<notin> set es" "\<forall>client errno. Accepts client errno \<in> set es \<longrightarrow> errno = 0"
    using Cons.prems(4,5) by auto
  show ?case
  proof (cases e)
    case (Accepts client errno)
    then have e: "e = Accepts client 0" using Cons.prems(5) by auto
    obtain n where n: "sys_open fds True (Connection client) = (Some n, fds(n \<mapsto> Connection client))"
      "n \<in> free_fds fds" using sys_open_some [OF Cons.prems(2)] by blast
    have w: "wb_fds w = fds" "length (wb_children w) = length clients"
      using Cons.prems(1) unfolding web_inv_def by auto
    have room: "length (clients @ [client]) + length (accepted es) \<le> limit" "length clients < limit"
      using Cons.prems(6) e by simp_all
    from Cons.IH [OF web_inv_accepts [OF Cons.prems(1) n(2) Cons.prems(3)] Cons.prems(2,3) rest room(1)]
    show ?thesis using n(1) w room(2) by (simp add: e Let_def)
  next
    case (ChildEnds i)
    have le: "length clients + length (accepted es) \<le> limit" using Cons.prems(6) ChildEnds by simp
    show ?thesis
      using Cons.IH [OF web_inv_ends [OF Cons.prems(1)] Cons.prems(2,3) rest le]
        Cons.IH [OF Cons.prems(1,2,3) rest le] ChildEnds
      by (cases "i < length (wb_children w)") simp_all
  qed (use Cons.IH [OF Cons.prems(1,2,3) rest] Cons.prems(4,6) in simp_all)
qed

lemma serve_forever_inv:
  assumes "open_listener os (Listening server_port) fds = Inr (socket_number, fds')"
    and "free_fds fds' \<noteq> {}" and "Interrupt \<notin> set es"
    and "\<forall>client errno. Accepts client errno \<in> set es \<longrightarrow> errno = 0" and "length (accepted es) \<le> limit"
  shows "\<exists>w. serve_forever request_handler os server_port limit fds (es @ fs)
       = serve_loop request_handler limit socket_number fs w
     \<and> web_inv fds' socket_number request_handler (accepted es) w"
proof -
  have "fds' socket_number \<noteq> None" using open_listener_opened(1) [OF assms(1)] by simp
  moreover have "web_inv fds' socket_number request_handler [] \<lparr>wb_fds = fds', wb_children = []\<rparr>"
    by (simp add: web_inv_def)
  ultimately show ?thesis
    using serve_loop_inv [of fds' socket_number request_handler "[]" _ es limit fs] assms
    by (auto simp: serve_forever_def)
qed

subsection \<open>Properties\<close>

text \<open>C32: the server hands each connection to a child of its own. While it is not interrupted, forks
  succeed and there is a place for each child, it goes on waiting with its descriptors as they
  were; there is one child for each accepted connection, in the order they came, which has the
  server's descriptors with the connection in place of the listening socket, and whose result, once
  it has ended, is the handler's for that connection.\<close>

theorem each_connection_one_child:
  assumes "open_listener os (Listening server_port) fds = Inr (socket_number, fds')"
    and "free_fds fds' \<noteq> {}" and "Interrupt \<notin> set es"
    and "\<forall>client errno. Accepts client errno \<in> set es \<longrightarrow> errno = 0" and "length (accepted es) \<le> limit"
  shows "\<exists>w. serve_forever request_handler os server_port limit fds es = Waiting w
     \<and> wb_fds w = fds' \<and> map wc_client (wb_children w) = accepted es
     \<and> (\<forall>ch \<in> set (wb_children w).
          wc_fds ch = (sys_close fds' (Some socket_number))(wc_socket ch \<mapsto> Connection (wc_client ch))
        \<and> fds' (wc_socket ch) = None
        \<and> (wc_done ch = None \<or> wc_done ch = Some (request_handler (wc_client ch))))"
  using serve_forever_inv [OF assms, of request_handler "[]"]
  by (auto simp: web_inv_def served_alone_def)

text \<open>C34: children are never waited for. Once as many connections have been accepted as there are
  places for processes, the next one makes the server itself exit, even if all its children have
  long ended.\<close>

theorem processes_run_out:
  assumes "open_listener os (Listening server_port) fds = Inr (socket_number, fds')"
    and "free_fds fds' \<noteq> {}" and "Interrupt \<notin> set es"
    and "\<forall>client errno. Accepts client errno \<in> set es \<longrightarrow> errno = 0" and "length (accepted es) = limit"
  shows "\<exists>w. serve_forever request_handler os server_port limit fds (es @ Accepts client 0 # fs) = Exits EAGAIN w
     \<and> map wc_client (wb_children w) = accepted es"
proof -
  obtain w where w: "serve_forever request_handler os server_port limit fds (es @ Accepts client 0 # fs)
      = serve_loop request_handler limit socket_number (Accepts client 0 # fs) w"
    "web_inv fds' socket_number request_handler (accepted es) w"
    using serve_forever_inv [OF assms(1-4)] assms(5) by blast
  obtain n where n: "sys_open fds' True (Connection client) = (Some n, fds'(n \<mapsto> Connection client))"
    using sys_open_some [OF assms(2)] by blast
  have "wb_fds w = fds'" "map wc_client (wb_children w) = accepted es" "length (wb_children w) = limit"
    using w(2) assms(5) unfolding web_inv_def by (simp_all flip: length_map [of wc_client])
  with w(1) n show ?thesis by (simp add: Let_def EAGAIN_def)
qed

subsection \<open>Examples\<close>

definition terminal_fds :: "web_file fd_table" where
  "terminal_fds = (\<lambda>n. if n < 3 then Some (Stream ''tty'') else None)"

definition listen_ok :: listen_os where
  "listen_ok = \<lparr>ls_socket = 0, ls_setsockopt = 0, ls_bind = 0, ls_listen = 0\<rparr>"

lemma terminal_listens:
  "\<exists>socket_number fds. open_listener listen_ok (Listening port) terminal_fds = Inr (socket_number, fds)
     \<and> free_fds fds \<noteq> {}"
proof -
  have free: "3 \<in> free_fds terminal_fds" "4 \<in> free_fds terminal_fds"
    by (simp_all add: free_fds_def FD_LIMIT_def terminal_fds_def)
  then have "free_fds terminal_fds \<noteq> {}" by blast
  then obtain n where "open_listener listen_ok (Listening port) terminal_fds
      = Inr (n, terminal_fds(n \<mapsto> Listening port))"
    by (rule sys_open_some [of terminal_fds "Listening port"]) (simp add: open_listener_def listen_ok_def)
  moreover have "\<not> free_fds terminal_fds \<subseteq> {n}"
  proof
    assume "free_fds terminal_fds \<subseteq> {n}"
    then have "3 = n" "4 = n" using free by blast+
    then show False by simp
  qed
  ultimately show ?thesis
    by (intro exI [of _ n] exI [of _ "terminal_fds(n \<mapsto> Listening port)"]) (simp add: free_fds_taken)
qed

definition files_handler :: "string \<Rightarrow> nat \<Rightarrow> hw2_end option" where
  "files_handler dir client =
     handle_files_request www0 dir NUL (Some (''GET /a.html HTTP/1.0'' @ [LF2])) sock0"

lemma each_connection_one_child_witness:
  "\<exists>w. hw2_main files_handler (\<lambda>host port client. None) ''/'' [''httpserver'', ''--files'', ''w'']
       listen_ok 5 terminal_fds [Accepts 1 0, AcceptFails, Accepts 2 0, ChildEnds 0] = Some (Waiting w)
     \<and> map wc_client (wb_children w) = [1, 2]"
proof -
  let ?es = "[Accepts 1 0, AcceptFails, Accepts 2 0, ChildEnds 0]"
  obtain sn fds where "open_listener listen_ok (Listening 8000) terminal_fds = Inr (sn, fds)" "free_fds fds \<noteq> {}"
    using terminal_listens by blast
  from each_connection_one_child [OF this, of ?es 5 "files_handler ''w''"]
  obtain w where "serve_forever (files_handler ''w'') listen_ok 8000 5 terminal_fds ?es = Waiting w"
    "map wc_client (wb_children w) = [1, 2]" by auto
  then show ?thesis by (simp add: hw2_main_def hw2_defaults_def)
qed

lemma processes_run_out_witness:
  "\<exists>w. serve_forever (files_handler ''w'') listen_ok 8000 1 terminal_fds
       [Accepts 1 0, ChildEnds 0, Accepts 2 0, AcceptFails] = Exits EAGAIN w
     \<and> map wc_client (wb_children w) = [1]"
proof -
  obtain sn fds where "open_listener listen_ok (Listening 8000) terminal_fds = Inr (sn, fds)" "free_fds fds \<noteq> {}"
    using terminal_listens by blast
  from processes_run_out [OF this, of "[Accepts 1 0, ChildEnds 0]" 1 "files_handler ''w''" 2 "[AcceptFails]"]
  show ?thesis by simp
qed

end
