(* ===== verification/ShellParse.thy ===== *)
theory ShellParse
  imports CText
begin

text \<open>
  Input and tokens of the shell of hw1 (hw1/io.c, hw1/parse.c). \<open>strtok\<close> writes into the line:
  a line is a buffer with its terminator, and a token is a position in it. \<open>tok_strings\<close> reads the
  tokens of the array through the buffer.

  The lemmas show that the tokens read after all writes are the words of the line, the pieces
  between separators that are not empty.
\<close>

definition MAXLINE :: nat where "MAXLINE = 1024"
definition MAXTOKS :: nat where "MAXTOKS = 100"

text \<open>\<open>fgets\<close> on the rest of the input, with room for \<open>n\<close> characters.\<close>

fun fgets :: "nat \<Rightarrow> string \<Rightarrow> string \<times> string" where
  "fgets 0 s = ([], s)"
| "fgets (Suc n) [] = ([], [])"
| "fgets (Suc n) (c # s) =
     (if c = CHR 0x0A then ([c], s) else case fgets n s of (l, r) \<Rightarrow> (c # l, r))"

text \<open>The line, as the buffer the copy gets, and the rest of the input; \<open>None\<close> is NULL.\<close>

definition freadln :: "string \<Rightarrow> (string \<times> string) option" where
  "freadln ifile =
     (if ifile = [] then None
      else case fgets (MAXLINE - 1) ifile of
        (line, rest) \<Rightarrow> Some (takeWhile (\<lambda>c. c \<noteq> NUL) line @ [NUL], rest))"

lemma fgets_rest: "fgets n s = (l, r) \<Longrightarrow> s = l @ r \<and> (n = 0 \<or> s = [] \<or> l \<noteq> [])"
  by (induction n s arbitrary: l r rule: fgets.induct) (auto split: if_splits prod.splits)

lemma freadln_shorter: "freadln s = Some (l, r) \<Longrightarrow> length r < length s"
  using fgets_rest [of "MAXLINE - 1" s]
  by (auto simp: freadln_def MAXLINE_def split: if_splits prod.splits)

subsection \<open>Tokens\<close>

definition TOKseparator :: "char list" where
  "TOKseparator = [CHR '' '', CHR 0x0A, CHR '':'']"

definition is_sep :: "char \<Rightarrow> bool" where
  "is_sep c \<longleftrightarrow> c \<in> set TOKseparator"

text \<open>\<open>strtok\<close> from a position: the token, the buffer with its end overwritten, and the position
  for the next call.\<close>

definition strtok :: "string \<Rightarrow> nat \<Rightarrow> nat option \<times> string \<times> nat" where
  "strtok buf p =
     (let cs = takeWhile (\<lambda>c. c \<noteq> NUL) (drop p buf);
          skip = length (takeWhile is_sep cs);
          tok = takeWhile (\<lambda>c. \<not> is_sep c) (drop skip cs);
          e = p + skip + length tok
      in if tok = [] then (None, buf, p + skip)
         else if e = p + length cs then (Some (p + skip), buf, e)
         else (Some (p + skip), buf[e := NUL], e + 1))"

text \<open>The loop of \<open>get_toks\<close> with \<open>n\<close> places left.\<close>

fun get_toks_loop :: "nat \<Rightarrow> nat option \<times> string \<times> nat \<Rightarrow> nat option list \<times> string" where
  "get_toks_loop 0 (c, buf, p) = ([], buf)"
| "get_toks_loop (Suc n) (c, buf, p) =
     (case c of
        None \<Rightarrow> (replicate (Suc n) None, buf)
      | Some s \<Rightarrow> (case get_toks_loop n (strtok buf p) of (toks, buf) \<Rightarrow> (Some s # toks, buf)))"

definition get_toks :: "string \<Rightarrow> nat option list \<times> string" where
  "get_toks line = get_toks_loop MAXTOKS (strtok line 0)"

text \<open>The tokens of the array as strings.\<close>

definition tok_at :: "string \<Rightarrow> nat \<Rightarrow> string" where
  "tok_at buf p = takeWhile (\<lambda>c. c \<noteq> NUL) (drop p buf)"

definition tok_strings :: "nat option list \<times> string \<Rightarrow> string option list" where
  "tok_strings r = (case r of (toks, buf) \<Rightarrow> map (map_option (tok_at buf)) toks)"

text \<open>\<open>fprint_tok\<close>, and \<open>is_direct_tok\<close> with a character as \<open>R\<close>.\<close>

fun fprint_tok :: "string option list \<Rightarrow> string" where
  "fprint_tok [] = [CHR 0x0A]"
| "fprint_tok (None # ts) = [CHR 0x0A]"
| "fprint_tok (Some t # ts) = t @ '' '' @ fprint_tok ts"

fun is_direct_tok_from :: "nat \<Rightarrow> nat \<Rightarrow> string option list \<Rightarrow> char \<Rightarrow> int" where
  "is_direct_tok_from i 0 t R = 0"
| "is_direct_tok_from i (Suc n) [] R = 0"
| "is_direct_tok_from i (Suc n) (None # t) R = 0"
| "is_direct_tok_from i (Suc n) (Some s # t) R =
     (if take 1 s = [R] then int i else is_direct_tok_from (i + 1) n t R)"

definition is_direct_tok :: "string option list \<Rightarrow> char \<Rightarrow> int" where
  "is_direct_tok t R = is_direct_tok_from 0 (MAXTOKS - 1) t R"

subsection \<open>The words of a line\<close>

definition line_words :: "string \<Rightarrow> string list" where
  "line_words s = filter (\<lambda>w. w \<noteq> []) (pieces is_sep s)"

lemma words_skip: "list_all is_sep sk \<Longrightarrow> line_words (sk @ s) = line_words s"
  by (induction sk) (auto simp: line_words_def)

lemma words_Nil [simp]: "line_words [] = []"
  by (simp add: line_words_def)

lemma words_word:
  assumes "list_all (\<lambda>c. \<not> is_sep c) w" "w \<noteq> []"
  shows "line_words w = [w]" "is_sep d \<Longrightarrow> line_words (w @ d # s) = w # line_words s"
  using assms by (simp_all add: line_words_def pieces_word pieces_last)

text \<open>A text is blank, or separators, a word and then its end or a separator.\<close>

lemma line_split:
  obtains (blank) "list_all is_sep s"
  | (final) sk w where "s = sk @ w" "list_all is_sep sk" "list_all (\<lambda>c. \<not> is_sep c) w" "w \<noteq> []"
  | (more) sk w d r where "s = sk @ w @ d # r" "list_all is_sep sk" "list_all (\<lambda>c. \<not> is_sep c) w"
      "w \<noteq> []" "is_sep d"
proof -
  define sk where "sk = takeWhile is_sep s"
  define t where "t = dropWhile is_sep s"
  define w where "w = takeWhile (\<lambda>c. \<not> is_sep c) t"
  define u where "u = dropWhile (\<lambda>c. \<not> is_sep c) t"
  have s: "s = sk @ t" "t = w @ u" by (simp_all add: sk_def t_def w_def u_def)
  have sk: "list_all is_sep sk" "list_all (\<lambda>c. \<not> is_sep c) w"
    unfolding sk_def w_def list_all_iff by (blast dest: set_takeWhileD)+
  show thesis
  proof (cases t)
    case Nil
    then show thesis using blank s sk by simp
  next
    case (Cons c t')
    then have "\<not> is_sep c" using hd_dropWhile [of is_sep s] by (simp add: t_def)
    then have w: "w \<noteq> []" using Cons by (simp add: w_def)
    show thesis
    proof (cases u)
      case Nil
      then show thesis using final s sk w by simp
    next
      case (Cons d r)
      then have "is_sep d" using hd_dropWhile [of "\<lambda>c. \<not> is_sep c" t] by (simp add: u_def)
      then show thesis using more s sk w Cons by simp
    qed
  qed
qed

lemma cstr_list_all: "cstr s \<longleftrightarrow> list_all (\<lambda>c. c \<noteq> NUL) s"
  by (auto simp: cstr_def list_all_iff)

lemma cstr_takeWhile: "cstr s \<Longrightarrow> takeWhile (\<lambda>c. c \<noteq> NUL) (s @ NUL # t) = s"
  unfolding cstr_list_all by (rule takeWhile_stop) simp_all

lemma tok_at_word: "cstr w \<Longrightarrow> tok_at (pre @ w @ NUL # t) (length pre) = w"
  unfolding tok_at_def by (simp add: cstr_takeWhile)

lemma strtok_blank:
  assumes "cstr s" "list_all is_sep s"
  shows "strtok (pre @ s @ [NUL]) (length pre) = (None, pre @ s @ [NUL], length pre + length s)"
  using assms(2) by (simp add: strtok_def Let_def takeWhile_all cstr_takeWhile [OF assms(1)])

lemma strtok_final:
  assumes "cstr (sk @ w)" "list_all is_sep sk" "list_all (\<lambda>c. \<not> is_sep c) w" "w \<noteq> []"
  shows "strtok (pre @ (sk @ w) @ [NUL]) (length pre)
     = (Some (length pre + length sk), pre @ (sk @ w) @ [NUL], length pre + length (sk @ w))"
proof -
  have "\<not> is_sep (hd w)" using assms(3,4) by (cases w) auto
  then have "takeWhile is_sep (sk @ w) = sk" using assms(2) by (intro takeWhile_stop) auto
  moreover have "takeWhile (\<lambda>c. c \<noteq> NUL) (sk @ w @ [NUL]) = sk @ w"
    using cstr_takeWhile [OF assms(1), of "[]"] by simp
  ultimately show ?thesis using assms(3,4) by (simp add: strtok_def Let_def takeWhile_all)
qed

lemma strtok_more:
  assumes "cstr (sk @ w @ d # r)" "list_all is_sep sk" "list_all (\<lambda>c. \<not> is_sep c) w" "w \<noteq> []" "is_sep d"
  shows "strtok (pre @ (sk @ w @ d # r) @ [NUL]) (length pre)
     = (Some (length pre + length sk), (pre @ sk @ w @ [NUL]) @ r @ [NUL], length (pre @ sk @ w @ [NUL]))"
proof -
  have "\<not> is_sep (hd w)" using assms(3,4) by (cases w) auto
  then have "takeWhile is_sep (sk @ w @ d # r) = sk" using assms(2,4) by (intro takeWhile_stop) auto
  moreover have "takeWhile (\<lambda>c. \<not> is_sep c) (w @ d # r) = w" using assms(3,5) by (intro takeWhile_stop) auto
  moreover have "takeWhile (\<lambda>c. c \<noteq> NUL) (sk @ w @ d # r @ [NUL]) = sk @ w @ d # r"
    using cstr_takeWhile [OF assms(1), of "[]"] by simp
  moreover have "(pre @ sk @ w @ d # r @ [NUL])[length pre + length sk + length w := NUL]
      = pre @ sk @ w @ NUL # r @ [NUL]"
    using list_update_length [of "pre @ sk @ w" d "r @ [NUL]" NUL] by (simp add: ac_simps)
  ultimately show ?thesis using assms(4) by (simp add: strtok_def Let_def)
qed

lemma take_Cons_replicate [simp]: "m \<le> Suc n \<Longrightarrow> take m (x # replicate n x) = replicate m x"
  by (simp only: replicate_Suc [symmetric] take_replicate min_absorb1)

text \<open>From a position on, the array gets the words that follow; the buffer in front of it keeps
  its contents and the buffer its terminator.\<close>

lemma get_toks_loop_spec:
  assumes "cstr rest"
  shows "\<exists>toks x. get_toks_loop n (strtok (pre @ rest @ [NUL]) (length pre)) = (toks, pre @ x @ [NUL])
     \<and> tok_strings (toks, pre @ x @ [NUL]) = take n (map Some (line_words rest) @ replicate n None)"
  using assms
proof (induction n arbitrary: pre rest)
  case 0
  show ?case
  proof (cases rule: line_split [of rest])
    case blank
    then show ?thesis using strtok_blank [OF 0 blank, of pre] by (simp add: tok_strings_def)
  next
    case (final sk w)
    then show ?thesis using strtok_final [of sk w pre] 0 by (simp add: tok_strings_def)
  next
    case (more sk w d r)
    then have "strtok (pre @ rest @ [NUL]) (length pre)
      = (Some (length pre + length sk), pre @ (sk @ w @ [NUL] @ r) @ [NUL], length (pre @ sk @ w @ [NUL]))"
      using strtok_more [of sk w d r pre] 0 by simp
    then show ?thesis unfolding tok_strings_def by auto
  qed
next
  case (Suc n)
  show ?case
  proof (cases rule: line_split [of rest])
    case blank
    then have "line_words rest = []" using words_skip [of rest "[]"] by simp
    then show ?thesis using strtok_blank [OF Suc.prems blank, of pre]
      by (auto simp: tok_strings_def simp del: replicate_Suc)
  next
    case (final sk w)
    then have w: "cstr sk" "cstr w" using Suc.prems by simp_all
    note st = strtok_final [OF _ final(2-4), of pre]
    obtain toks x where l: "get_toks_loop n (strtok ((pre @ sk @ w) @ [] @ [NUL]) (length (pre @ sk @ w)))
        = (toks, (pre @ sk @ w) @ x @ [NUL])"
      "tok_strings (toks, (pre @ sk @ w) @ x @ [NUL]) = take n (map Some (line_words []) @ replicate n None)"
      using Suc.IH [of "[]" "pre @ sk @ w"] by auto
    have "strtok ((pre @ sk @ w) @ [] @ [NUL]) (length (pre @ sk @ w)) = (None, (pre @ sk @ w) @ [] @ [NUL], length (pre @ sk @ w))"
      using strtok_blank [of "[]" "pre @ sk @ w"] by simp
    then have "x = []" using l(1) by (cases n) auto
    moreover have "tok_at ((pre @ sk) @ w @ NUL # []) (length (pre @ sk)) = w" by (rule tok_at_word [OF w(2)])
    moreover have "line_words rest = [w]" using words_skip [OF final(2)] words_word(1) [OF final(3,4)] final(1) by simp
    ultimately show ?thesis using st l w final(1)
      by (intro exI [of _ "Some (length pre + length sk) # toks"] exI [of _ "sk @ w"]) (simp add: tok_strings_def)
  next
    case (more sk w d r)
    then have w: "cstr sk" "cstr w" "cstr r" "cstr (sk @ w @ d # r)" using Suc.prems by simp_all
    let ?pre = "pre @ sk @ w @ [NUL]"
    note st = strtok_more [OF w(4) more(2-5), of pre]
    obtain toks x where l: "get_toks_loop n (strtok (?pre @ r @ [NUL]) (length ?pre)) = (toks, ?pre @ x @ [NUL])"
      "tok_strings (toks, ?pre @ x @ [NUL]) = take n (map Some (line_words r) @ replicate n None)"
      using Suc.IH [OF w(3), of ?pre] by auto
    have t: "tok_at ((pre @ sk) @ w @ NUL # x @ [NUL]) (length (pre @ sk)) = w" by (rule tok_at_word [OF w(2)])
    have "line_words rest = w # line_words r"
      using words_skip [OF more(2)] words_word(2) [OF more(3-5)] more(1) by simp
    then show ?thesis using st l w more(1) t
      by (intro exI [of _ "Some (length pre + length sk) # toks"] exI [of _ "sk @ w @ NUL # x"])
        (simp add: tok_strings_def)
  qed
qed

text \<open>C38: the tokenizer splits a line into its words: whatever the later calls of \<open>strtok\<close> wrote
  into the line, the array holds the first hundred pieces between separators that are not empty,
  in order, and then NULL.\<close>

theorem tokens_are_words:
  assumes "cstr line"
  shows "tok_strings (get_toks (line @ [NUL])) = take MAXTOKS (map Some (line_words line) @ replicate MAXTOKS None)"
  using get_toks_loop_spec [OF assms, of MAXTOKS "[]"] by (auto simp: get_toks_def)

lemma tokens_are_words_witness:
  "take 3 (tok_strings (get_toks ((''ls  -l'' @ [CHR 0x0A]) @ [NUL]))) = [Some ''ls'', Some ''-l'', None]"
proof -
  have "line_words (''ls  -l'' @ [CHR 0x0A]) = [''ls'', ''-l'']"
    by (simp add: line_words_def is_sep_def TOKseparator_def)
  then show ?thesis using tokens_are_words [of "''ls  -l'' @ [CHR 0x0A]"]
    by (simp add: NUL_def MAXTOKS_def numeral_eq_Suc)
qed

end
