(* ===== verification/Shell.thy ===== *)
theory Shell
  imports ShellParse Descriptors
begin

text \<open>
  The shell of hw1 (hw1/shell.c): built-in commands, redirection, background processes and the
  search for a program. What the operating system decides is the record \<open>shell_world\<close>; the
  descriptors of the shell map numbers to open files. The child of \<open>fork\<close> is the program it
  becomes. Output goes to a terminal, so that \<open>printf\<close> writes each line at once. Token arrays
  are lists of strings, NULL being \<open>None\<close>, and a walk past their end is undefined.
\<close>

datatype open_file = Terminal | ReadFrom string | WriteTo string

record shell_world =
  w_readable :: "string \<Rightarrow> bool"
  w_writable :: "string \<Rightarrow> bool"
  w_stat :: "string \<Rightarrow> 32 word option"
  w_execs :: "string \<Rightarrow> bool"
  w_chdir :: "string \<Rightarrow> string \<Rightarrow> string"
  w_path :: "string option"
  w_fork :: "nat \<Rightarrow> int"

text \<open>A child that became a program: path, arguments, descriptors and the PATH it is given.\<close>

datatype child = Program string "string list" "open_file fd_table" "string option" | Crashed

datatype shell_event =
    Printed "open_file option" string
  | Forked int "child option"
  | Waited int

record shell_state =
  sh_fds :: "open_file fd_table"
  sh_cwd :: string
  sh_queue :: "int list"
  sh_ignores :: bool
  sh_forks :: nat
  sh_events :: "shell_event list"

datatype shell_end = Continues shell_state | Exits int shell_state

definition add_event :: "shell_event \<Rightarrow> shell_state \<Rightarrow> shell_state" where
  "add_event e s = s\<lparr>sh_events := sh_events s @ [e]\<rparr>"

definition sh_printf :: "string \<Rightarrow> shell_state \<Rightarrow> shell_state" where
  "sh_printf text s = add_event (Printed (sh_fds s 1) text) s"

subsection \<open>Built-in commands\<close>

datatype cmd_fun = cmd_help | cmd_quit | cmd_pwd | cmd_cd | cmd_wait

definition cmd_table :: "(cmd_fun \<times> string \<times> string) list" where
  "cmd_table =
     [(cmd_help, ''?'', ''show this help menu''),
      (cmd_quit, ''quit'', ''quit the command shell''),
      (cmd_pwd, ''pwd'', ''show the current working directory''),
      (cmd_cd, ''cd'', ''change the current directory to the specific one''),
      (cmd_wait, ''wait'', ''wait for all background processes to finish'')]"

fun lookup_from :: "int \<Rightarrow> (cmd_fun \<times> string \<times> string) list \<Rightarrow> string option \<Rightarrow> int" where
  "lookup_from i [] cmd = -1"
| "lookup_from i ((f, c, d) # t) cmd = (if cmd = Some c then i else lookup_from (i + 1) t cmd)"

definition lookup :: "string option \<Rightarrow> int" where
  "lookup cmd = lookup_from 0 cmd_table cmd"

definition run_cmd_wait :: "shell_state \<Rightarrow> shell_state" where
  "run_cmd_wait s = (foldl (\<lambda>s pid. add_event (Waited pid) s) s (sh_queue s))\<lparr>sh_queue := []\<rparr>"

definition run_cmd_help :: "shell_state \<Rightarrow> shell_state" where
  "run_cmd_help s = foldl (\<lambda>s (f, c, d). sh_printf (c @ '' - '' @ d @ [CHR 0x0A]) s) s cmd_table"

text \<open>\<open>getcwd\<close> needs room for the terminator in 1024 bytes.\<close>

definition run_cmd_pwd :: "shell_state \<Rightarrow> shell_state" where
  "run_cmd_pwd s = (if length (sh_cwd s) < 1024 then sh_printf (sh_cwd s @ [CHR 0x0A]) s else s)"

text \<open>\<open>chdir\<close> of NULL fails, and the result is ignored.\<close>

definition run_cmd_cd :: "shell_world \<Rightarrow> string option \<Rightarrow> shell_state \<Rightarrow> shell_state" where
  "run_cmd_cd w arg s = (case arg of None \<Rightarrow> s | Some d \<Rightarrow> s\<lparr>sh_cwd := w_chdir w (sh_cwd s) d\<rparr>)"

definition run_builtin :: "shell_world \<Rightarrow> cmd_fun \<Rightarrow> string option list \<Rightarrow> shell_state \<Rightarrow> shell_end option" where
  "run_builtin w f args s =
     (case f of
        cmd_help \<Rightarrow> Some (Continues (run_cmd_help s))
      | cmd_quit \<Rightarrow> Some (Exits 0 s)
      | cmd_pwd \<Rightarrow> Some (Continues (run_cmd_pwd s))
      | cmd_cd \<Rightarrow> (case args of [] \<Rightarrow> None | a # _ \<Rightarrow> Some (Continues (run_cmd_cd w a s)))
      | cmd_wait \<Rightarrow> Some (Continues (run_cmd_wait s)))"

subsection \<open>Redirection and background\<close>

fun clear_toks :: "string option list \<Rightarrow> string option list option" where
  "clear_toks [] = None"
| "clear_toks (None # r) = Some (None # r)"
| "clear_toks (Some t # r) = map_option ((#) None) (clear_toks r)"

text \<open>The answer, the array and \<open>*fileDes\<close> where it is set.\<close>

fun isThereFileDirection ::
    "string option list \<Rightarrow> string \<Rightarrow> (string option list \<times> string option option) option" where
  "isThereFileDirection [] sign = None"
| "isThereFileDirection (None # r) sign = Some (None # r, None)"
| "isThereFileDirection (Some t # r) sign =
     (if t = sign then
        (case r of
           [] \<Rightarrow> None
         | fileDes # _ \<Rightarrow> do { r' \<leftarrow> clear_toks r; Some (None # r', Some fileDes) })
      else do { (r', fileDes) \<leftarrow> isThereFileDirection r sign; Some (Some t # r', fileDes) })"

fun isBackGround :: "string option list \<Rightarrow> (string option list \<times> bool) option" where
  "isBackGround [] = None"
| "isBackGround (None # r) = Some (None # r, False)"
| "isBackGround (Some t # r) =
     (if t = ''&'' then Some (None # r, True)
      else do { (r', b) \<leftarrow> isBackGround r; Some (Some t # r', b) })"

subsection \<open>Redirecting\<close>

text \<open>The two blocks of the loop that redirect, and their end. The first result is
  \<open>stdout_save\<close> or \<open>stdin_save\<close>.\<close>

definition redirect_out :: "shell_world \<Rightarrow> string option \<Rightarrow> shell_state \<Rightarrow> nat option \<times> shell_state" where
  "redirect_out w fileDes s =
     (let (out, fds) = (case fileDes of
                          None \<Rightarrow> (None, sh_fds s)
                        | Some f \<Rightarrow> sys_open (sh_fds s) (w_writable w f) (WriteTo f));
          s = s\<lparr>sh_fds := fds\<rparr>;
          s = (if out = None then sh_printf (''Fail to open the file'' @ [CHR 0x0A]) s else s);
          (stdout_save, fds) = sys_dup (sh_fds s) 1;
          fds = sys_close (sys_dup2 fds out 1) out
      in (stdout_save, s\<lparr>sh_fds := fds\<rparr>))"

definition redirect_in :: "shell_world \<Rightarrow> string option \<Rightarrow> shell_state \<Rightarrow> nat option \<times> shell_state" where
  "redirect_in w fileDes s =
     (let (inp, fds) = (case fileDes of
                          None \<Rightarrow> (None, sh_fds s)
                        | Some f \<Rightarrow> sys_open (sh_fds s) (w_readable w f) (ReadFrom f));
          s = s\<lparr>sh_fds := fds\<rparr>;
          s = (if inp = None then sh_printf (''Fail to open the file for input'' @ [CHR 0x0A]) s else s);
          (stdin_save, fds) = sys_dup (sh_fds s) 0;
          fds = sys_close (sys_dup2 fds inp 0) inp
      in (stdin_save, s\<lparr>sh_fds := fds\<rparr>))"

definition restore_fd :: "nat option \<Rightarrow> nat \<Rightarrow> shell_state \<Rightarrow> shell_state" where
  "restore_fd save n s = s\<lparr>sh_fds := sys_close (sys_dup2 (sh_fds s) save n) save\<rparr>"

subsection \<open>Programs\<close>

definition concat_path :: "string \<Rightarrow> string \<Rightarrow> string" where
  "concat_path s1 s2 = s1 @ ''/'' @ s2"

fun concat_paths :: "string option list \<Rightarrow> string \<Rightarrow> string list option" where
  "concat_paths [] filePath = None"
| "concat_paths (None # r) filePath = Some []"
| "concat_paths (Some t # r) filePath = map_option ((#) (concat_path t filePath)) (concat_paths r filePath)"

text \<open>
  The candidates \<open>get_multiplePath\<close> writes, and PATH as the environment has it afterwards:
  \<open>strtok\<close> works in the environment itself. Without PATH it goes on behind the command line, where
  there is nothing left. The rest of the array is not initialised.
\<close>

definition get_multiplePath :: "string option \<Rightarrow> string \<Rightarrow> (string list \<times> string option) option" where
  "get_multiplePath path filePath =
     (case path of
        None \<Rightarrow> Some ([filePath], None)
      | Some val \<Rightarrow>
          let toks = get_toks (val @ [NUL]) in
            do { ps \<leftarrow> concat_paths (tok_strings toks) filePath;
                 if MAXTOKS \<le> length ps then None
                 else Some (filePath # ps, Some (tok_at (snd toks) 0)) })"

text \<open>\<open>w_stat\<close> is the \<open>st_mode\<close> of a file, if \<open>stat\<close> finds one; bit 6 of it is \<open>S_IXUSR\<close>.\<close>

definition isExecutable :: "shell_world \<Rightarrow> string \<Rightarrow> bool" where
  "isExecutable w path = (case w_stat w path of None \<Rightarrow> False | Some st_mode \<Rightarrow> bit st_mode 6)"

fun exec_loop :: "shell_world \<Rightarrow> string list \<Rightarrow> string option" where
  "exec_loop w [] = None"
| "exec_loop w (p # ps) = (if isExecutable w p \<and> w_execs w p then Some p else exec_loop w ps)"

text \<open>The arguments of \<open>execv\<close>: the array up to NULL.\<close>

fun argv_of :: "string option list \<Rightarrow> string list" where
  "argv_of [] = []"
| "argv_of (None # r) = []"
| "argv_of (Some t # r) = t # argv_of r"

definition child_run :: "shell_world \<Rightarrow> open_file fd_table \<Rightarrow> string option list \<Rightarrow> child option" where
  "child_run w fds tokens =
     (case tokens of
        [] \<Rightarrow> None
      | None # _ \<Rightarrow> Some Crashed
      | Some t # _ \<Rightarrow>
          do { (filepath, path) \<leftarrow> get_multiplePath (w_path w) t;
               p \<leftarrow> exec_loop w filepath;
               Some (Program p (argv_of tokens) fds path) })"

subsection \<open>The loop\<close>

definition PID_QUEUE :: nat where "PID_QUEUE = 1024"

definition run_external :: "shell_world \<Rightarrow> string option list \<Rightarrow> bool \<Rightarrow> shell_state \<Rightarrow> shell_end option" where
  "run_external w tokens isBack s =
     (let cpid = w_fork w (sh_forks s);
          s = s\<lparr>sh_forks := sh_forks s + 1\<rparr>
      in if cpid < 0 then Some (Exits 1 s)
         else let s = (add_event (Forked cpid (child_run w (sh_fds s) tokens)) s)\<lparr>sh_ignores := True\<rparr>
           in if \<not> isBack then Some (Continues (add_event (Waited cpid) s))
              else if PID_QUEUE \<le> length (sh_queue s) then None
              else Some (Continues (s\<lparr>sh_queue := sh_queue s @ [cpid]\<rparr>)))"

definition shell_line :: "shell_world \<Rightarrow> string \<Rightarrow> shell_state \<Rightarrow> shell_end option" where
  "shell_line w input_bytes s =
     (let tokens = tok_strings (get_toks input_bytes);
          fundex = lookup (hd tokens)
      in do {
        (tokens, des) \<leftarrow> isThereFileDirection tokens ''>'';
        let (stdout_save, s) = (case des of None \<Rightarrow> (None, s) | Some fileDes \<Rightarrow> redirect_out w fileDes s);
        let changeOut = (des \<noteq> None);
        (tokens, des) \<leftarrow> isThereFileDirection tokens ''<'';
        let (stdin_save, s) = (case des of None \<Rightarrow> (None, s) | Some fileDes \<Rightarrow> redirect_in w fileDes s);
        let changeIn = (des \<noteq> None);
        (tokens, isBack) \<leftarrow> isBackGround tokens;
        res \<leftarrow> (if 0 \<le> fundex then run_builtin w (fst (cmd_table ! nat fundex)) (tl tokens) s
                else run_external w tokens isBack s);
        Some (case res of
            Exits n s \<Rightarrow> Exits n s
          | Continues s \<Rightarrow>
              let s = (if changeOut then restore_fd stdout_save 1 s else s);
                  s = (if changeIn then restore_fd stdin_save 0 s else s)
              in Continues s) })"

function shell_loop :: "shell_world \<Rightarrow> bool \<Rightarrow> nat \<Rightarrow> string \<Rightarrow> shell_state \<Rightarrow> shell_end option" where
  "shell_loop w interactive line_num stdin s =
     (case freadln stdin of
        None \<Rightarrow> Some (Exits 0 s)
      | Some (input_bytes, rest) \<Rightarrow>
          do { res \<leftarrow> shell_line w input_bytes s;
               case res of
                 Exits n s \<Rightarrow> Some (Exits n s)
               | Continues s \<Rightarrow>
                   shell_loop w interactive (line_num + 1) rest
                     (if interactive then sh_printf (dec (line_num + 1) @ '': '') s else s) })"
  by pat_completeness auto
termination
  by (relation "measure (\<lambda>(w, i, n, stdin, s). length stdin)") (auto dest: freadln_shorter)

declare shell_loop.simps [simp del]

definition shell :: "shell_world \<Rightarrow> bool \<Rightarrow> string \<Rightarrow> shell_state \<Rightarrow> shell_end option" where
  "shell w interactive stdin s =
     shell_loop w interactive 0 stdin (if interactive then sh_printf (dec 0 @ '': '') s else s)"

subsection \<open>Descriptors are put back\<close>

text \<open>What a redirection leaves: descriptor \<open>n\<close> shows the new file, and a free one the old.\<close>

definition redirected :: "nat \<Rightarrow> open_file \<Rightarrow> nat option \<times> open_file fd_table \<Rightarrow> open_file fd_table \<Rightarrow> bool" where
  "redirected n g r fds \<longleftrightarrow>
     (\<exists>m f. fst r = Some m \<and> m \<in> free_fds fds \<and> fds n = Some f \<and> snd r = fds(n := Some g, m := Some f))"

lemma redirect_kept:
  assumes "free_fds fds \<noteq> {}" "fds n = Some f"
  shows "redirected n f (sys_dup fds n) fds"
proof -
  obtain m where m: "new_fd fds = Some m" "m \<in> free_fds fds" using new_fd_exists [OF assms(1)] by blast
  then have "sys_dup fds n = (Some m, fds(m := Some f))" using assms(2) by (simp add: sys_dup_def)
  moreover have "fds(n := Some f) = fds" using assms(2) by (simp add: fun_upd_idem)
  ultimately show ?thesis using m(2) assms(2) unfolding redirected_def by simp
qed

lemma redirect_new:
  assumes "2 \<le> card (free_fds fds)" "fds n = Some f" "new_fd fds = Some k"
  shows "redirected n g (case sys_dup (fds(k := Some g)) n of
     (save, fds2) \<Rightarrow> (save, sys_close (sys_dup2 fds2 (Some k) n) (Some k))) fds"
proof -
  let ?fds1 = "fds(k := Some g)"
  have k: "k \<in> free_fds fds" by (rule new_fd_Some [OF assms(3)])
  have "1 \<le> card (free_fds ?fds1)" unfolding free_fds_taken
    using assms(1) card_Diff_singleton [OF k] by linarith
  then have "free_fds ?fds1 \<noteq> {}" by auto
  then obtain m where m: "new_fd ?fds1 = Some m" "m \<in> free_fds ?fds1" using new_fd_exists by blast
  have mk: "m \<in> free_fds fds" "m \<noteq> k" using m(2) unfolding free_fds_taken by auto
  have kn: "k \<noteq> n" "m \<noteq> n" "fds k = None" using k mk(1) assms(2) by (auto simp: free_fds_def)
  have "sys_dup ?fds1 n = (Some m, ?fds1(m := Some f))" using assms(2) m(1) kn by (simp add: sys_dup_def)
  moreover have "(?fds1(m := Some f, n := Some g))(k := None) = fds(n := Some g, m := Some f)"
    using kn mk(2) by (auto simp: fun_eq_iff)
  ultimately show ?thesis using mk assms(2) unfolding redirected_def sys_dup2_def sys_close_def by simp
qed

text \<open>The file behind a redirected descriptor.\<close>

definition new_file :: "(string \<Rightarrow> bool) \<Rightarrow> (string \<Rightarrow> open_file) \<Rightarrow> open_file \<Rightarrow> string option \<Rightarrow> open_file" where
  "new_file ok file f des = (case des of None \<Rightarrow> f | Some d \<Rightarrow> if ok d then file d else f)"

lemma sh_fds_printf [simp]: "sh_fds (sh_printf t s) = sh_fds s" "sh_fds (add_event e s) = sh_fds s"
  by (simp_all add: sh_printf_def add_event_def)

lemmas redirect_defs = redirect_out_def redirect_in_def sys_open_def new_file_def Let_def

lemma redirect_out_spec:
  assumes "2 \<le> card (free_fds (sh_fds s))" "sh_fds s 1 = Some f" "redirect_out w des s = (save, s')"
  shows "redirected 1 (new_file (w_writable w) WriteTo f des) (save, sh_fds s') (sh_fds s)"
proof -
  have free: "free_fds (sh_fds s) \<noteq> {}" using assms(1) by auto
  obtain k where k: "new_fd (sh_fds s) = Some k" using new_fd_exists [OF free] by blast
  show ?thesis
  proof (cases "\<exists>d. des = Some d \<and> w_writable w d")
    case True
    then obtain d where "des = Some d" "w_writable w d" by blast
    then show ?thesis using redirect_new [OF assms(1,2) k, of "WriteTo d"] assms(3) k
      by (auto simp: redirect_defs split: prod.splits)
  next
    case False
    then show ?thesis using redirect_kept [OF free assms(2)] assms(3) k
      by (auto simp: redirect_defs sys_dup2_def sys_close_def split: prod.splits option.splits)
  qed
qed

lemma redirect_in_spec:
  assumes "2 \<le> card (free_fds (sh_fds s))" "sh_fds s 0 = Some f" "redirect_in w des s = (save, s')"
  shows "redirected 0 (new_file (w_readable w) ReadFrom f des) (save, sh_fds s') (sh_fds s)"
proof -
  have free: "free_fds (sh_fds s) \<noteq> {}" using assms(1) by auto
  obtain k where k: "new_fd (sh_fds s) = Some k" using new_fd_exists [OF free] by blast
  show ?thesis
  proof (cases "\<exists>d. des = Some d \<and> w_readable w d")
    case True
    then obtain d where "des = Some d" "w_readable w d" by blast
    then show ?thesis using redirect_new [OF assms(1,2) k, of "ReadFrom d"] assms(3) k
      by (auto simp: redirect_defs split: prod.splits)
  next
    case False
    then show ?thesis using redirect_kept [OF free assms(2)] assms(3) k
      by (auto simp: redirect_defs sys_dup2_def sys_close_def split: prod.splits option.splits)
  qed
qed

text \<open>A redirection changes nothing else, but for the message when the file cannot be opened.\<close>

definition open_message :: "(string \<Rightarrow> bool) \<Rightarrow> string \<Rightarrow> string option \<Rightarrow> shell_state \<Rightarrow> shell_event list" where
  "open_message ok text des s =
     (if \<exists>d. des = Some d \<and> ok d then [] else [Printed (sh_fds s 1) (text @ [CHR 0x0A])])"

lemma redirect_out_frame:
  assumes "free_fds (sh_fds s) \<noteq> {}" "redirect_out w des s = (save, s')"
  shows "s' = s\<lparr>sh_fds := sh_fds s',
     sh_events := sh_events s @ open_message (w_writable w) ''Fail to open the file'' des s\<rparr>"
proof -
  obtain k where "new_fd (sh_fds s) = Some k" using new_fd_exists [OF assms(1)] by blast
  then show ?thesis using assms(2)
    by (auto simp: redirect_defs open_message_def sh_printf_def add_event_def split: prod.splits option.splits if_splits)
qed

lemma redirect_in_frame:
  assumes "free_fds (sh_fds s) \<noteq> {}" "redirect_in w des s = (save, s')"
  shows "s' = s\<lparr>sh_fds := sh_fds s',
     sh_events := sh_events s @ open_message (w_readable w) ''Fail to open the file for input'' des s\<rparr>"
proof -
  obtain k where "new_fd (sh_fds s) = Some k" using new_fd_exists [OF assms(1)] by blast
  then show ?thesis using assms(2)
    by (auto simp: redirect_defs open_message_def sh_printf_def add_event_def split: prod.splits option.splits if_splits)
qed

lemma redirected_room:
  assumes "redirected n g (save, fds2) fds"
  shows "card (free_fds fds2) = card (free_fds fds) - 1"
proof -
  obtain m f where m: "m \<in> free_fds fds" "fds n = Some f" "fds2 = fds(n := Some g, m := Some f)"
    using assms by (auto simp: redirected_def)
  have "n \<notin> free_fds fds" using m(2) by (simp add: free_fds_def)
  then have "free_fds fds2 = free_fds fds - {m}" unfolding m(3) free_fds_taken by auto
  then show ?thesis using card_Diff_singleton [OF m(1)] by simp
qed

lemma redirected_same: "redirected n g (save, fds2) fds \<Longrightarrow> fds2 n = Some g"
  by (auto simp: redirected_def free_fds_def)

lemma redirected_other: "redirected n g (save, fds2) fds \<Longrightarrow> k \<noteq> n \<Longrightarrow> fds k \<noteq> None \<Longrightarrow> fds2 k = fds k"
  by (auto simp: redirected_def free_fds_def)

lemma restore_one:
  assumes "redirected n g (save, fds2) fds"
  shows "sys_close (sys_dup2 fds2 save n) save = fds"
  using assms by (auto simp: redirected_def free_fds_def sys_dup2_def sys_close_def fun_eq_iff)

text \<open>The output is put back first, although it was redirected first.\<close>

lemma restore_both:
  assumes "redirected 1 g (save1, fds2) fds" "redirected 0 h (save0, fds3) fds2" "fds 0 \<noteq> None"
  shows "sys_close (sys_dup2 (sys_close (sys_dup2 fds3 save1 1) save1) save0 0) save0 = fds"
proof -
  obtain m f where m: "save1 = Some m" "fds m = None" "fds 1 = Some f" "fds2 = fds(1 := Some g, m := Some f)"
    using assms(1) by (auto simp: redirected_def free_fds_def)
  obtain k e where k: "save0 = Some k" "fds2 k = None" "fds2 0 = Some e" "fds3 = fds2(0 := Some h, k := Some e)"
    using assms(2) by (auto simp: redirected_def free_fds_def)
  have "m \<noteq> 0" "m \<noteq> 1" using m(2,3) assms(3) by (metis, metis option.distinct(1))
  moreover have "k \<noteq> 0" using k(2,3) by (metis option.distinct(1))
  moreover have "k \<noteq> m" "k \<noteq> 1" using k(2) \<open>m \<noteq> 1\<close> unfolding m(4) by (auto split: if_splits)
  moreover have "fds k = None" "fds 0 = Some e" using k(2,3) calculation unfolding m(4) by auto
  ultimately show ?thesis using m k by (auto simp: sys_dup2_def sys_close_def fun_eq_iff)
qed

lemma fold_fds:
  "sh_fds (foldl (\<lambda>s x. add_event (e x) s) s xs) = sh_fds s"
  "sh_fds (foldl (\<lambda>s (f, c, d). sh_printf (t c d) s) s ys) = sh_fds s"
  by (induction xs arbitrary: s) (auto, induction ys arbitrary: s, auto)

lemma run_builtin_fds: "run_builtin w f args s = Some (Continues s') \<Longrightarrow> sh_fds s' = sh_fds s"
  by (auto simp: run_builtin_def run_cmd_help_def run_cmd_pwd_def run_cmd_cd_def run_cmd_wait_def fold_fds
      split: cmd_fun.splits list.splits option.splits)

lemma run_external_fds: "run_external w toks b s = Some (Continues s') \<Longrightarrow> sh_fds s' = sh_fds s"
  by (auto simp: run_external_def Let_def split: if_splits)

text \<open>The command of a line, once its redirections are in place.\<close>

definition run_command :: "shell_world \<Rightarrow> int \<Rightarrow> string option list \<Rightarrow> bool \<Rightarrow> shell_state \<Rightarrow> shell_end option" where
  "run_command w fundex tokens isBack s =
     (if 0 \<le> fundex then run_builtin w (fst (cmd_table ! nat fundex)) (tl tokens) s
      else run_external w tokens isBack s)"

lemma run_command_fds: "run_command w i toks b s = Some (Continues s') \<Longrightarrow> sh_fds s' = sh_fds s"
  by (auto simp: run_command_def dest: run_builtin_fds run_external_fds split: if_splits)

lemma shell_line_command:
  "shell_line w line s = do {
     (tokens, des1) \<leftarrow> isThereFileDirection (tok_strings (get_toks line)) ''>'';
     let (save1, s1) = (case des1 of None \<Rightarrow> (None, s) | Some d \<Rightarrow> redirect_out w d s);
     (tokens, des0) \<leftarrow> isThereFileDirection tokens ''<'';
     let (save0, s0) = (case des0 of None \<Rightarrow> (None, s1) | Some d \<Rightarrow> redirect_in w d s1);
     (tokens, isBack) \<leftarrow> isBackGround tokens;
     res \<leftarrow> run_command w (lookup (hd (tok_strings (get_toks line)))) tokens isBack s0;
     Some (case res of
         Exits n s \<Rightarrow> Exits n s
       | Continues s \<Rightarrow>
           let s = (if des1 \<noteq> None then restore_fd save1 1 s else s);
               s = (if des0 \<noteq> None then restore_fd save0 0 s else s)
           in Continues s) }"
  unfolding shell_line_def run_command_def Let_def ..

definition fds_ok :: "open_file fd_table \<Rightarrow> bool" where
  "fds_ok fds \<longleftrightarrow> fds 0 \<noteq> None \<and> fds 1 \<noteq> None \<and> 3 \<le> card (free_fds fds)"

lemma free_not_empty: "1 \<le> card (free_fds fds) \<Longrightarrow> free_fds fds \<noteq> {}"
  by auto

text \<open>What the two optional redirections leave, and that the end of the loop undoes it.\<close>

definition redirections ::
    "open_file fd_table \<Rightarrow> string option option \<Rightarrow> string option option \<Rightarrow> shell_world \<Rightarrow> nat option \<times> nat option \<times> open_file fd_table \<Rightarrow> bool" where
  "redirections fds des1 des0 w r \<longleftrightarrow>
     (case r of (save1, save0, fds') \<Rightarrow>
        fds' 1 = (case des1 of None \<Rightarrow> fds 1 | Some d \<Rightarrow> Some (new_file (w_writable w) WriteTo (the (fds 1)) d))
        \<and> fds' 0 = (case des0 of None \<Rightarrow> fds 0 | Some d \<Rightarrow> Some (new_file (w_readable w) ReadFrom (the (fds 0)) d))
        \<and> (let f = (if des1 \<noteq> None then sys_close (sys_dup2 fds' save1 1) save1 else fds')
           in (if des0 \<noteq> None then sys_close (sys_dup2 f save0 0) save0 else f) = fds))"

lemma redirections_done:
  assumes ok: "fds_ok (sh_fds s)"
    and r1: "(save1, s1) = (case des1 of None \<Rightarrow> (None, s) | Some d \<Rightarrow> redirect_out w d s)"
    and r0: "(save0, s0) = (case des0 of None \<Rightarrow> (None, s1) | Some d \<Rightarrow> redirect_in w d s1)"
  shows "redirections (sh_fds s) des1 des0 w (save1, save0, sh_fds s0)"
proof -
  obtain f1 f0 where f: "sh_fds s 1 = Some f1" "sh_fds s 0 = Some f0" and room: "3 \<le> card (free_fds (sh_fds s))"
    using ok by (auto simp: fds_ok_def)
  have o: "redirected 1 (new_file (w_writable w) WriteTo f1 d) (save1, sh_fds s1) (sh_fds s)" if "des1 = Some d" for d
    by (rule redirect_out_spec) (use room f r1 that in auto)
  have i: "redirected 0 (new_file (w_readable w) ReadFrom f0 d) (save0, sh_fds s0) (sh_fds s1)" if "des0 = Some d" for d
  proof (cases des1)
    case None
    then show ?thesis by (intro redirect_in_spec) (use room f r1 r0 that in auto)
  next
    case (Some d1)
    note o = o [OF this]
    have "sh_fds s1 0 = Some f0" using redirected_other [OF o, of 0] f by simp
    moreover have "2 \<le> card (free_fds (sh_fds s1))" using redirected_room [OF o] room by simp
    ultimately show ?thesis by (intro redirect_in_spec) (use r0 that in auto)
  qed
  show ?thesis
  proof (cases des1)
    case None
    then have s1: "s1 = s" using r1 by simp
    show ?thesis
    proof (cases des0)
      case None
      then show ?thesis using \<open>des1 = None\<close> s1 r0 by (simp add: redirections_def)
    next
      case (Some d)
      note i = i [OF this, unfolded s1]
      show ?thesis using \<open>des1 = None\<close> Some f redirected_same [OF i] redirected_other [OF i, of 1] restore_one [OF i]
        by (simp add: redirections_def)
    qed
  next
    case (Some d1)
    note o = o [OF this]
    show ?thesis
    proof (cases des0)
      case None
      then show ?thesis using Some r0 f redirected_same [OF o] redirected_other [OF o, of 0] restore_one [OF o]
        by (simp add: redirections_def)
    next
      case (Some d0)
      note i = i [OF this]
      have "sh_fds s0 1 = Some (new_file (w_writable w) WriteTo f1 d1)"
        using redirected_other [OF i, of 1] redirected_same [OF o] by simp
      then show ?thesis using Some \<open>des1 = Some d1\<close> f redirected_same [OF i] restore_both [OF o i]
        by (simp add: redirections_def)
    qed
  qed
qed

lemma shell_line_SomeE:
  assumes "shell_line w line s = Some e"
  obtains t1 des1 save1 s1 t0 des0 save0 s0 t isBack res where
    "isThereFileDirection (tok_strings (get_toks line)) ''>'' = Some (t1, des1)"
    "(save1, s1) = (case des1 of None \<Rightarrow> (None, s) | Some d \<Rightarrow> redirect_out w d s)"
    "isThereFileDirection t1 ''<'' = Some (t0, des0)"
    "(save0, s0) = (case des0 of None \<Rightarrow> (None, s1) | Some d \<Rightarrow> redirect_in w d s1)"
    "isBackGround t0 = Some (t, isBack)"
    "run_command w (lookup (hd (tok_strings (get_toks line)))) t isBack s0 = Some res"
    "e = (case res of Exits n s \<Rightarrow> Exits n s
       | Continues s \<Rightarrow> let s = (if des1 \<noteq> None then restore_fd save1 1 s else s);
                            s = (if des0 \<noteq> None then restore_fd save0 0 s else s) in Continues s)"
proof -
  obtain t1 des1 where 1: "isThereFileDirection (tok_strings (get_toks line)) ''>'' = Some (t1, des1)"
    using assms unfolding shell_line_command by (cases "isThereFileDirection (tok_strings (get_toks line)) ''>''") auto
  obtain save1 s1 where 2: "(save1, s1) = (case des1 of None \<Rightarrow> (None, s) | Some d \<Rightarrow> redirect_out w d s)"
    by (metis surj_pair)
  obtain t0 des0 where 3: "isThereFileDirection t1 ''<'' = Some (t0, des0)"
    using assms 1 unfolding shell_line_command 2 [symmetric]
    by (cases "isThereFileDirection t1 ''<''") (auto simp: 2 [symmetric])
  obtain save0 s0 where 4: "(save0, s0) = (case des0 of None \<Rightarrow> (None, s1) | Some d \<Rightarrow> redirect_in w d s1)"
    by (metis surj_pair)
  obtain t isBack where 5: "isBackGround t0 = Some (t, isBack)"
    using assms 1 3 unfolding shell_line_command
    by (cases "isBackGround t0") (auto simp: 2 [symmetric] 4 [symmetric])
  obtain res where 6: "run_command w (lookup (hd (tok_strings (get_toks line)))) t isBack s0 = Some res"
    using assms 1 3 5 unfolding shell_line_command
    by (cases "run_command w (lookup (hd (tok_strings (get_toks line)))) t isBack s0")
      (auto simp: 2 [symmetric] 4 [symmetric])
  show thesis
    by (rule that [OF 1 2 3 4 5 6])
      (use assms 1 3 5 6 in \<open>simp add: shell_line_command 2 [symmetric] 4 [symmetric]\<close>)
qed

text \<open>C36: whatever a line redirects, the shell has its own descriptors back when it is done with
  the line, as long as it had standard input and output and three descriptors to spare; a file
  that cannot be opened changes nothing.\<close>

theorem shell_keeps_descriptors:
  assumes "shell_line w line s = Some (Continues s')" and "fds_ok (sh_fds s)"
  shows "sh_fds s' = sh_fds s"
proof -
  obtain t1 des1 save1 s1 t0 des0 save0 s0 t isBack res where l:
    "(save1, s1) = (case des1 of None \<Rightarrow> (None, s) | Some d \<Rightarrow> redirect_out w d s)"
    "(save0, s0) = (case des0 of None \<Rightarrow> (None, s1) | Some d \<Rightarrow> redirect_in w d s1)"
    "run_command w (lookup (hd (tok_strings (get_toks line)))) t isBack s0 = Some res"
    "Continues s' = (case res of Exits n s \<Rightarrow> Exits n s
       | Continues s \<Rightarrow> let s = (if des1 \<noteq> None then restore_fd save1 1 s else s);
                            s = (if des0 \<noteq> None then restore_fd save0 0 s else s) in Continues s)"
    by (rule shell_line_SomeE [OF assms(1)])
  obtain s2 where s2: "res = Continues s2" using l(4) by (cases res) simp_all
  then have "sh_fds s2 = sh_fds s0" using l(3) run_command_fds by simp
  moreover have "s' = (let s = (if des1 \<noteq> None then restore_fd save1 1 s2 else s2)
      in if des0 \<noteq> None then restore_fd save0 0 s else s)"
    using l(4) unfolding s2 by (simp add: Let_def)
  ultimately show ?thesis using redirections_done [OF assms(2) l(1,2)]
    by (auto simp: redirections_def restore_fd_def Let_def)
qed

subsection \<open>What a line runs\<close>

text \<open>The words in front of a sign, and the word behind it where the sign stands.\<close>

definition cut_at :: "string \<Rightarrow> string list \<Rightarrow> string list \<times> string option option" where
  "cut_at sign ws =
     (takeWhile (\<lambda>t. t \<noteq> sign) ws,
      if sign \<in> set ws
      then Some (case tl (dropWhile (\<lambda>t. t \<noteq> sign) ws) of [] \<Rightarrow> None | d # _ \<Rightarrow> Some d) else None)"

lemma clear_toks_words: "clear_toks (map Some b @ None # r) = Some (replicate (length b) None @ None # r)"
  by (induction b) auto

lemma redirection_words:
  "\<exists>r'. isThereFileDirection (map Some ws @ None # r) sign
     = Some (map Some (fst (cut_at sign ws)) @ None # r', snd (cut_at sign ws))"
proof (induction ws)
  case (Cons t ws)
  show ?case
  proof (cases "t = sign")
    case True
    obtain x xs where x: "map Some ws @ None # r = x # xs" by (cases "map Some ws @ None # r") auto
    then have "x = (case ws of [] \<Rightarrow> None | d # _ \<Rightarrow> Some d)" by (cases ws) auto
    then show ?thesis using True clear_toks_words [of ws r] x by (simp add: cut_at_def)
  next
    case False
    then show ?thesis using Cons by (auto simp: cut_at_def)
  qed
qed (simp add: cut_at_def)

lemma background_words:
  "\<exists>r'. isBackGround (map Some ws @ None # r)
     = Some (map Some (takeWhile (\<lambda>t. t \<noteq> ''&'') ws) @ None # r', ''&'' \<in> set ws)"
  by (induction ws) auto

lemma argv_words [simp]: "argv_of (map Some ws @ None # r) = ws"
  by (induction ws) auto

lemma concat_paths_words:
  "concat_paths (map Some ws @ None # r) f = Some (map (\<lambda>d. concat_path d f) ws)"
  by (induction ws) auto

lemma exec_loop_find: "exec_loop w ps = find (\<lambda>p. isExecutable w p \<and> w_execs w p) ps"
  by (induction ps) auto

lemma tokens_short:
  assumes "cstr line" "length (line_words line) < MAXTOKS"
  shows "tok_strings (get_toks (line @ [NUL])) =
     map Some (line_words line) @ None # replicate (MAXTOKS - Suc (length (line_words line))) None"
proof -
  obtain k where k: "MAXTOKS - length (line_words line) = Suc k" using assms(2) by (cases "MAXTOKS - length (line_words line)") auto
  then have "min (Suc k) MAXTOKS = Suc k" "MAXTOKS - Suc (length (line_words line)) = k" by simp_all
  then show ?thesis using get_toks_loop_spec [OF assms(1), of MAXTOKS "[]"] k by (auto simp: get_toks_def)
qed

definition command_args :: "string list \<Rightarrow> string list" where
  "command_args ws = takeWhile (\<lambda>t. t \<notin> {''>'', ''<'', ''&''}) ws"

lemma takeWhile_twice: "takeWhile P (takeWhile Q xs) = takeWhile (\<lambda>x. Q x \<and> P x) xs"
  by (induction xs) auto

lemma command_args_cut:
  "takeWhile (\<lambda>t. t \<noteq> ''&'') (fst (cut_at ''<'' (fst (cut_at ''>'' ws)))) = command_args ws"
  by (simp add: cut_at_def command_args_def takeWhile_twice conj_assoc)

text \<open>PATH behind \<open>strtok\<close>: its first entry only.\<close>

definition first_entry :: "string \<Rightarrow> string" where
  "first_entry s = takeWhile is_sep s @ takeWhile (\<lambda>c. \<not> is_sep c) (dropWhile is_sep s)"

lemma get_toks_front:
  assumes "cstr s"
  shows "tok_at (snd (get_toks (s @ [NUL]))) 0 = first_entry s"
proof -
  have at: "tok_at (t @ NUL # u) 0 = t" if "cstr t" for t u
    using tok_at_word [OF that, of "[]" u] by simp
  obtain n where n: "MAXTOKS = Suc n" by (simp add: MAXTOKS_def)
  show ?thesis
  proof (cases rule: line_split [of s])
    case blank
    then have "snd (get_toks (s @ [NUL])) = s @ [NUL]"
      using strtok_blank [OF assms blank, of "[]"] unfolding get_toks_def n by simp
    moreover have d: "dropWhile is_sep s = []" using blank by (simp add: list_all_iff)
    have "first_entry s = s" unfolding first_entry_def d takeWhile_all [OF blank] by simp
    ultimately show ?thesis using at [OF assms, of "[]"] by simp
  next
    case (final sk w)
    then have c: "cstr (sk @ w)" using assms by simp
    have "\<not> is_sep (hd w)" using final(3,4) by (cases w) auto
    then have f: "first_entry s = s" using final
      by (cases w) (simp_all add: first_entry_def takeWhile_stop dropWhile_append list_all_iff takeWhile_all)
    obtain toks x where l: "get_toks_loop n (strtok ((sk @ w) @ [] @ [NUL]) (length (sk @ w)))
        = (toks, (sk @ w) @ x @ [NUL])"
      using get_toks_loop_spec [of "[]" n "sk @ w"] by auto
    have "strtok ((sk @ w) @ [] @ [NUL]) (length (sk @ w)) = (None, (sk @ w) @ [] @ [NUL], length (sk @ w))"
      using strtok_blank [of "[]" "sk @ w"] by simp
    then have "x = []" using l by (cases n) auto
    then have "snd (get_toks (s @ [NUL])) = s @ [NUL]"
      using strtok_final [OF c final(2-4), of "[]"] l final(1) unfolding get_toks_def n by simp
    then show ?thesis using at [OF assms, of "[]"] f by simp
  next
    case (more sk w d r)
    then have c: "cstr (sk @ w @ d # r)" "cstr r" "cstr (sk @ w)" using assms by simp_all
    have "\<not> is_sep (hd w)" using more(3,4) by (cases w) auto
    then have f: "first_entry s = sk @ w" using more
      by (cases w) (simp_all add: first_entry_def takeWhile_stop dropWhile_append list_all_iff takeWhile_all)
    obtain toks x where l: "get_toks_loop n (strtok ((sk @ w @ [NUL]) @ r @ [NUL]) (length (sk @ w @ [NUL])))
        = (toks, (sk @ w @ [NUL]) @ x @ [NUL])"
      using get_toks_loop_spec [OF c(2), of n "sk @ w @ [NUL]"] by auto
    then have "snd (get_toks (s @ [NUL])) = (sk @ w) @ NUL # x @ [NUL]"
      using strtok_more [OF c(1) more(2-5), of "[]"] more(1) unfolding get_toks_def n by simp
    then show ?thesis using at [OF c(3)] f by simp
  qed
qed

text \<open>The child a line's words ask for.\<close>

definition command_child :: "shell_world \<Rightarrow> open_file fd_table \<Rightarrow> string list \<Rightarrow> string \<Rightarrow> child option" where
  "command_child w fds args path =
     (case args of
        [] \<Rightarrow> Some Crashed
      | c # _ \<Rightarrow>
          map_option (\<lambda>p. Program p args fds (Some (first_entry path)))
            (find (\<lambda>p. isExecutable w p \<and> w_execs w p) (c # map (\<lambda>d. concat_path d c) (line_words path))))"

lemma bind_Some_map: "Option.bind x (\<lambda>p. Some (f p)) = map_option f x"
  by (cases x) simp_all

lemma child_run_words:
  assumes "w_path w = Some path" "cstr path" "length (line_words path) < MAXTOKS"
  shows "child_run w fds (map Some args @ None # r) = command_child w fds args path"
proof (cases args)
  case (Cons c as)
  have t: "tok_strings (get_toks (path @ [NUL])) = map Some (line_words path) @ None #
      replicate (MAXTOKS - Suc (length (line_words path))) None"
    by (rule tokens_short [OF assms(2,3)])
  have m: "get_multiplePath (w_path w) c
      = Some (c # map (\<lambda>d. concat_path d c) (line_words path), Some (first_entry path))"
    using assms(3) by (simp add: get_multiplePath_def assms(1) t concat_paths_words get_toks_front [OF assms(2)])
  have a: "argv_of (Some c # map Some as @ None # r) = c # as" by simp
  show ?thesis unfolding Cons command_child_def child_run_def list.case list.map append_Cons option.case m exec_loop_find a
    by (simp only: exec_loop_find bind_Some_map prod.case Option.bind.simps)
qed (simp add: child_run_def command_child_def)

lemma hd_tokens:
  assumes "cstr line" "length (line_words line) < MAXTOKS"
  shows "hd (tok_strings (get_toks (line @ [NUL]))) = (case line_words line of [] \<Rightarrow> None | c # _ \<Rightarrow> Some c)"
  unfolding tokens_short [OF assms] by (cases "line_words line") simp_all

text \<open>The events before the command.\<close>

definition only_messages :: "shell_event list \<Rightarrow> bool" where
  "only_messages es \<longleftrightarrow> (\<forall>e \<in> set es. \<exists>f t. e = Printed f t)"

lemma frame_trans:
  "t = s\<lparr>sh_fds := f, sh_events := e\<rparr> \<Longrightarrow> u = t\<lparr>sh_fds := g, sh_events := e'\<rparr> \<Longrightarrow>
     u = s\<lparr>sh_fds := g, sh_events := e'\<rparr>"
  by simp

lemma redirections_frame:
  assumes ok: "fds_ok (sh_fds s)"
    and r1: "(save1, s1) = (case des1 of None \<Rightarrow> (None, s) | Some d \<Rightarrow> redirect_out w d s)"
    and r0: "(save0, s0) = (case des0 of None \<Rightarrow> (None, s1) | Some d \<Rightarrow> redirect_in w d s1)"
  shows "\<exists>msgs. only_messages msgs \<and> s0 = s\<lparr>sh_fds := sh_fds s0, sh_events := sh_events s @ msgs\<rparr>"
proof -
  have room: "3 \<le> card (free_fds (sh_fds s))" using ok by (simp add: fds_ok_def)
  then have e: "free_fds (sh_fds s) \<noteq> {}" by auto
  have "\<exists>msgs. only_messages msgs \<and> s1 = s\<lparr>sh_fds := sh_fds s1, sh_events := sh_events s @ msgs\<rparr>"
  proof (cases des1)
    case None
    then show ?thesis using r1 by (intro exI [of _ "[]"]) (simp add: only_messages_def)
  next
    case (Some d)
    then have "redirect_out w d s = (save1, s1)" using r1 by simp
    from redirect_out_frame [OF e this] show ?thesis
      by (rule_tac exI) (rule conjI [rotated], assumption, simp add: only_messages_def open_message_def)
  qed
  then obtain m1 where m1: "only_messages m1" "s1 = s\<lparr>sh_fds := sh_fds s1, sh_events := sh_events s @ m1\<rparr>" by blast
  have e1: "free_fds (sh_fds s1) \<noteq> {}"
  proof (cases des1)
    case None
    then show ?thesis using r1 e by simp
  next
    case (Some d)
    obtain f1 where "sh_fds s 1 = Some f1" using ok by (auto simp: fds_ok_def)
    then have "redirected 1 (new_file (w_writable w) WriteTo f1 d) (save1, sh_fds s1) (sh_fds s)"
      by (intro redirect_out_spec) (use room r1 Some in auto)
    from redirected_room [OF this] room have "2 \<le> card (free_fds (sh_fds s1))" by simp
    then show ?thesis by auto
  qed
  have "\<exists>msgs. only_messages msgs \<and> s0 = s1\<lparr>sh_fds := sh_fds s0, sh_events := sh_events s1 @ msgs\<rparr>"
  proof (cases des0)
    case None
    then show ?thesis using r0 by (intro exI [of _ "[]"]) (simp add: only_messages_def)
  next
    case (Some d)
    then have "redirect_in w d s1 = (save0, s0)" using r0 by simp
    from redirect_in_frame [OF e1 this] show ?thesis
      by (rule_tac exI) (rule conjI [rotated], assumption, simp add: only_messages_def open_message_def)
  qed
  then obtain m0 where m0: "only_messages m0" "s0 = s1\<lparr>sh_fds := sh_fds s0, sh_events := sh_events s1 @ m0\<rparr>" by blast
  have "sh_events s1 = sh_events s @ m1" by (subst m1(2)) simp
  then have "s0 = s\<lparr>sh_fds := sh_fds s0, sh_events := sh_events s @ m1 @ m0\<rparr>"
    using frame_trans [OF m1(2) m0(2)] by simp
  moreover have "only_messages (m1 @ m0)" using m0(1) m1(1) by (auto simp: only_messages_def)
  ultimately show ?thesis by blast
qed

lemma external_runs:
  assumes "0 \<le> w_fork w (sh_forks s)" and "length (sh_queue s) < PID_QUEUE"
    and "w_path w = Some path" and "cstr path" and "length (line_words path) < MAXTOKS"
  obtains s' where "run_external w (map Some args @ None # r) bg s = Some (Continues s')"
    and "sh_events s' = sh_events s @ Forked (w_fork w (sh_forks s)) (command_child w (sh_fds s) args path)
         # (if bg then [] else [Waited (w_fork w (sh_forks s))])"
    and "sh_queue s' = sh_queue s @ (if bg then [w_fork w (sh_forks s)] else [])"
proof -
  have "\<exists>s'. run_external w (map Some args @ None # r) bg s = Some (Continues s')
      \<and> sh_events s' = sh_events s @ Forked (w_fork w (sh_forks s)) (command_child w (sh_fds s) args path)
         # (if bg then [] else [Waited (w_fork w (sh_forks s))])
      \<and> sh_queue s' = sh_queue s @ (if bg then [w_fork w (sh_forks s)] else [])"
    using assms(1,2) unfolding run_external_def Let_def
    by (simp add: child_run_words [OF assms(3-5)] add_event_def)
  then show ?thesis using that by blast
qed

text \<open>C35: a line that is no built-in command runs the program its words ask for. The words in
  front of the first sign are the arguments, the first of them as it stands or in a directory of
  PATH names the program, the first that can be executed is; its standard output and input are
  the files behind the signs; the shell waits for it, or puts it into the queue. If nothing can
  be executed the child has no defined end, without a word it crashes, and the program gets
  only the first entry of PATH.\<close>

theorem shell_runs_command:
  assumes "cstr line" and "length (line_words line) < MAXTOKS" and "fds_ok (sh_fds s)"
    and "lookup (case line_words line of [] \<Rightarrow> None | c # _ \<Rightarrow> Some c) = -1"
    and "0 \<le> w_fork w (sh_forks s)" and "length (sh_queue s) < PID_QUEUE"
    and "w_path w = Some path" and "cstr path" and "length (line_words path) < MAXTOKS"
    and "(ws1, des1) = cut_at ''>'' (line_words line)" and "(ws0, des0) = cut_at ''<'' ws1"
  shows "\<exists>s' fds msgs. shell_line w (line @ [NUL]) s = Some (Continues s')
     \<and> fds 1 = (case des1 of None \<Rightarrow> sh_fds s 1
         | Some d \<Rightarrow> Some (new_file (w_writable w) WriteTo (the (sh_fds s 1)) d))
     \<and> fds 0 = (case des0 of None \<Rightarrow> sh_fds s 0
         | Some d \<Rightarrow> Some (new_file (w_readable w) ReadFrom (the (sh_fds s 0)) d))
     \<and> only_messages msgs
     \<and> sh_events s' = sh_events s @ msgs
         @ Forked (w_fork w (sh_forks s)) (command_child w fds (command_args (line_words line)) path)
         # (if ''&'' \<in> set ws0 then [] else [Waited (w_fork w (sh_forks s))])
     \<and> sh_queue s' = sh_queue s @ (if ''&'' \<in> set ws0 then [w_fork w (sh_forks s)] else [])"
proof -
  let ?ws = "line_words line" and ?pid = "w_fork w (sh_forks s)"
  note t = tokens_short [OF assms(1,2)]
  have ws: "fst (cut_at ''>'' ?ws) = ws1" "snd (cut_at ''>'' ?ws) = des1"
    "fst (cut_at ''<'' ws1) = ws0" "snd (cut_at ''<'' ws1) = des0"
    using assms(10,11) by (metis fst_conv snd_conv)+
  obtain r1 where 1: "isThereFileDirection (tok_strings (get_toks (line @ [NUL]))) ''>''
      = Some (map Some ws1 @ None # r1, des1)"
    using redirection_words [of ?ws _ "''>''"] unfolding t ws by blast
  obtain r0 where 3: "isThereFileDirection (map Some ws1 @ None # r1) ''<'' = Some (map Some ws0 @ None # r0, des0)"
    using redirection_words [of ws1 r1 "''<''"] unfolding ws by blast
  obtain r where 5: "isBackGround (map Some ws0 @ None # r0)
      = Some (map Some (command_args ?ws) @ None # r, ''&'' \<in> set ws0)"
    using background_words [of ws0 r0] command_args_cut [of ?ws] unfolding ws by auto
  obtain save1 s1 where 2: "(save1, s1) = (case des1 of None \<Rightarrow> (None, s) | Some d \<Rightarrow> redirect_out w d s)"
    by (metis surj_pair)
  obtain save0 s0 where 4: "(save0, s0) = (case des0 of None \<Rightarrow> (None, s1) | Some d \<Rightarrow> redirect_in w d s1)"
    by (metis surj_pair)
  note redir = redirections_done [OF assms(3) 2 4]
  obtain msgs where m: "only_messages msgs" "s0 = s\<lparr>sh_fds := sh_fds s0, sh_events := sh_events s @ msgs\<rparr>"
    using redirections_frame [OF assms(3) 2 4] by blast
  have s0: "sh_forks s0 = sh_forks s" "sh_queue s0 = sh_queue s" "sh_events s0 = sh_events s @ msgs"
    by (subst m(2), simp)+
  let ?child = "command_child w (sh_fds s0) (command_args ?ws) path"
  obtain s2 where s2: "run_external w (map Some (command_args ?ws) @ None # r) (''&'' \<in> set ws0) s0 = Some (Continues s2)"
    "sh_events s2 = sh_events s @ msgs @ Forked ?pid ?child # (if ''&'' \<in> set ws0 then [] else [Waited ?pid])"
    "sh_queue s2 = sh_queue s @ (if ''&'' \<in> set ws0 then [?pid] else [])"
    by (rule external_runs [of w s0 path "command_args ?ws" r "''&'' \<in> set ws0"])
      (use assms(5-9) in \<open>simp_all add: s0\<close>)
  let ?s' = "let s = (if des1 \<noteq> None then restore_fd save1 1 s2 else s2)
      in if des0 \<noteq> None then restore_fd save0 0 s else s"
  have line: "shell_line w (line @ [NUL]) s = Some (Continues ?s')"
    unfolding shell_line_command hd_tokens [OF assms(1,2)] assms(4) run_command_def
    by (simp add: 1 3 5 2 [symmetric] 4 [symmetric] s2(1) Let_def)
  have "sh_events ?s' = sh_events s2" "sh_queue ?s' = sh_queue s2" by (simp_all add: restore_fd_def Let_def)
  then show ?thesis
    by (intro exI [of _ ?s'] exI [of _ "sh_fds s0"] exI [of _ msgs] conjI)
      (use line redir m(1) s2 in \<open>simp_all add: redirections_def\<close>)
qed

subsection \<open>Examples\<close>

definition world0 :: shell_world where
  "world0 = \<lparr>w_readable = (\<lambda>f. True), w_writable = (\<lambda>f. True), w_stat = (\<lambda>p. if p = ''/bin/ls'' then Some 0x81ED else None),
     w_execs = (\<lambda>p. True), w_chdir = (\<lambda>cwd d. d), w_path = Some ''/usr:/bin'', w_fork = (\<lambda>n. 100)\<rparr>"

definition sh0 :: shell_state where
  "sh0 = \<lparr>sh_fds = (\<lambda>n. if n < 3 then Some Terminal else None), sh_cwd = ''/'', sh_queue = [],
     sh_ignores = False, sh_forks = 0, sh_events = []\<rparr>"

lemma sh0_fds_ok: "fds_ok (sh_fds sh0)"
proof -
  have "{3, 4, 5} \<subseteq> free_fds (sh_fds sh0)" by (simp add: free_fds_def FD_LIMIT_def sh0_def)
  from card_mono [OF finite_free this] show ?thesis by (simp add: fds_ok_def sh0_def)
qed

lemma shell_keeps_descriptors_witness:
  "\<exists>s'. shell_line world0 (''pwd > out'' @ [NUL]) sh0 = Some (Continues s') \<and> sh_fds s' = sh_fds sh0"
proof -
  have ws: "line_words ''pwd > out'' = [''pwd'', ''>'', ''out'']"
    by (simp add: line_words_def is_sep_def TOKseparator_def)
  have l: "cstr ''pwd > out''" "length (line_words ''pwd > out'') < MAXTOKS"
    unfolding ws by (simp_all add: NUL_def MAXTOKS_def)
  obtain save1 s1 where r: "redirect_out world0 (Some ''out'') sh0 = (save1, s1)" by (metis surj_pair)
  have "\<exists>s'. shell_line world0 (''pwd > out'' @ [NUL]) sh0 = Some (Continues s')"
    unfolding shell_line_command tokens_short [OF l] unfolding ws
    by (simp add: r run_command_def lookup_def cmd_table_def run_builtin_def Let_def)
  then obtain s' where s': "shell_line world0 (''pwd > out'' @ [NUL]) sh0 = Some (Continues s')" by blast
  from shell_keeps_descriptors [OF this sh0_fds_ok] s' show ?thesis by blast
qed

lemma shell_runs_command_witness:
  "\<exists>s' fds. shell_line world0 (''ls -l > out'' @ [NUL]) sh0 = Some (Continues s')
     \<and> fds 1 = Some (WriteTo ''out'')
     \<and> Forked 100 (Some (Program ''/bin/ls'' [''ls'', ''-l''] fds (Some ''/usr''))) \<in> set (sh_events s')"
proof -
  have ws: "line_words ''ls -l > out'' = [''ls'', ''-l'', ''>'', ''out'']" "line_words ''/usr:/bin'' = [''/usr'', ''/bin'']"
    by (simp_all add: line_words_def is_sep_def TOKseparator_def)
  have l: "cstr ''ls -l > out''" "cstr ''/usr:/bin''" by (simp_all add: NUL_def)
  have w: "w_fork world0 n = 100" "w_path world0 = Some ''/usr:/bin''" for n by (simp_all add: world0_def)
  have cut: "([''ls'', ''-l''], Some (Some ''out'')) = cut_at ''>'' (line_words ''ls -l > out'')"
    "([''ls'', ''-l''], None) = cut_at ''<'' [''ls'', ''-l'']"
    unfolding ws by (simp_all add: cut_at_def)
  have child: "command_child world0 fds (command_args (line_words ''ls -l > out'')) ''/usr:/bin''
      = Some (Program ''/bin/ls'' [''ls'', ''-l''] fds (Some ''/usr''))" for fds
    unfolding ws by (simp add: command_child_def command_args_def ws concat_path_def isExecutable_def world0_def
        first_entry_def is_sep_def TOKseparator_def)
  from shell_runs_command [OF l(1) _ sh0_fds_ok _ _ _ w(2) l(2) _ cut]
  show ?thesis unfolding ws(1) child [unfolded ws(1)] ws(2)
    by (fastforce simp: w MAXTOKS_def PID_QUEUE_def sh0_def lookup_def cmd_table_def new_file_def world0_def)
qed

end
