(* ===== verification/JobControl.thy ===== *)
theory JobControl
  imports CPrelude
begin

text \<open>
  The terminal of the shell: \<open>init_shell\<close> (hw1/shell.c) takes it, and hw1/process.c hands it to a
  job and takes it back. A terminal has a process group in the foreground and modes of a type
  \<open>'m\<close>. A process outside of that group that changes either is stopped by SIGTTOU unless it ignores
  the signal; the result is \<open>None\<close> then.
\<close>

subsection \<open>The terminal\<close>

datatype job_event = SentCont int | KillFailed int | WaitedUntraced int

text \<open>\<open>jc_pgrp\<close> is the process group the shell is in; \<open>shell_pgid\<close> and \<open>shell_tmodes\<close> are its
  variables.\<close>

record 'm job_state =
  jc_owner :: int
  jc_modes :: 'm
  jc_pgrp :: int
  jc_ignores_ttou :: bool
  shell_pgid :: int
  shell_tmodes :: 'm
  jc_events :: "job_event list"

text \<open>The process groups there are, whether \<open>kill\<close> reaches one, and what a job has done to the
  terminal, its group and its modes, when \<open>waitpid\<close> returns.\<close>

record 'm job_os =
  jo_group :: "int \<Rightarrow> bool"
  jo_kill :: "int \<Rightarrow> bool"
  jo_runs :: "int \<Rightarrow> int \<times> 'm \<Rightarrow> int \<times> 'm"

definition tty_allowed :: "'m job_state \<Rightarrow> bool" where
  "tty_allowed st \<longleftrightarrow> jc_owner st = jc_pgrp st \<or> jc_ignores_ttou st"

text \<open>A group that does not exist is an error, which the code ignores.\<close>

definition tcsetpgrp :: "'m job_os \<Rightarrow> int \<Rightarrow> 'm job_state \<Rightarrow> 'm job_state option" where
  "tcsetpgrp os pgid st =
     (if tty_allowed st then Some (if jo_group os pgid then st\<lparr>jc_owner := pgid\<rparr> else st) else None)"

definition tcsetattr :: "'m \<Rightarrow> 'm job_state \<Rightarrow> 'm job_state option" where
  "tcsetattr modes st = (if tty_allowed st then Some (st\<lparr>jc_modes := modes\<rparr>) else None)"

definition waitpid :: "'m job_os \<Rightarrow> int \<Rightarrow> 'm job_state \<Rightarrow> 'm job_state" where
  "waitpid os pid st =
     (case jo_runs os pid (jc_owner st, jc_modes st) of
        (owner, modes) \<Rightarrow>
          st\<lparr>jc_owner := owner, jc_modes := modes, jc_events := jc_events st @ [WaitedUntraced pid]\<rparr>)"

definition send_cont :: "'m job_os \<Rightarrow> int \<Rightarrow> bool \<Rightarrow> 'm job_state \<Rightarrow> 'm job_state" where
  "send_cont os pid cont st =
     (if cont then st\<lparr>jc_events := jc_events st @ [if jo_kill os pid then SentCont pid else KillFailed pid]\<rparr>
      else st)"

subsection \<open>Jobs\<close>

text \<open>\<open>tmodes\<close> is NULL or what it points to; the first result is what it points to afterwards.\<close>

definition put_process_in_foreground ::
    "'m job_os \<Rightarrow> int \<Rightarrow> bool \<Rightarrow> 'm option \<Rightarrow> 'm job_state \<Rightarrow> ('m option \<times> 'm job_state) option" where
  "put_process_in_foreground os pid cont tmodes st =
     do { st \<leftarrow> tcsetpgrp os pid st;
          st \<leftarrow> (case tmodes of None \<Rightarrow> Some st | Some modes \<Rightarrow> tcsetattr modes st);
          let st = waitpid os pid (send_cont os pid cont st);
          st \<leftarrow> tcsetpgrp os (shell_pgid st) st;
          let tmodes = (case tmodes of None \<Rightarrow> None | Some _ \<Rightarrow> Some (jc_modes st));
          st \<leftarrow> tcsetattr (shell_tmodes st) st;
          Some (tmodes, st) }"

definition put_process_in_background :: "'m job_os \<Rightarrow> int \<Rightarrow> bool \<Rightarrow> 'm job_state \<Rightarrow> 'm job_state" where
  "put_process_in_background os pid cont st = send_cont os pid cont st"

subsection \<open>The start of the shell\<close>

text \<open>The loop of \<open>init_shell\<close>: \<open>owners i\<close> is the group in the foreground at its test number \<open>i\<close>;
  between two tests the shell is stopped by its own SIGTTIN.\<close>

partial_function (option) init_loop :: "(nat \<Rightarrow> int) \<Rightarrow> int \<Rightarrow> nat \<Rightarrow> nat option" where
  "init_loop owners pgrp i = (if owners i \<noteq> pgrp then init_loop owners pgrp (i + 1) else Some i)"

text \<open>\<open>pgrp\<close> and \<open>pid\<close> are the group and the process the shell is; \<open>st\<close> is what the terminal and the
  variables are before. The answer is \<open>shell_is_interactive\<close>.\<close>

definition init_shell ::
    "'m job_os \<Rightarrow> bool \<Rightarrow> (nat \<Rightarrow> int) \<Rightarrow> int \<Rightarrow> 'm job_state \<Rightarrow> (bool \<times> 'm job_state) option" where
  "init_shell os is_tty owners pid st =
     (if \<not> is_tty then Some (False, st)
      else do { i \<leftarrow> init_loop owners (jc_pgrp st) 0;
                let st = st\<lparr>jc_owner := owners i, shell_pgid := pid\<rparr>;
                st \<leftarrow> tcsetpgrp os (shell_pgid st) st;
                Some (True, st\<lparr>shell_tmodes := jc_modes st\<rparr>) })"

lemma init_loop_owner: "init_loop owners pgrp i = Some j \<Longrightarrow> owners j = pgrp"
proof -
  assume a: "init_loop owners pgrp i = Some j"
  show "owners j = pgrp"
    by (rule init_loop.raw_induct [of "\<lambda>owners pgrp i j. owners j = pgrp", OF _ a]) (auto split: if_splits)
qed

lemma init_loop_returns:
  assumes "owners (i + n) = pgrp"
  shows "\<exists>j. init_loop owners pgrp i = Some j"
  using assms
proof (induction n arbitrary: i)
  case 0
  then show ?case by (subst init_loop.simps) simp
next
  case (Suc n)
  then show ?case by (subst init_loop.simps) (cases "owners i = pgrp"; simp add: Suc.IH)
qed

text \<open>A run of jobs, put into the foreground or the background.\<close>

datatype 'm job_cmd = Fg int bool "'m option" | Bg int bool

fun run_jobs :: "'m job_os \<Rightarrow> 'm job_cmd list \<Rightarrow> 'm job_state \<Rightarrow> 'm job_state option" where
  "run_jobs os [] st = Some st"
| "run_jobs os (Fg pid cont tmodes # js) st =
     do { (_, st) \<leftarrow> put_process_in_foreground os pid cont tmodes st; run_jobs os js st }"
| "run_jobs os (Bg pid cont # js) st = run_jobs os js (put_process_in_background os pid cont st)"

subsection \<open>The terminal comes back\<close>

lemma foreground_spec:
  assumes ttou: "jc_ignores_ttou st"
    and left: "jo_runs os pid (if jo_group os pid then pid else jc_owner st,
      case tmodes of None \<Rightarrow> jc_modes st | Some m \<Rightarrow> m) = (owner, modes)"
  shows "put_process_in_foreground os pid cont tmodes st
     = Some (map_option (\<lambda>_. modes) tmodes,
         st\<lparr>jc_owner := if jo_group os (shell_pgid st) then shell_pgid st else owner,
            jc_modes := shell_tmodes st,
            jc_events := jc_events (send_cont os pid cont st) @ [WaitedUntraced pid]\<rparr>)"
proof -
  have 1: "tcsetpgrp os pid st = Some (if jo_group os pid then st\<lparr>jc_owner := pid\<rparr> else st)"
    using ttou by (simp add: tcsetpgrp_def tty_allowed_def)
  let ?st1 = "st\<lparr>jc_owner := if jo_group os pid then pid else jc_owner st,
    jc_modes := case tmodes of None \<Rightarrow> jc_modes st | Some m \<Rightarrow> m\<rparr>"
  have 2: "(case tmodes of None \<Rightarrow> Some st' | Some modes \<Rightarrow> tcsetattr modes st') = Some ?st1"
    if "st' = (if jo_group os pid then st\<lparr>jc_owner := pid\<rparr> else st)" for st'
    using that ttou by (cases tmodes) (simp_all add: tcsetattr_def tty_allowed_def)
  let ?st2 = "st\<lparr>jc_owner := owner, jc_modes := modes,
    jc_events := jc_events (send_cont os pid cont st) @ [WaitedUntraced pid]\<rparr>"
  have 3: "waitpid os pid (send_cont os pid cont ?st1) = ?st2"
    using left by (cases cont) (simp_all add: waitpid_def send_cont_def)
  have 4: "tcsetpgrp os (shell_pgid ?st2) ?st2
      = Some (?st2\<lparr>jc_owner := if jo_group os (shell_pgid st) then shell_pgid st else owner\<rparr>)"
    using ttou by (simp add: tcsetpgrp_def tty_allowed_def)
  show ?thesis
    unfolding put_process_in_foreground_def 1 bind.bind_lunit 2 [OF refl] Let_def 3 4
    using ttou by (cases tmodes) (simp_all add: tcsetattr_def tty_allowed_def)
qed

lemma send_cont_keeps [simp]:
  "jc_owner (send_cont os pid cont st) = jc_owner st" "jc_modes (send_cont os pid cont st) = jc_modes st"
  "shell_pgid (send_cont os pid cont st) = shell_pgid st" "shell_tmodes (send_cont os pid cont st) = shell_tmodes st"
  "jc_ignores_ttou (send_cont os pid cont st) = jc_ignores_ttou st"
  by (simp_all add: send_cont_def)

definition at_home :: "'m job_state \<Rightarrow> bool" where
  "at_home st \<longleftrightarrow> jc_ignores_ttou st \<and> jc_owner st = shell_pgid st \<and> jc_modes st = shell_tmodes st"

lemma run_jobs_home:
  assumes "at_home st" "jo_group os (shell_pgid st)"
  shows "\<exists>st'. run_jobs os js st = Some st' \<and> at_home st' \<and> shell_pgid st' = shell_pgid st
     \<and> shell_tmodes st' = shell_tmodes st"
  using assms
proof (induction os js st rule: run_jobs.induct)
  case (2 os pid cont tmodes js st)
  obtain owner modes where left: "jo_runs os pid (if jo_group os pid then pid else jc_owner st,
      case tmodes of None \<Rightarrow> jc_modes st | Some m \<Rightarrow> m) = (owner, modes)" by fastforce
  have "jc_ignores_ttou st" using 2(2) by (simp add: at_home_def)
  note f = foreground_spec [OF this left, of cont]
  show ?case using 2(1) [OF f refl] 2(2,3) f by (simp add: at_home_def)
next
  case (3 os pid cont js st)
  then show ?case by (simp add: at_home_def put_process_in_background_def)
qed simp

text \<open>C37: the shell has its terminal back after any jobs. Once \<open>init_shell\<close> has taken the terminal,
  and provided the shell leads its process group and ignores SIGTTOU, it goes on after every job,
  in the foreground of its terminal and with the modes it found there at the start, whatever the
  jobs did to either. A shell that does not lead its group loses the terminal to the first job
  that keeps it.\<close>

theorem jobs_return_terminal:
  assumes "init_shell os True owners pid st0 = Some (True, st)" and "jo_group os (jc_pgrp st0)"
  shows "(pid = jc_pgrp st0 \<longrightarrow>
       (\<exists>st'. run_jobs os jobs (st\<lparr>jc_ignores_ttou := True\<rparr>) = Some st' \<and> jc_owner st' = jc_pgrp st0
          \<and> jc_modes st' = jc_modes st0))
     \<and> (\<not> jo_group os pid \<and> jo_group os job \<and> jo_runs os job (job, jc_modes st0) = (job, modes) \<longrightarrow>
       (\<exists>st'. run_jobs os [Fg job False None] (st\<lparr>jc_ignores_ttou := True\<rparr>) = Some st' \<and> jc_owner st' = job))"
proof -
  obtain i where i: "init_loop owners (jc_pgrp st0) 0 = Some i"
    using assms(1) by (auto simp: init_shell_def split: bind_splits)
  have "owners i = jc_pgrp st0" by (rule init_loop_owner [OF i])
  then have st: "st = st0\<lparr>jc_owner := if jo_group os pid then pid else jc_pgrp st0, shell_pgid := pid,
      shell_tmodes := jc_modes st0\<rparr>"
    using assms(1) i by (auto simp: init_shell_def tcsetpgrp_def tty_allowed_def split: if_splits)
  show ?thesis
  proof (intro conjI impI)
    assume pid: "pid = jc_pgrp st0"
    have "at_home (st\<lparr>jc_ignores_ttou := True\<rparr>)" "jo_group os (shell_pgid (st\<lparr>jc_ignores_ttou := True\<rparr>))"
      using st pid assms(2) by (simp_all add: at_home_def)
    from run_jobs_home [OF this, of jobs] show "\<exists>st'. run_jobs os jobs (st\<lparr>jc_ignores_ttou := True\<rparr>) = Some st'
        \<and> jc_owner st' = jc_pgrp st0 \<and> jc_modes st' = jc_modes st0"
      using st pid by (auto simp: at_home_def)
  next
    assume lost: "\<not> jo_group os pid \<and> jo_group os job \<and> jo_runs os job (job, jc_modes st0) = (job, modes)"
    let ?st = "st\<lparr>jc_ignores_ttou := True\<rparr>"
    have "jo_runs os job (if jo_group os job then job else jc_owner ?st,
        case None of None \<Rightarrow> jc_modes ?st | Some m \<Rightarrow> m) = (job, modes)" using lost st by simp
    from foreground_spec [OF _ this, of False] lost st
    show "\<exists>st'. run_jobs os [Fg job False None] ?st = Some st' \<and> jc_owner st' = job" by auto
  qed
qed

lemma jobs_return_terminal_witness:
  "\<exists>st st'. init_shell \<lparr>jo_group = (\<lambda>g. g \<in> {50, 70}), jo_kill = (\<lambda>g. True), jo_runs = (\<lambda>g t. (g, 9))\<rparr> True
       (\<lambda>i. if i = 0 then 40 else 50) 50
       \<lparr>jc_owner = 40, jc_modes = (5 :: nat), jc_pgrp = 50, jc_ignores_ttou = False, shell_pgid = 0,
         shell_tmodes = 0, jc_events = []\<rparr> = Some (True, st)
     \<and> run_jobs \<lparr>jo_group = (\<lambda>g. g \<in> {50, 70}), jo_kill = (\<lambda>g. True), jo_runs = (\<lambda>g t. (g, 9))\<rparr>
         [Fg 70 True (Some 6), Bg 70 True, Fg 70 False None] (st\<lparr>jc_ignores_ttou := True\<rparr>) = Some st'
     \<and> jc_owner st' = 50 \<and> jc_modes st' = 5"
proof -
  let ?os = "\<lparr>jo_group = (\<lambda>g. g \<in> {50, 70}), jo_kill = (\<lambda>g. True), jo_runs = (\<lambda>g t. (g, 9))\<rparr> :: nat job_os"
  let ?owners = "\<lambda>i :: nat. if i = 0 then 40 else 50 :: int"
  let ?st0 = "\<lparr>jc_owner = 40, jc_modes = (5 :: nat), jc_pgrp = 50, jc_ignores_ttou = False, shell_pgid = 0,
         shell_tmodes = 0, jc_events = []\<rparr>"
  have "init_loop ?owners 50 0 = Some 1"
    by (subst init_loop.simps) (simp, subst init_loop.simps, simp)
  then obtain st where st: "init_shell ?os True ?owners 50 ?st0 = Some (True, st)"
    by (simp add: init_shell_def tcsetpgrp_def tty_allowed_def)
  from jobs_return_terminal [OF this, of "[Fg 70 True (Some 6), Bg 70 True, Fg 70 False None]"] st show ?thesis by auto
qed

end
