(* ===== verification/WordCount.thy ===== *)
theory WordCount
  imports CText
begin

text \<open>
  The word count of hw0 (hw0/wc.c): the loop over standard input, the loop over a file, and the
  choice between them. The variable that takes the result of \<open>getchar\<close> is a \<open>char\<close>, so the byte
  255 is not told from the end of file; \<open>isspace\<close> is that of the C locale in the GNU C library, whose
  table covers the negative values of a \<open>char\<close> too and has no space among the bytes above 127
  (the C standard leaves \<open>isspace\<close> of a negative value undefined). A counter is an \<open>int\<close>: counting past its end is undefined.
\<close>

definition EOF_CHAR :: char where "EOF_CHAR = CHR 0xFF"

definition inc :: "int \<Rightarrow> int option" where
  "inc n = (if n = 2 ^ 31 - 1 then None else Some (n + 1))"

fun wc_stdin :: "string \<Rightarrow> char \<Rightarrow> int \<Rightarrow> int \<Rightarrow> int \<Rightarrow> (int \<times> int \<times> int) option" where
  "wc_stdin [] prevCh lineCount wordCount charCount = Some (lineCount, wordCount, charCount)"
| "wc_stdin (ch # s) prevCh lineCount wordCount charCount =
     (if ch = EOF_CHAR then Some (lineCount, wordCount, charCount)
      else do {
        charCount \<leftarrow> inc charCount;
        if ch = NUL then wc_stdin s prevCh lineCount wordCount charCount
        else do {
          wordCount \<leftarrow> (if is_space prevCh \<and> \<not> is_space ch then inc wordCount else Some wordCount);
          lineCount \<leftarrow> (if ch = CHR 0x0A then inc lineCount else Some lineCount);
          wc_stdin s ch lineCount wordCount charCount } })"

fun wc_file :: "string \<Rightarrow> char \<Rightarrow> int \<Rightarrow> int \<Rightarrow> int \<Rightarrow> (int \<times> int \<times> int) option" where
  "wc_file [] prevCh lineCount wordCount charCount = Some (lineCount, wordCount, charCount)"
| "wc_file (ch # s) prevCh lineCount wordCount charCount =
     (if ch = EOF_CHAR then Some (lineCount, wordCount, charCount)
      else do {
        charCount \<leftarrow> inc charCount;
        if ch = NUL then wc_file s prevCh lineCount wordCount charCount
        else do {
          wordCount \<leftarrow> (if is_space prevCh \<and> \<not> is_space ch then inc wordCount else Some wordCount);
          if ch = CHR 0x0A then do {
            lineCount \<leftarrow> inc lineCount;
            wc_file s CHR '' '' lineCount wordCount charCount }
          else wc_file s ch lineCount wordCount charCount } })"

text \<open>\<open>argv\<close> and what it prints. A file that cannot be opened is read all the same.\<close>

definition wc_main :: "string list \<Rightarrow> string \<Rightarrow> (string \<Rightarrow> string option) \<Rightarrow> string option" where
  "wc_main argv stdin files =
     (if length argv \<le> 1 then
        do { (lineCount, wordCount, charCount) \<leftarrow> wc_stdin stdin CHR '' '' 0 0 0;
             Some (sdec lineCount @ '' '' @ sdec wordCount @ '' '' @ sdec charCount @ [CHR 0x0A]) }
      else
        let fileName = (if length argv = 2 then argv ! 1 else argv ! 2) in
          do { bytes \<leftarrow> files fileName;
               (lineCount, wordCount, charCount) \<leftarrow> wc_file bytes CHR '' '' 0 0 0;
               Some (sdec lineCount @ '' '' @ sdec wordCount @ '' '' @ sdec charCount @ '' '' @ fileName
                     @ [CHR 0x0A]) })"

subsection \<open>What is counted\<close>

text \<open>The bytes up to the first 255; the words are those of the text without NUL.\<close>

definition wc_text :: "string \<Rightarrow> string" where
  "wc_text s = takeWhile (\<lambda>c. c \<noteq> EOF_CHAR) s"

definition wc_lines :: "string \<Rightarrow> nat" where
  "wc_lines s = length (filter (\<lambda>c. c = CHR 0x0A) s)"

definition wc_words :: "string \<Rightarrow> nat" where
  "wc_words s = length (filter (\<lambda>w. w \<noteq> []) (pieces is_space (filter (\<lambda>c. c \<noteq> NUL) s)))"

definition in_word :: "string \<Rightarrow> bool" where
  "in_word s \<longleftrightarrow> (case filter (\<lambda>c. c \<noteq> NUL) s of [] \<Rightarrow> False | c # _ \<Rightarrow> \<not> is_space c)"

lemma hd_pieces: "hd (pieces P t) = [] \<longleftrightarrow> t = [] \<or> P (hd t)"
  by (cases t) auto

lemma words_step:
  "c \<noteq> NUL \<Longrightarrow> wc_words (c # s) = (if is_space c \<or> in_word s then wc_words s else wc_words s + 1)"
proof -
  let ?t = "filter (\<lambda>c. c \<noteq> NUL) s"
  obtain x xs where x: "pieces is_space ?t = x # xs" by (cases "pieces is_space ?t") simp_all
  have "x = [] \<longleftrightarrow> \<not> in_word s" using hd_pieces [of is_space ?t] x by (auto simp: in_word_def split: list.splits)
  then show "c \<noteq> NUL \<Longrightarrow> ?thesis" by (simp add: wc_words_def x)
qed

lemma words_NUL: "wc_words (NUL # s) = wc_words s" "in_word (NUL # s) = in_word s"
  by (simp_all add: wc_words_def in_word_def)

lemma lines_NUL: "wc_lines (NUL # s) = wc_lines s"
  by (simp add: wc_lines_def NUL_def)

lemma in_word_Cons: "c \<noteq> NUL \<Longrightarrow> in_word (c # s) \<longleftrightarrow> \<not> is_space c"
  by (simp add: in_word_def)

lemma text_Cons: "wc_text (c # s) = (if c = EOF_CHAR then [] else c # wc_text s)"
  by (simp add: wc_text_def)

text \<open>The two loops differ in what they keep of a line feed, which is a space like a blank.\<close>

lemma space_LF: "is_space CHR 0x0A" "is_space CHR '' ''"
  by (simp_all add: is_space_def)

lemma wc_file_same:
  "is_space p = is_space q \<Longrightarrow> wc_file s p l w c = wc_stdin s q l w c"
proof (induction s arbitrary: p q l w c)
  case (Cons x s)
  have "wc_file s p l w c = wc_stdin s q l w c" for l w c by (rule Cons.IH [OF Cons.prems])
  moreover have "wc_file s CHR '' '' l w c = wc_stdin s CHR 0x0A l w c" for l w c
    by (rule Cons.IH) (simp add: space_LF)
  moreover have "wc_file s x l w c = wc_stdin s x l w c" for l w c by (rule Cons.IH) simp
  ultimately show ?case using Cons.prems by (simp cong: if_cong)
qed simp

lemma wc_stdin_spec:
  assumes "0 \<le> l" "l \<le> c" "0 \<le> w" "w \<le> c" "c + int (length s) < 2 ^ 31"
  shows "wc_stdin s p l w c = Some (l + int (wc_lines (wc_text s)),
     w + int (wc_words (wc_text s)) - (if \<not> is_space p \<and> in_word (wc_text s) then 1 else 0),
     c + int (length (wc_text s)))"
  using assms
proof (induction s arbitrary: p l w c)
  case Nil
  then show ?case by (simp add: wc_text_def wc_lines_def wc_words_def in_word_def)
next
  case (Cons x s)
  show ?case
  proof (cases "x = EOF_CHAR")
    case True
    then show ?thesis by (simp add: text_Cons wc_lines_def wc_words_def in_word_def)
  next
    case False
    have c: "inc c = Some (c + 1)" using Cons.prems by (simp add: inc_def)
    show ?thesis
    proof (cases "x = NUL")
      case True
      then show ?thesis using Cons.IH [of l "c + 1" w p] Cons.prems False c
        by (simp add: text_Cons words_NUL lines_NUL)
    next
      case nul: False
      have w: "inc w = Some (w + 1)" "inc l = Some (l + 1)" using Cons.prems by (simp_all add: inc_def)
      define w' where "w' = (if is_space p \<and> \<not> is_space x then w + 1 else w)"
      define l' where "l' = (if x = CHR 0x0A then l + 1 else l)"
      have "wc_stdin (x # s) p l w c = wc_stdin s x l' w' (c + 1)"
        using False nul c w by (simp add: w'_def l'_def)
      also have "\<dots> = Some (l' + int (wc_lines (wc_text s)),
          w' + int (wc_words (wc_text s)) - (if \<not> is_space x \<and> in_word (wc_text s) then 1 else 0),
          c + 1 + int (length (wc_text s)))"
        by (rule Cons.IH) (use Cons.prems in \<open>auto simp: w'_def l'_def\<close>)
      also have "l' + int (wc_lines (wc_text s)) = l + int (wc_lines (wc_text (x # s)))"
        using False by (simp add: l'_def text_Cons wc_lines_def)
      also have "w' + int (wc_words (wc_text s)) - (if \<not> is_space x \<and> in_word (wc_text s) then 1 else 0)
          = w + int (wc_words (wc_text (x # s))) - (if \<not> is_space p \<and> in_word (wc_text (x # s)) then 1 else 0)"
        using False by (simp add: w'_def text_Cons words_step [OF nul] in_word_Cons [OF nul])
      also have "c + 1 + int (length (wc_text s)) = c + int (length (wc_text (x # s)))"
        using False by (simp add: text_Cons)
      finally show ?thesis .
    qed
  qed
qed

text \<open>C40: both loops count the text up to the first byte 255, and all of it when there is none:
  its line feeds, its words, the pieces between white space once NUL is left out, and its
  bytes.\<close>

theorem word_count_correct:
  assumes "length s < 2 ^ 31"
  shows "wc_stdin s CHR '' '' 0 0 0 = Some (int (wc_lines (wc_text s)), int (wc_words (wc_text s)), int (length (wc_text s)))
     \<and> wc_file s CHR '' '' 0 0 0 = wc_stdin s CHR '' '' 0 0 0"
  using wc_stdin_spec [of 0 0 0 s "CHR '' ''"] wc_file_same [of "CHR '' ''" "CHR '' ''" s] assms
  by (simp add: space_LF)

lemma word_count_correct_witness:
  "wc_stdin (''one two'' @ [CHR 0x0A, CHR 0xFF] @ ''three'') CHR '' '' 0 0 0 = Some (1, 2, 8)"
proof -
  let ?s = "''one two'' @ [CHR 0x0A, CHR 0xFF] @ ''three''"
  have "wc_text ?s = ''one two'' @ [CHR 0x0A]" by (simp add: wc_text_def EOF_CHAR_def)
  moreover have "wc_words (''one two'' @ [CHR 0x0A]) = 2" "wc_lines (''one two'' @ [CHR 0x0A]) = 1"
    by (simp_all add: wc_words_def wc_lines_def NUL_def is_space_def)
  ultimately show ?thesis using word_count_correct [of ?s] by simp
qed

text \<open>A file that does not exist has no defined result.\<close>

lemma wc_missing_file: "files f = None \<Longrightarrow> wc_main [a, f] stdin files = None"
  by (simp add: wc_main_def)

end
