(* ===== verification/Spec2Isabelle.thy ===== *)
theory Spec2Isabelle
  imports KVMain LeaderRing LeaderSockets LeaderThreads FollowerThreads StoreThreads MessageMemory
    SocketServer MD5Reference HeapAlloc HeapTest Hw2Serve Shell JobControl WordCount
begin

text \<open>
  Verification of the programs of this repository: the homeworks of an operating systems course in
  C. hw0 counts words, hw1 is a shell, hw2 a web server and proxy, hw3 a memory allocator, and hw4
  a replicated key-value store: a leader takes requests as HTTP messages and runs two-phase commit
  over followers, each of which keeps a store and a log in a directory.

  \<^bold>\<open>Conventions.\<close> An option \<open>None\<close> is a C program without a
  result: it reads or writes outside its memory, uses memory it never wrote, dereferences NULL,
  overflows an \<open>int\<close>, leaves through a fatal error or does not return. NULL itself is
  a value. A buffer is a string of its size, a C string one without NUL. Machine words keep their
  width where it matters. What the operating system or the C library decides is an argument: the
  results of \<open>write\<close>, the answers of the network, the files at a path, the addresses
  \<open>calloc\<close> returns.

  \<^bold>\<open>The theories and the files they model.\<close>
  \<^item> CPrelude, CText: C strings, decimal and little-endian numbers, \<open>atoi\<close>,
    \<open>strtol\<close>, \<open>strchr\<close>, \<open>strstr\<close>, the pieces of a text
    between separators, schedules of two threads.
  \<^item> KVConstants, KVTypes: hw4/src/kvconstants.h and kvmessage.h.
  \<^item> MD5: hw4/src/md5.c and \<open>strhash64\<close>; MD5Constants: the sines RFC 1321 takes
    its constants from; MD5Reference: MD5 as RFC 1321 has it, and that the code computes it.
  \<^item> FileSystem: the calls on files the store makes. KVStore: hw4/src/kvstore.c, chains of
    entry files; StoreThreads: two threads in \<open>kvstore_put\<close>. TPCLog:
    hw4/src/tpclog.c. KVServer: hw4/src/kvserver.c, the follower; KVRecovery: the crashes and
    faults it does not survive; FollowerThreads: its requests access by access, and two of them at
    the same time.
  \<^item> Descriptors: the descriptors of a process, and how a server opens its socket.
  \<^item> FollowerRing: the ring of followers in hw4/src/tpcleader.c; TPCLeader: its requests on
    any network. KVCluster: the leader with modelled followers, in bytes, on a network with
    faults; KVScenario: concrete states for the examples. KVMain: hw4/src/main, from the command
    lines to the registration. LeaderRing: which followers a request goes to. LeaderSockets: the
    leader's connections, with the \<open>connect_to\<close> of hw4/src/socket_server.c.
    LeaderThreads: the leader's requests exchange by exchange, and two of them at the same time.
  \<^item> LibURL, LibHTTP, KVMessage: hw4/src/liburl.c, libhttp.c and kvmessage.c. KVWire: the
    socket handlers on bytes, with hw4/src/index.h. WireSystem: clients that talk to the leader in
    bytes as well.
  \<^item> KVMemory, KVOwnership, MessageMemory: the same functions with the blocks they allocate
    and free, from \<open>url_decode\<close> to the handler of a follower's socket.
  \<^item> WorkQueue: hw4/src/wq.c with the two macros of utlist.h it uses. SocketServer:
    \<open>server_run\<close> and the threads of hw4/src/socket_server.c as interleaved steps.
  \<^item> Allocator: hw3/mm_alloc.c; HeapLayout, HeapAlloc: its list of slots, and its client;
    HeapTest: \<open>debug_print_list\<close>, and the program of hw3/mm_test.c.
  \<^item> Hw2HTTP: hw2/libhttp.c. Of hw2/httpserver.c, Hw2Server has the requests for files and
    the command line, Hw2Proxy the proxy, Hw2Serve \<open>serve_forever\<close> and its children.
  \<^item> ShellParse: hw1/io.c and parse.c. Shell: hw1/shell.c. JobControl:
    \<open>init_shell\<close> and hw1/process.c.
  \<^item> WordCount: hw0/wc.c.

  Definitions have the names of the C functions; a loop inside a function is a function of its own
  named after it. A struct is a record, memory with pointers a map from addresses.

  \<^bold>\<open>The interfaces\<close> are locales, each interpreted on the model:
  \<open>kv_interface\<close> (what a store owes its user; KVStore),
  \<open>follower_network\<close> (what a leader relies on; the cluster),
  \<open>leader_process\<close>, which extends it (such a network behind the descriptors of a
  process is one again, while they last), \<open>job_queue\<close> (what the threads rely on;
  WorkQueue), \<open>byte_sink\<close> (what the web server relies on; a socket).

  \<^bold>\<open>What is shown.\<close>
  \<^item> The replicated store: leader and followers exchange bytes; two-phase commit is atomic
    on a network with refused connections, lost messages, crashes and restarts; without faults the
    cluster is one map, from the command lines on; a follower refines an abstract participant for
    which a crash is nothing, whatever the sequence of requests; a logged COMMIT survives a crash.
    Commit stays atomic with the descriptors of a real process, while more are free than faults
    are to come; the cluster is one map too when the clients exchange bytes with the leader.
  \<^item> Its parts: the store is a map however hashes collide, the log a list of operations, the
    ring sorted, and the followers of a key different ones, in its order; MD5 is MD5; requests,
    responses and URLs come back as they were sent; the threads serve each socket once. The memory
    of messages is freed once and not used afterwards, and what is lost is counted: nothing in the
    traffic of leader and followers, a block for each value of a parameter that comes again, two
    for each \<open>write\<close> that fails.
  \<^item> The allocator: its client sees separate byte strings and is never stuck; when all is
    freed one free slot remains; the test of hw3 prints what it stored.
  \<^item> The web server answers with what stands at the joined path, within its buffers; its
    parser accepts the grammar of its comments, less empty methods and paths; it gives each
    connection a child of its own, and the proxy hands on the whole answer. The shell splits a
    line into words, runs the program they ask for on the files they name and has its descriptors
    and, with job control, its terminal back; wc counts.
  \<^item> Faults of the code, as theorems: a stale COMMIT record, votes that are not logged, an
    acknowledged commit that a second request makes the followers drop, two operations a follower
    prepares together and commits or drops together, the races of put and register, a registration
    that overflows its array (\<open>room n\<close> is what the compiler gives an array of
    \<open>n\<close> bytes), a GET that never returns, requests the allocator does not refuse, a
    buffer of URLs that is too short, keys with spaces, workers that never end, descriptors and
    processes that are never given back, padded requests of the proxy, which does not hang up
    either, a search for commands that reads uninitialised memory.

  \<^bold>\<open>Loops and bounds.\<close> Loops are structural recursion, recursion with a
  measure, or, where they may not end (chains of entries, log files, linked lists, the GET and the
  second phase of the leader), \<open>partial_function\<close> with \<open>None\<close> for not
  returning; that they return is part of the theorems about them. There is no fuel. Limits (1024
  bytes of a key or value, 8192 of a message, 128 of a URL, 100 tokens) are those of the code.

  \<^bold>\<open>Assumptions.\<close> Directories of the store have names of at most 985 bytes,
  for which \<open>sprintf\<close> stays within its buffers, and fewer than 2^31 files per chain.
  One \<open>read\<close> returns a whole message. Operations under a lock are one step, but for
  the steps the code makes outside of it. Disk faults inside a \<open>write\<close> are not
  modelled, crashes between calls are. Nobody else moves the break of the allocator's process. The
  shell's output is a terminal. A signal reaches a server or a shell between the steps of its
  model. A place in the table of processes stays taken until the parent waits. A file is not
  replaced between \<open>stat\<close> and \<open>fopen\<close> of the web server.

  \<^bold>\<open>Not modelled.\<close> The memory of the shell and of the leader's followers, and
  the blocks \<open>KVStore\<close> and \<open>TPCLog\<close> read their entries into;
  \<open>malloc\<close> that fails, where the code ends the process; what is printed for the
  operator, with what the \<open>printf\<close> of \<open>do_log\<close> reads behind an entry;
  the handling of SIGINT and its like by hw1's children beyond that they no longer ignore it; the
  failure of \<open>pthread_create\<close>; hw0/map.c and main.c, which print addresses and
  limits; uthash.h, which nobody uses, and the rest of utlist.h, both third-party.
\<close>

section \<open>The replicated store\<close>

text \<open>C1: two-phase commit is atomic. Whatever happens on the network (a finite list of
  refused connections, lost requests, lost answers and followers that crash and restart), a
  PUT or DEL that fits into a message comes to an end at the leader; either the client is told
  SUCCESS and every replica of the key has applied the operation, each of them having approved it,
  or the client is told ``abort the command'' and no replica has changed. Followers that are no
  replica of the key keep their state. Leader and followers exchange bytes.\<close>

theorem two_phase_commit_atomic:
  assumes "leader_rel h leader ms" "ms \<noteq> []" "length ms = unat (follower_capacity leader)"
    and "request_ok req" "request_complete req" "req_type req \<in> {PUTREQ, DELREQ}"
    and "io_ok io" "sendable req"
    and "req_key req = Some key" "R = replicas ms (unat (redundancy leader)) key"
    and "cluster_rel w P" "\<forall>a \<in> R. P a = Some (M a, None)"
  shows "\<exists>w' P' res. tpcleader_handle_tpc (cluster_net io fd1 fd2) h leader w (Some req) res_calloc
       = Some (w', res)
     \<and> cluster_rel w' P' \<and> (\<forall>a. a \<notin> R \<longrightarrow> P' a = P a)
     \<and> ((res = mk_res SUCCESS None \<and> (\<forall>a \<in> R. op_verdict (M a) req = 0
           \<and> P' a = Some (kv_apply (M a) (req_op req), None)))
      \<or> (res = mk_res ERROR (Some ''abort the command'') \<and> (\<forall>a \<in> R. P' a = Some (M a, None))))"
proof -
  have "wired_rel io w P" using assms(7,11) by (simp add: wired_rel_ok)
  from cl.atomic_commit [OF assms(1-6,8-10) this assms(12)] show ?thesis
    unfolding wired_rel_ok [OF assms(7)] by blast
qed

theorem two_phase_commit_atomic_witness:
  "\<exists>w' P' res. tpcleader_handle_tpc (cluster_net io0 5 6) heap2 leader2
       (cluster2 [Fine, Fine, Refused, AnswerLost, Restarts srv0 2 ''a'' 16201])
       (Some (put_req ''k'' ''v'')) res_calloc = Some (w', res) \<and> cluster_rel w' P'"
proof -
  have put: "req_type (put_req ''k'' ''v'') \<in> {PUTREQ, DELREQ}" "req_key (put_req ''k'' ''v'') = Some ''k''"
    by (simp_all add: put_req_def)
  have idle: "\<forall>a \<in> replicas members2 (unat (redundancy leader2)) ''k''. participants2 a = Some (Map.empty, None)"
    using replicas2_idle by (simp add: leader2_def)
  have "members2 \<noteq> []" "length members2 = unat (follower_capacity leader2)"
    by (simp_all add: members2_def leader2_def)
  from two_phase_commit_atomic [OF leader2_rel this put_kv_ok put(1) io0_ok put_kv_sendable(1) put(2) refl
      cluster2_rel [of "[Fine, Fine, Refused, AnswerLost, Restarts srv0 2 ''a'' 16201]"] idle, of 5 6]
  show ?thesis by blast
qed

text \<open>C2: on a network without faults a leader with its followers is one map, as far as the
  buffer of \<open>url_encode\<close> reaches: a sequence of GET, PUT and DEL requests, with keys and values
  that hold no separators, is answered as that map answers it, and all replicas agree with the map
  afterwards; but a sequence in which one of the requests has a URL that does not fit leaves the
  leader without a result.\<close>

theorem cluster_is_one_map:
  assumes "leader_rel h leader ms" "ms \<noteq> []" "distinct (map snd ms)"
    and "length ms = unat (follower_capacity leader)" "redundancy leader \<noteq> 0"
    and "list_all client_ok reqs" "list_all plain_request reqs" "io_ok io"
    and "cluster_view cluster_rel ms (unat (redundancy leader)) w m" "cl_events w = []"
  shows "if list_all buffer_fits reqs
     then \<exists>w'. leader_run (cluster_net io fd1 fd2) room h leader w reqs = Some (w', snd (client_run m reqs))
       \<and> cluster_view cluster_rel ms (unat (redundancy leader)) w' (fst (client_run m reqs))
     else leader_run (cluster_net io fd1 fd2) room h leader w reqs = None"
  using leader_run_fits [OF assms] leader_run_overflow [OF assms] by simp

theorem cluster_is_one_map_witness:
  "\<exists>w'. leader_run (cluster_net io0 5 6) aligned heap2 leader2 (cluster2 [])
       [get_req ''k'', put_req ''k'' ''v'', get_req ''k'']
     = Some (w', [SendResponse (mk_res ERROR (Some ERRMSG_NO_KEY)),
                  SendResponse (mk_res SUCCESS None), SendResponse (mk_res GETRESP (Some ''v''))])"
proof -
  let ?reqs = "[get_req ''k'', put_req ''k'' ''v'', get_req ''k'']"
  have red: "unat (redundancy leader2) = 2" by (simp add: leader2_def)
  have run: "snd (client_run Map.empty ?reqs)
     = [SendResponse (mk_res ERROR (Some ERRMSG_NO_KEY)),
        SendResponse (mk_res SUCCESS None), SendResponse (mk_res GETRESP (Some ''v''))]"
    by (simp add: client_step_def get_req_def put_req_def op_verdict_def put_verdict_def
        req_op.simps MAX_KEYLEN_def MAX_VALLEN_def)
  have ok: "list_all client_ok ?reqs"
    using put_kv_ok get_k_ok by (simp add: client_ok_def) (simp add: get_req_def put_req_def)
  have fit: "list_all plain_request ?reqs" "list_all buffer_fits ?reqs"
    using put_kv_sendable(1) get_k_sendable by (simp_all add: sendable_def plain_request_def buffer_fits_def)
  show ?thesis
    using cluster_is_one_map [OF leader2_rel _ _ _ _ ok fit(1) io0_ok, of "cluster2 []" Map.empty 5 6 aligned]
      cluster2_view red run fit(2)
    by (fastforce simp: members2_def leader2_def cluster2_def)
qed

text \<open>C8: a follower keeps its state through crashes. Any sequence of requests, with
  crashes and restarts on the same directory between them, takes the server where the
  abstract participant goes, for which a restart is nothing.\<close>

theorem follower_life:
  assumes "srv_rel d fs s P" "list_all event_ok es"
  shows "\<exists>fs' s'. srv_run d fs s es = Some (fs', s') \<and> srv_rel d fs' s' (participant_run P es)"
  using assms by (rule srv_run_refines)

theorem follower_life_witness:
  "\<exists>fs' s'. srv_run ''d'' fs0 srv0 [Request (put_req ''k'' ''v''), Restart srv0 2 ''a'' 16201,
       Request (decision True), Restart srv0 2 ''a'' 16201] = Some (fs', s')
     \<and> srv_rel ''d'' fs' s' ([''k'' \<mapsto> ''v''], None)"
proof -
  let ?es = "[Request (put_req ''k'' ''v''), Restart srv0 2 ''a'' 16201,
       Request (decision True), Restart srv0 2 ''a'' 16201]"
  have "list_all event_ok ?es"
    using put_kv_ok by (simp add: decision_def request_ok_def request_complete_def)
  moreover have "participant_run (Map.empty, None) ?es = ([''k'' \<mapsto> ''v''], None)"
    by (simp add: decision_step)
      (simp add: participant_step.simps put_req_def prepare_def put_verdict_def MAX_KEYLEN_def
        MAX_VALLEN_def decision_def)
  ultimately show ?thesis using follower_life [OF srv0_rel, of ?es] by simp
qed

text \<open>C10: one request to a follower, through \<open>kvserver_handle\<close>: the response and the new
  state of server and directory are those of the abstract participant, for every message type
  and every branch of its checks.\<close>

theorem follower_request:
  assumes "srv_rel d fs s P" "request_ok req" "request_complete req" "req_type req \<noteq> INDEX"
  shows "\<exists>fs' s'. kvserver_handle fs s (Some req)
       = Some (fs', s', SendResponse (snd (participant_step P req)))
     \<and> srv_rel d fs' s' (fst (participant_step P req))"
  using kvserver_handle_tpc_refines [OF assms(1-3)] assms(4) by (auto simp: kvserver_handle_def)

theorem follower_request_witness:
  "\<exists>fs' s'. kvserver_handle fs0 srv0 (Some (put_req ''k'' ''v''))
       = Some (fs', s', SendResponse (mk_res VOTE (Some MSG_COMMIT)))
     \<and> srv_rel ''d'' fs' s' (Map.empty, Some (KPut ''k'' ''v''))"
proof -
  have "participant_step (Map.empty, None) (put_req ''k'' ''v'')
      = ((Map.empty, Some (KPut ''k'' ''v'')), mk_res VOTE (Some MSG_COMMIT))"
    by (simp add: participant_step.simps put_req_def prepare_def put_verdict_def MAX_KEYLEN_def
        MAX_VALLEN_def)
  then show ?thesis
    using follower_request [OF srv0_rel put_kv_ok] by (simp add: put_req_def)
qed

text \<open>C9: as soon as a follower has logged a COMMIT the operation is done: a crash right
  after the record is written, or after the log has been applied to the store but not yet
  cleared, and the restart finds the operation applied once and nothing pending.\<close>

theorem commit_survives_crash:
  assumes "srv_rel d fs s (m, Some op)"
  shows "\<exists>fs1 s1 fs2 s2.
     server_log fs s COMMIT None None = Some (fs1, s1)
   \<and> do_log fs1 (s1\<lparr>srv_state := TPC_COMMIT\<rparr>) = Some (fs2, s2)
   \<and> (\<exists>fs' s'. kvserver_init fs1 s0 d mt host port = Some (0, fs', s')
        \<and> srv_rel d fs' s' (kv_apply m op, None))
   \<and> (\<exists>fs' s'. kvserver_init fs2 s0 d mt host port = Some (0, fs', s')
        \<and> srv_rel d fs' s' (kv_apply m op, None))"
  using assms by (rule restart_in_commit)

theorem commit_survives_crash_witness:
  "\<exists>fs1 s1 fs' s'. server_log fs_prepared srv_prepared COMMIT None None = Some (fs1, s1)
     \<and> kvserver_init fs1 srv0 ''d'' 2 ''a'' 16201 = Some (0, fs', s')
     \<and> srv_rel ''d'' fs' s' ([''k'' \<mapsto> ''v''], None)"
  using commit_survives_crash [OF srv_prepared_rel, of srv0 2 "''a''" 16201] by fastforce

text \<open>C16: \<open>tpclog_clear_log\<close> removes \<open>0.log\<close> first. On the log of a finished COMMIT the function
  succeeds, and goes through a directory \<open>fs1\<close> after the first round of its loop. If the follower dies
  there, the COMMIT record stays behind: the restarted server votes for a PUT that is logged in
  front of the old record, and another crash makes it apply that PUT, although the leader has
  not decided.\<close>

theorem stale_commit_record:
  fixes log :: tpclog_t
  assumes "kv_rel fs d m" "log_rel fs log [r, LCommit]" "log_dirname log = d"
    and "op_ok (KPut k v)" and "req = \<lparr>req_type = PUTREQ, req_key = Some k, req_val = Some v\<rparr>"
  shows "\<exists>fs1 fs'. clear_log_step fs d 0 = Inr (fs1, 1) \<and> clear_log_loop fs1 d 1 = Some (0, fs')
     \<and> tpclog_clear_log fs log = Some (0, fs', log\<lparr>log_nextid := 0\<rparr>)
     \<and> (\<exists>s1 fs2 s2 fs3 s3.
       kvserver_init fs1 s0 d mt host port = Some (0, fs1, s1)
     \<and> kvserver_handle_tpc fs1 s1 req res_calloc
         = Some (fs2, s2, mk_res VOTE (Some MSG_COMMIT))
     \<and> kvserver_init fs2 s0 d mt host port = Some (0, fs3, s3)
     \<and> srv_rel d fs3 s3 (m(k \<mapsto> v), None))"
  using assms by (rule stale_commit_applied)

theorem stale_commit_record_witness:
  "\<exists>fs1 s1 fs2 s2 fs3 s3. clear_log_step fs_committed ''d'' 0 = Inr (fs1, 1)
     \<and> kvserver_init fs1 srv0 ''d'' 2 ''a'' 16201 = Some (0, fs1, s1)
     \<and> kvserver_handle_tpc fs1 s1 (put_req ''k'' ''v'') res_calloc
         = Some (fs2, s2, mk_res VOTE (Some MSG_COMMIT))
     \<and> kvserver_init fs2 srv0 ''d'' 2 ''a'' 16201 = Some (0, fs3, s3)
     \<and> srv_rel ''d'' fs3 s3 ([''k'' \<mapsto> ''v''], None)"
proof -
  have "log_rel fs_committed (log0\<lparr>log_nextid := 2\<rparr>) [LDel ''k'', LCommit]"
    using fs_committed_log by (simp add: log_rel_def log0_def)
  from stale_commit_record [OF fs_committed_store this _ op_kv_ok put_req_def, of srv0 2 "''a''" 16201]
  show ?thesis by (auto simp: log0_def)
qed

text \<open>C17: the result of \<open>tpclog_log\<close> is ignored. In a directory the server may read but not
  write, it votes COMMIT for a PUT, acknowledges the COMMIT, and has changed nothing.\<close>

theorem vote_without_log:
  assumes "fs_dirs fs d = Some False" "\<not> fs_root fs" "srv_on s d"
    and "\<not> fs_stat fs (log_path d 0)" "log_nextid (srv_log s) = 0"
    and "srv_state s \<in> {TPC_INIT, TPC_WAIT}" "op_ok (KPut k v)"
    and "put = \<lparr>req_type = PUTREQ, req_key = Some k, req_val = Some v\<rparr>"
    and "commit = \<lparr>req_type = COMMIT, req_key = None, req_val = None\<rparr>"
  shows "\<exists>s1 s2.
     kvserver_handle_tpc fs s put res_calloc = Some (fs, s1, mk_res VOTE (Some MSG_COMMIT))
   \<and> kvserver_handle_tpc fs s1 commit res_calloc = Some (fs, s2, mk_res ACK None)"
  using assms by (rule vote_and_ack_unlogged)

theorem vote_without_log_witness:
  "\<exists>s1 s2. kvserver_handle_tpc fs_readonly srv0 (put_req ''k'' ''v'') res_calloc
       = Some (fs_readonly, s1, mk_res VOTE (Some MSG_COMMIT))
   \<and> kvserver_handle_tpc fs_readonly s1 (decision True) res_calloc
       = Some (fs_readonly, s2, mk_res ACK None)"
  by (rule vote_without_log [OF _ _ _ _ _ _ op_kv_ok put_req_def, of _ "''d''"])
    (simp_all add: fs_readonly_def srv0_def store0_def log0_def srv_on_def fs_stat_def decision_def)

section \<open>Store and log\<close>

text \<open>C11: the store in its directory is a map. After any sequence of puts and deletions of
  keys and values within the limits, each of which returns, a get returns the value last put
  for the key, or \<open>ERRNOKEY\<close>, however the hashes of the keys collide.\<close>

theorem store_is_a_map:
  assumes "kv_rel fs (store_dirname store) m" "list_all (kv_op_ok key_ok val_ok) ops" "key_ok k"
  shows "\<exists>fs'. kv_run (\<lambda>fs. kvstore_put fs store) (\<lambda>fs. kvstore_del fs store) fs ops = Some fs'
     \<and> kvstore_get fs' store k = Some (case foldl kv_apply m ops k of
         None \<Rightarrow> (ERRNOKEY, None) | Some v \<Rightarrow> (0, Some v))"
  using assms by (rule kvs.get_after_run)

theorem store_is_a_map_witness:
  "\<exists>fs'. kv_run (\<lambda>fs. kvstore_put fs store0) (\<lambda>fs. kvstore_del fs store0) fs0
       [KPut ''a'' ''1'', KPut ''b'' ''2'', KPut ''a'' ''3'', KDel ''b''] = Some fs'
     \<and> kvstore_get fs' store0 ''a'' = Some (0, Some ''3'')"
  using store_is_a_map [of fs0 store0 Map.empty
      "[KPut ''a'' ''1'', KPut ''b'' ''2'', KPut ''a'' ''3'', KDel ''b'']" "''a''"] fs0_store
  by (simp add: store0_def key_ok_def val_ok_def NUL_def MAX_KEYLEN_def MAX_VALLEN_def)

text \<open>C12: deleting moves the last entry of the chain into the gap: the result is 0 or
  \<open>ERRNOKEY\<close>, the chains stay complete and hold the map without the key, and no other file of
  the directory is touched.\<close>

theorem store_del:
  assumes "kv_rel fs (store_dirname store) m" "length k \<le> MAX_KEYLEN"
  shows "\<exists>fs'. kvstore_del fs store k = Some (if m k = None then ERRNOKEY else 0, fs')
     \<and> kv_rel fs' (store_dirname store) (m(k := None)) \<and> store_frame (store_dirname store) fs fs'"
  using kvstore_del_spec [OF assms] .

theorem store_del_witness:
  "\<exists>fs'. kvstore_del fs0 store0 ''a'' = Some (ERRNOKEY, fs')"
  using store_del [of fs0 store0 Map.empty "''a''"] fs0_store
  by (auto simp: store0_def MAX_KEYLEN_def)

text \<open>File names of entries fit the buffers of \<open>MAX_FILENAME\<close> bytes, whatever the hash
  and the position, for every directory name up to 985 characters.\<close>

lemma entry_path_fits:
  assumes "i < 2 ^ 32" "length d \<le> 985"
  shows "length (entry_path d h i) < MAX_FILENAME"
  using length_entry_path [OF assms(1), of d h] assms(2) by (simp add: MAX_FILENAME_def)

lemma entry_path_fits_witness: "length (entry_path ''d'' (- 1) 4294967295) < MAX_FILENAME"
  by (rule entry_path_fits) simp_all

text \<open>C13: \<open>tpclog_log\<close> appends a record to the log, and \<open>tpclog_load_entry\<close> reads back from
  its file the type, the length and the data that were logged.\<close>

theorem log_append_load:
  fixes log :: tpclog_t
  assumes "log_rel fs log rs" "rec_ok r"
  shows "\<exists>fs'. tpclog_log fs log (rec_type r) (rec_key r) (rec_value r)
       = Some (0, fs', log\<lparr>log_nextid := log_nextid log + 1\<rparr>)
     \<and> log_rel fs' (log\<lparr>log_nextid := log_nextid log + 1\<rparr>) (rs @ [r])
     \<and> tpclog_load_entry fs' (log_path (log_dirname log) (length rs)) = Some (Inr (rec_entry r))"
proof -
  from tpclog_log_spec [OF assms] obtain fs' where
    1: "tpclog_log fs log (rec_type r) (rec_key r) (rec_value r)
       = Some (0, fs', log\<lparr>log_nextid := log_nextid log + 1\<rparr>)"
      "log_rel fs' (log\<lparr>log_nextid := log_nextid log + 1\<rparr>) (rs @ [r])" by blast
  then have "log_files fs' (log_dirname log) (rs @ [r])" by (simp add: log_rel_def)
  from tpclog_load_entry_spec [OF this, of "length rs"] 1 show ?thesis by simp
qed

theorem log_append_load_witness:
  "\<exists>fs'. tpclog_log fs0 log0 PUTREQ (Some ''k'') (Some ''v'') = Some (0, fs', log0\<lparr>log_nextid := 1\<rparr>)
     \<and> tpclog_load_entry fs' (log_path ''d'' 0)
        = Some (Inr \<lparr>le_type = 2, le_length = 4, le_data = ''k'' @ NUL # ''v'' @ [NUL]\<rparr>)"
  using log_append_load [of fs0 log0 "[]" "LPut ''k'' ''v''"] fs0_log
  by (auto simp: log_rel_def log0_def rec_entry_def NUL_def MAX_KEYLEN_def MAX_VALLEN_def)

text \<open>A log found on disk is iterated record by record, in order, and ends where the
  records end; clearing it removes all of them and nothing else.\<close>

lemma log_iterate_clear:
  assumes "log_files fs d rs"
  shows "\<exists>log fs'. tpclog_init fs log1 d = Some (0, fs, log)
     \<and> (\<forall>i < length rs. tpclog_iterate_next fs (log\<lparr>log_iterpos := i\<rparr>)
          = Some (log\<lparr>log_iterpos := i + 1\<rparr>, Some (rec_entry (rs ! i))))
     \<and> \<not> tpclog_iterate_has_next fs (log\<lparr>log_iterpos := length rs\<rparr>)
     \<and> tpclog_clear_log fs log = Some (0, fs', log\<lparr>log_nextid := 0\<rparr>)
     \<and> log_files fs' d [] \<and> log_frame d fs fs'"
proof -
  let ?log = "log1\<lparr>log_dirname := d, log_nextid := length rs\<rparr>"
  have rel: "log_rel fs ?log rs" using tpclog_init_spec(2) [OF assms] .
  then have at: "log_rel fs (?log\<lparr>log_iterpos := i\<rparr>) rs" for i by simp
  have "\<forall>i < length rs. tpclog_iterate_next fs (?log\<lparr>log_iterpos := i\<rparr>)
      = Some (?log\<lparr>log_iterpos := i + 1\<rparr>, Some (rec_entry (rs ! i)))"
    using tpclog_iterate_next_spec [OF at] by simp
  moreover have "\<not> tpclog_iterate_has_next fs (?log\<lparr>log_iterpos := length rs\<rparr>)"
    using tpclog_has_next_spec [OF at] by simp
  ultimately show ?thesis
    using tpclog_init_spec(1) [OF assms, of log1] tpclog_clear_log_spec [OF rel]
    by (intro exI [of _ ?log]) (auto simp: log_rel_def)
qed

section \<open>The followers of a leader\<close>

text \<open>C14: registering keeps the ring of followers sorted by id and without repetition; a
  known id changes nothing, a new one is inserted at its place, and the count follows. All this
  holds as far as the array for \<open>PORT:HOST\<close> is two bytes longer than the code asks for; where it is
  not (\<open>room n = n\<close> is all that C promises), no registration below the capacity has a result.\<close>

theorem register_sorted:
  assumes "leader_rel h leader ms" "h new = None"
    and "req_key req = Some host" "req_val req = Some port"
    and "length ms < unat (follower_capacity leader)"
  shows "if room (length host + length port) < length host + length port + 2
     then tpcleader_register room new h leader req res = None
     else \<exists>h' leader'. tpcleader_register room new h leader req res
         = Some (h', leader', res\<lparr>res_type := SUCCESS\<rparr>)
       \<and> leader_rel h' leader' (register_member (host_member host port) ms)
       \<and> follower_capacity leader' = follower_capacity leader
       \<and> redundancy leader' = redundancy leader"
  using tpcleader_register_spec [OF assms] tpcleader_register_overflow [OF assms(1,5,3,4)] by simp

theorem register_sorted_witness:
  "(\<exists>h' leader'. tpcleader_register aligned 3 heap2 leader_with_room
       \<lparr>req_type = REGISTER, req_key = Some ''c'', req_val = Some ''80''\<rparr> res_calloc
     = Some (h', leader', res_calloc\<lparr>res_type := SUCCESS\<rparr>))
   \<and> tpcleader_register (\<lambda>n. n) 3 heap2 leader_with_room
       \<lparr>req_type = REGISTER, req_key = Some ''c'', req_val = Some ''80''\<rparr> res_calloc = None"
proof -
  let ?req = "\<lparr>req_type = REGISTER, req_key = Some ''c'', req_val = Some ''80''\<rparr>"
  have "heap2 3 = None" by (simp add: heap2_def)
  note reg = register_sorted [OF leader_with_room_rel this, of ?req "''c''" "''80''" _ res_calloc]
  show ?thesis
    using reg [of aligned] reg [of "\<lambda>n. n"]
    by (auto simp: members2_def leader_with_room_def leader2_def aligned_def simp del: mk_res_simps)
qed

text \<open>The primary of a key is the first follower with an id above the hash of the key,
  or the one with the lowest id when there is none.\<close>

lemma primary_of_key:
  assumes "leader_rel h leader ms" "ms \<noteq> []" "length ms = unat (follower_capacity leader)"
  shows "\<exists>a i. tpcleader_get_primary h leader key = Some (Some a) \<and> i < length ms
     \<and> contents h a = Some (ms ! i)
     \<and> (if \<exists>m \<in> set ms. strhash64 key < fst m
        then strhash64 key < fst (ms ! i) \<and> (\<forall>j < i. fst (ms ! j) \<le> strhash64 key)
        else i = 0)"
proof -
  obtain xs where at: "ring_at h leader xs ms" using assms(1) by (auto simp: leader_rel_def)
  let ?i = "primary_index ms (strhash64 key)"
  have pri: "tpcleader_get_primary h leader key = Some (Some (xs ! ?i))"
    using tpcleader_get_primary_spec [OF assms(1) at assms(2)] assms(3) by simp
  have i: "?i < length ms" using assms(2) by (simp add: primary_index_def Let_def)
  then have "contents h (xs ! ?i) = Some (ms ! ?i)"
    using at ring_at_length [OF at] by (metis (no_types, lifting) nth_map ring_at_def)
  with pri i primary_index_cases [of ms "strhash64 key"] show ?thesis
    by (intro exI [of _ "xs ! ?i"] exI [of _ ?i] conjI) simp_all
qed

lemma primary_of_key_witness:
  "\<exists>a. tpcleader_get_primary heap2 leader2 ''k'' = Some (Some a)"
  using primary_of_key [OF leader2_rel, of "''k''"] by (auto simp: members2_def leader2_def)

text \<open>C19: a GET does not come back while the follower it begins with refuses connections, whatever
  the others do: the loop of \<open>tpcleader_handle_get\<close> goes on without moving to the next replica and
  without counting. \<open>J\<close> is what holds of the network while that follower refuses.\<close>

theorem get_never_returns:
  assumes "leader_rel h leader ms" "ms \<noteq> []" "length ms = unat (follower_capacity leader)"
    and "redundancy leader \<noteq> 0" "req_key req = Some key"
    and "(host, port) = snd (ms ! primary_index ms (strhash64 key))" "J w"
    and "\<And>w. J w \<Longrightarrow> \<exists>w'. net_connect net w host port = (False, w') \<and> J w'"
  shows "tpcleader_handle_get net h leader w (Some req) res_calloc = None"
proof -
  let ?i = "primary_index ms (strhash64 key)"
  obtain xs where at: "ring_at h leader xs ms" and i: "?i < length xs"
    and pri: "tpcleader_get_primary h leader key = Some (Some (xs ! ?i))"
    by (rule leader_primaryE [OF assms(1-3) refl, of key]) (rule that)
  obtain f where f: "h (xs ! ?i) = Some f" "(fl_host f, fl_port f) = snd (ms ! ?i)"
    by (rule ring_at_node [OF at i])
  then have "fl_host f = host" "fl_port f = port" using assms(6) by (metis prod.inject)+
  then have "get_loop net h (unat (redundancy leader)) req w (xs ! ?i) 0 = None"
    using assms(4,8) by (intro get_loop_diverges [of h _ f 0 _ J]) (simp_all add: f(1) assms(7) unat_gt_0)
  then show ?thesis using pri assms(5) by (simp add: tpcleader_handle_get_def)
qed

text \<open>Two followers, of which the one that the GET begins with refuses and the other accepts.\<close>

theorem get_never_returns_witness:
  "\<exists>refuses. tpcleader_handle_get \<lparr>net_connect = (\<lambda>w host port. ((host, port) \<noteq> refuses, w)),
       net_exchange = (\<lambda>w _ _ _. Some (Some (mk_res GETRESP (Some ''v'')), w))\<rparr>
     heap2 leader2 () (Some (get_req ''k'')) res_calloc = None"
proof -
  obtain host port where "(host, port) = snd (members2 ! primary_index members2 (strhash64 ''k''))"
    by (metis prod.exhaust)
  note never = get_never_returns [OF leader2_rel _ _ _ _ this, of "get_req ''k''" "\<lambda>_. True"]
  show ?thesis
    by (rule exI [of _ "(host, port)"], rule never) (simp_all add: members2_def leader2_def get_req_def)
qed

end
